(* ===== verification/Prelude.thy ===== *)
theory Prelude
  imports "HOL-Library.Word" "HOL-Library.Sublist"
begin

text \<open>
  What every component shares: the undefined behaviours of C and C++ as values of a sum
  type, checked arithmetic on the 32-bit signed \<^verbatim>\<open>int\<close>, checked reads and writes of fixed
  arrays, the C library's \<^verbatim>\<open>rand\<close> as a stream of draws, and a few generic facts on lists
  (how many elements satisfy a predicate, after one of them is replaced).
\<close>

section \<open>Faults and results\<close>

text \<open>
  A computation of the source that has undefined behaviour, or that raises, has a value
  \<open>Inl f\<close>; one that goes on has a value \<open>Inr x\<close>.
\<close>

datatype fault =
    Signed_overflow
  | Division_by_zero
  | Out_of_bounds
  | Null_dereference
  | Invalid_free
  | Wrong_delete
  | Bad_alloc
  | Blocked_forever
  | Assertion_failed
  | Missing_return
  | Bad_thread
  | Uninitialised_read

type_synonym 'a result = "fault + 'a"

definition bind_result :: "'a result \<Rightarrow> ('a \<Rightarrow> 'b result) \<Rightarrow> 'b result" where
  "bind_result r f = (case r of Inl e \<Rightarrow> Inl e | Inr x \<Rightarrow> f x)"

definition succeeds :: "'a result \<Rightarrow> bool" where
  "succeeds r \<longleftrightarrow> (case r of Inl _ \<Rightarrow> False | Inr _ \<Rightarrow> True)"

named_theorems result_simps \<open>evaluation of results\<close>

lemma bind_result_Inl [simp, result_simps]: "bind_result (Inl e) f = Inl e"
  by (simp add: bind_result_def)

lemma bind_result_Inr [simp, result_simps]: "bind_result (Inr x) f = f x"
  by (simp add: bind_result_def)

lemma succeeds_simps [simp, result_simps]: "succeeds (Inr x)" "\<not> succeeds (Inl e)"
  by (simp_all add: succeeds_def)

lemma bind_result_eq_Inr [simp]:
  "bind_result r f = Inr y \<longleftrightarrow> (\<exists>x. r = Inr x \<and> f x = Inr y)"
  by (cases r) auto

lemma bind_result_assoc:
  "bind_result (bind_result r f) g = bind_result r (\<lambda>x. bind_result (f x) g)"
  by (cases r) auto

section \<open>Checked arithmetic on the signed 32-bit int\<close>

definition INT_MAX :: int where "INT_MAX = 2147483647"
definition INT_MIN :: int where "INT_MIN = - 2147483648"

definition in_int :: "int \<Rightarrow> bool" where
  "in_int x \<longleftrightarrow> INT_MIN \<le> x \<and> x \<le> INT_MAX"

definition checked :: "int \<Rightarrow> int result" where
  "checked x = (if in_int x then Inr x else Inl Signed_overflow)"

definition int_add :: "int \<Rightarrow> int \<Rightarrow> int result" where
  "int_add a b = checked (a + b)"

definition int_sub :: "int \<Rightarrow> int \<Rightarrow> int result" where
  "int_sub a b = checked (a - b)"

definition int_mul :: "int \<Rightarrow> int \<Rightarrow> int result" where
  "int_mul a b = checked (a * b)"

text \<open>
  The remainder of C++ takes the sign of the dividend; a zero divisor and the quotient
  \<^verbatim>\<open>INT_MIN / -1\<close> are undefined.
\<close>

definition int_rem :: "int \<Rightarrow> int \<Rightarrow> int result" where
  "int_rem a b =
     (if b = 0 then Inl Division_by_zero
      else if a = INT_MIN \<and> b = -1 then Inl Signed_overflow
      else Inr (sgn a * (\<bar>a\<bar> mod \<bar>b\<bar>)))"

lemma checked_ok [simp]: "INT_MIN \<le> x \<Longrightarrow> x \<le> INT_MAX \<Longrightarrow> checked x = Inr x"
  by (simp add: checked_def in_int_def)

lemma int_add_ok: "INT_MIN \<le> a + b \<Longrightarrow> a + b \<le> INT_MAX \<Longrightarrow> int_add a b = Inr (a + b)"
  by (simp add: int_add_def)

lemma int_sub_ok: "INT_MIN \<le> a - b \<Longrightarrow> a - b \<le> INT_MAX \<Longrightarrow> int_sub a b = Inr (a - b)"
  by (simp add: int_sub_def)

lemma int_rem_nonneg: "0 \<le> a \<Longrightarrow> 0 < b \<Longrightarrow> int_rem a b = Inr (a mod b)"
  by (cases "a = 0") (auto simp: int_rem_def)

lemma int_add_eq_Inr: "int_add a b = Inr c \<longleftrightarrow> c = a + b \<and> in_int (a + b)"
  by (auto simp: int_add_def checked_def)

lemma int_sub_eq_Inr: "int_sub a b = Inr c \<longleftrightarrow> c = a - b \<and> in_int (a - b)"
  by (auto simp: int_sub_def checked_def)

section \<open>Checked access to arrays\<close>

definition array_get :: "'a list \<Rightarrow> int \<Rightarrow> 'a result" where
  "array_get xs i = (if 0 \<le> i \<and> i < int (length xs) then Inr (xs ! nat i) else Inl Out_of_bounds)"

definition array_set :: "'a list \<Rightarrow> int \<Rightarrow> 'a \<Rightarrow> 'a list result" where
  "array_set xs i x =
     (if 0 \<le> i \<and> i < int (length xs) then Inr (xs[nat i := x]) else Inl Out_of_bounds)"

lemma array_get_ok: "0 \<le> i \<Longrightarrow> i < int (length xs) \<Longrightarrow> array_get xs i = Inr (xs ! nat i)"
  by (simp add: array_get_def)

lemma array_set_ok: "0 \<le> i \<Longrightarrow> i < int (length xs) \<Longrightarrow> array_set xs i x = Inr (xs[nat i := x])"
  by (simp add: array_set_def)

lemma array_set_nat:
  "array_set xs (int n) x = (if n < length xs then Inr (xs[n := x]) else Inl Out_of_bounds)"
  by (simp add: array_set_def)

section \<open>Draws of rand()\<close>

text \<open>
  \<^verbatim>\<open>rand()\<close> returns an int between 0 and RAND_MAX, which is INT_MAX in the C library the
  programs are built with. The sequence of values is arbitrary: a stream given as a function,
  whose head is the next draw.
\<close>

type_synonym rng = "nat \<Rightarrow> nat"

definition rand :: "rng \<Rightarrow> nat \<times> rng" where
  "rand r = (r 0 mod 2147483648, (\<lambda>i. r (Suc i)))"

lemma rand_range: "fst (rand r) < 2147483648"
  by (simp add: rand_def)

section \<open>Counting the elements that satisfy a predicate\<close>

definition count_if :: "('a \<Rightarrow> bool) \<Rightarrow> 'a list \<Rightarrow> int" where
  "count_if P xs = int (length (filter P xs))"

lemma count_if_Nil [simp]: "count_if P [] = 0"
  by (simp add: count_if_def)

lemma count_if_Cons [simp]: "count_if P (x # xs) = of_bool (P x) + count_if P xs"
  by (simp add: count_if_def)

lemma count_if_nonneg [simp]: "0 \<le> count_if P xs"
  by (simp add: count_if_def)

lemma count_if_update:
  "i < length xs \<Longrightarrow>
   count_if P (xs[i := y]) = count_if P xs - of_bool (P (xs ! i)) + of_bool (P y)"
proof (induction xs arbitrary: i)
  case (Cons x xs)
  then show ?case by (cases i) auto
qed simp

lemma count_if_replicate: "\<not> P x \<Longrightarrow> count_if P (replicate n x) = 0"
  by (simp add: count_if_def)

lemma count_if_pos: "i < length xs \<Longrightarrow> P (xs ! i) \<Longrightarrow> 1 \<le> count_if P xs"
proof (induction xs arbitrary: i)
  case (Cons x xs)
  then show ?case by (cases i) fastforce+
qed simp

lemma count_if_ex:
  assumes "0 < count_if P xs"
  shows "\<exists>j < length xs. P (xs ! j)"
proof -
  have "\<exists>x \<in> set xs. P x"
  proof (rule ccontr)
    assume "\<not> (\<exists>x \<in> set xs. P x)"
    then have "filter P xs = []" by (simp add: filter_empty_conv)
    with assms show False by (simp add: count_if_def)
  qed
  then show ?thesis by (auto simp: in_set_conv_nth)
qed

lemma count_if_two:
  "i < length xs \<Longrightarrow> j < length xs \<Longrightarrow> i \<noteq> j \<Longrightarrow> P (xs ! i) \<Longrightarrow> P (xs ! j) \<Longrightarrow> 2 \<le> count_if P xs"
proof (induction xs arbitrary: i j)
  case (Cons x xs)
  show ?case
  proof (cases i)
    case 0
    with Cons.prems obtain k where "j = Suc k" by (cases j) auto
    with 0 Cons.prems count_if_pos [of k xs P] show ?thesis by auto
  next
    case (Suc m)
    show ?thesis
    proof (cases j)
      case 0
      with Suc Cons.prems count_if_pos [of m xs P] show ?thesis by auto
    next
      case (Suc k)
      with \<open>i = Suc m\<close> Cons.prems Cons.IH [of m k] show ?thesis by simp
    qed
  qed
qed simp

lemma count_if_add:
  "(\<And>x. \<not> (P x \<and> Q x)) \<Longrightarrow> count_if (\<lambda>x. P x \<or> Q x) xs = count_if P xs + count_if Q xs"
  by (induction xs) auto

lemma count_if_le_length: "count_if P xs \<le> int (length xs)"
  by (simp add: count_if_def)

section \<open>Small numbers as words\<close>

lemma unat_of_nat_small: "n < 2 ^ LENGTH('a) \<Longrightarrow> unat (of_nat n :: 'a::len word) = n"
  by (simp add: unat_of_nat)

section \<open>Residues in a window\<close>

text \<open>Two indices of a window no longer than the ring fall into different slots.\<close>

lemma mod_window_inj:
  fixes a b n :: int
  assumes "a mod n = b mod n" and "\<bar>a - b\<bar> < n"
  shows "a = b"
proof (rule ccontr)
  assume "a \<noteq> b"
  moreover from assms(1) have "n dvd a - b"
    by (simp add: mod_eq_dvd_iff)
  ultimately have "\<bar>n\<bar> \<le> \<bar>a - b\<bar>"
    by (intro dvd_imp_le_int) auto
  with assms(2) show False by simp
qed

text \<open>An array filled from the front: writing the next element.\<close>

lemma fill_next:
  assumes "k < n"
  shows "(map f [0..<k] @ replicate (n - k) z)[k := f k] = map f [0..<Suc k] @ replicate (n - Suc k) z"
proof -
  have "replicate (n - k) z = z # replicate (n - Suc k) z"
    using assms by (simp add: Suc_diff_Suc flip: replicate_Suc)
  then show ?thesis by (simp add: list_update_append)
qed

end
