(* ===== verification/Posix.thy ===== *)
theory Posix
  imports Prelude
begin

text \<open>
  The POSIX interfaces the programs use, as far as they use them: \<^verbatim>\<open>timespec\<close> values and
  their order, counting semaphores, and the scheduling policies.
\<close>

section \<open>Time\<close>

datatype timespec = Timespec (tv_sec: int) (tv_nsec: int)

instantiation timespec :: linorder
begin

definition less_eq_timespec :: "timespec \<Rightarrow> timespec \<Rightarrow> bool" where
  "a \<le> b \<longleftrightarrow> tv_sec a < tv_sec b \<or> tv_sec a = tv_sec b \<and> tv_nsec a \<le> tv_nsec b"

definition less_timespec :: "timespec \<Rightarrow> timespec \<Rightarrow> bool" where
  "a < b \<longleftrightarrow> tv_sec a < tv_sec b \<or> tv_sec a = tv_sec b \<and> tv_nsec a < tv_nsec b"

instance
  by standard
    (auto simp: less_eq_timespec_def less_timespec_def timespec.expand)

end

text \<open>
  \<^verbatim>\<open>WAIT_TIME\<close> is one second in every component that waits with a deadline;
  \<^verbatim>\<open>get_expire_time\<close> adds it to the current time.
\<close>

definition WAIT_TIME :: int where "WAIT_TIME = 1"

definition get_expire_time :: "timespec \<Rightarrow> timespec" where
  "get_expire_time now = Timespec (tv_sec now + WAIT_TIME) (tv_nsec now)"

lemma get_expire_time_later: "now < get_expire_time now"
  by (simp add: get_expire_time_def less_timespec_def WAIT_TIME_def)

section \<open>Semaphores\<close>

text \<open>
  A semaphore is its value. \<^verbatim>\<open>sem_wait\<close> and \<^verbatim>\<open>sem_timedwait\<close> take a unit when there is one
  and block otherwise; a timed wait that cannot take a unit before its deadline fails.
\<close>

type_synonym sem_t = nat

definition sem_take :: "sem_t \<Rightarrow> sem_t option" where
  "sem_take s = (if 0 < s then Some (s - 1) else None)"

definition sem_post :: "sem_t \<Rightarrow> sem_t" where
  "sem_post s = s + 1"

lemma sem_take_Some [simp]: "sem_take s = Some s' \<longleftrightarrow> 0 < s \<and> s' = s - 1"
  by (auto simp: sem_take_def)

lemma sem_take_None [simp]: "sem_take s = None \<longleftrightarrow> s = 0"
  by (simp add: sem_take_def)

lemma sem_take_0 [simp]: "sem_take 0 = None"
  by (simp add: sem_take_def)

lemma sem_take_Suc [simp]: "sem_take (Suc s) = Some s"
  by (simp add: sem_take_def)

section \<open>Scheduling policies\<close>

datatype policy = SCHED_OTHER | SCHED_FIFO | SCHED_RR

end
