(* ===== verification/Fifo_Channel.thy ===== *)
theory Fifo_Channel
  imports Prelude
begin

text \<open>
  The interface between the threads and what connects them. Producers call \<^verbatim>\<open>put\<close> and
  consumers call \<^verbatim>\<open>get\<close>; the ring of Chapter 12, the ring in shared memory and the kernel's
  message queue of Chapter 14 all promise a bounded first-in first-out buffer. The abstract
  buffer is a list with a capacity (\<open>fifo_step\<close>); the locale states the promises, and what
  follows from them for any sequence of calls is proved here once.
\<close>

datatype 'a op = Put 'a | Get
datatype 'a obs = Put_done bool | Got "'a option"

fun fifo_step :: "nat \<Rightarrow> 'a op \<Rightarrow> 'a list \<Rightarrow> 'a obs \<times> 'a list" where
  "fifo_step n (Put x) xs =
     (if length xs < n then (Put_done True, xs @ [x]) else (Put_done False, xs))"
| "fifo_step n Get [] = (Got None, [])"
| "fifo_step n Get (x # xs) = (Got (Some x), xs)"

fun fifo_run :: "nat \<Rightarrow> 'a op list \<Rightarrow> 'a list \<Rightarrow> 'a obs list \<times> 'a list" where
  "fifo_run n [] xs = ([], xs)"
| "fifo_run n (c # cs) xs =
     (let (o1, xs1) = fifo_step n c xs; (os, ys) = fifo_run n cs xs1 in (o1 # os, ys))"

definition call :: "('a \<Rightarrow> 'q \<Rightarrow> (bool \<times> 'q) result) \<Rightarrow> ('q \<Rightarrow> ('a option \<times> 'q) result)
    \<Rightarrow> 'a op \<Rightarrow> 'q \<Rightarrow> ('a obs \<times> 'q) result" where
  "call put get c q =
     (case c of
        Put x \<Rightarrow> bind_result (put x q) (\<lambda>(b, q'). Inr (Put_done b, q'))
      | Get \<Rightarrow> bind_result (get q) (\<lambda>(r, q'). Inr (Got r, q')))"

fun calls :: "('a \<Rightarrow> 'q \<Rightarrow> (bool \<times> 'q) result) \<Rightarrow> ('q \<Rightarrow> ('a option \<times> 'q) result)
    \<Rightarrow> 'a op list \<Rightarrow> 'q \<Rightarrow> ('a obs list \<times> 'q) result" where
  "calls put get [] q = Inr ([], q)"
| "calls put get (c # cs) q =
     bind_result (call put get c q) (\<lambda>(o1, q1).
     bind_result (calls put get cs q1) (\<lambda>(os, q2). Inr (o1 # os, q2)))"

fun is_put :: "'a op \<Rightarrow> bool" where
  "is_put (Put x) = True"
| "is_put Get = False"

text \<open>The elements that a channel can carry: every call that puts one puts a valid one.\<close>

fun puts_valid :: "('a \<Rightarrow> bool) \<Rightarrow> 'a op \<Rightarrow> bool" where
  "puts_valid valid (Put x) = valid x"
| "puts_valid valid Get = True"

locale fifo_channel =
  fixes put :: "'a \<Rightarrow> 'q \<Rightarrow> (bool \<times> 'q) result"
    and get :: "'q \<Rightarrow> ('a option \<times> 'q) result"
    and stored :: "'q \<Rightarrow> 'a list"
    and cap :: "'q \<Rightarrow> nat"
    and budget :: "'q \<Rightarrow> nat"
    and wf :: "'q \<Rightarrow> bool"
    and valid :: "'a \<Rightarrow> bool"
  assumes put_room:
      "wf q \<Longrightarrow> valid x \<Longrightarrow> length (stored q) < cap q \<Longrightarrow> 0 < budget q \<Longrightarrow>
       \<exists>q'. put x q = Inr (True, q') \<and> wf q' \<and> stored q' = stored q @ [x] \<and> cap q' = cap q
            \<and> budget q \<le> Suc (budget q')"
    and put_full: "wf q \<Longrightarrow> length (stored q) = cap q \<Longrightarrow> put x q = Inr (False, q)"
    and get_some:
      "wf q \<Longrightarrow> stored q = y # ys \<Longrightarrow>
       \<exists>q'. get q = Inr (Some y, q') \<and> wf q' \<and> stored q' = ys \<and> cap q' = cap q
            \<and> budget q \<le> budget q'"
    and get_none: "wf q \<Longrightarrow> stored q = [] \<Longrightarrow> get q = Inr (None, q)"
    and stored_bounded: "wf q \<Longrightarrow> length (stored q) \<le> cap q"
begin

text \<open>A call ends, with the element stored or refused, or with the first element if there is one.\<close>

lemma put_outcome:
  assumes "wf q" and "0 < budget q" and "valid x"
  shows "\<exists>ok q'. put x q = Inr (ok, q') \<and> wf q' \<and> budget q \<le> Suc (budget q') \<and> cap q' = cap q
     \<and> stored q' = stored q @ (if ok then [x] else [])"
proof (cases "length (stored q) < cap q")
  case True
  from put_room [OF assms(1) assms(3) True assms(2)] show ?thesis by auto
next
  case False
  with stored_bounded [OF assms(1)] have "length (stored q) = cap q" by simp
  from put_full [OF assms(1) this, of x] assms(1) show ?thesis by auto
qed

lemma get_outcome:
  assumes "wf q"
  shows "\<exists>r q'. get q = Inr (r, q') \<and> wf q' \<and> budget q \<le> budget q' \<and> cap q' = cap q
     \<and> (case r of None \<Rightarrow> [] | Some x \<Rightarrow> [x]) @ stored q' = stored q"
proof (cases "stored q")
  case Nil
  from get_none [OF assms Nil] assms Nil show ?thesis by auto
next
  case (Cons y ys)
  from get_some [OF assms Cons] Cons show ?thesis by auto
qed

lemma call_refines:
  assumes wf: "wf q" and room: "0 < budget q" and ok: "puts_valid valid c"
  shows "\<exists>q'. call put get c q = Inr (fst (fifo_step (cap q) c (stored q)), q')
              \<and> stored q' = snd (fifo_step (cap q) c (stored q)) \<and> wf q' \<and> cap q' = cap q
              \<and> budget q \<le> budget q' + (if is_put c then 1 else 0)"
proof (cases c)
  case (Put x)
  show ?thesis
  proof (cases "length (stored q) < cap q")
    case True
    have "valid x" using ok Put by simp
    from put_room [OF wf this True room] show ?thesis
      using Put True by (auto simp: call_def)
  next
    case False
    with stored_bounded [OF wf] have "length (stored q) = cap q" by simp
    from put_full [OF wf this, of x] show ?thesis
      using Put False wf by (auto simp: call_def)
  qed
next
  case Get
  show ?thesis
  proof (cases "stored q")
    case Nil
    from get_none [OF wf Nil] show ?thesis
      using Get Nil wf by (auto simp: call_def)
  next
    case (Cons y ys)
    from get_some [OF wf Cons] show ?thesis
      using Get Cons by (auto simp: call_def)
  qed
qed

text \<open>Any sequence of calls shows what the abstract buffer shows, and ends in its contents.\<close>

lemma calls_refine:
  "wf q \<Longrightarrow> length (filter is_put cs) < budget q \<Longrightarrow> list_all (puts_valid valid) cs \<Longrightarrow>
   \<exists>q'. calls put get cs q = Inr (fst (fifo_run (cap q) cs (stored q)), q')
        \<and> stored q' = snd (fifo_run (cap q) cs (stored q)) \<and> wf q' \<and> cap q' = cap q"
proof (induction cs arbitrary: q)
  case Nil
  then show ?case by simp
next
  case (Cons c cs)
  from Cons.prems have "0 < budget q" and c: "puts_valid valid c" and cs: "list_all (puts_valid valid) cs"
    by simp_all
  from call_refines [OF Cons.prems(1) this(1) c] obtain q1 where
    q1: "call put get c q = Inr (fst (fifo_step (cap q) c (stored q)), q1)"
      "stored q1 = snd (fifo_step (cap q) c (stored q))" "wf q1" "cap q1 = cap q"
      "budget q \<le> budget q1 + (if is_put c then 1 else 0)"
    by blast
  from Cons.prems(2) q1(5) have "length (filter is_put cs) < budget q1"
    by (auto split: if_splits)
  from Cons.IH [OF q1(3) this cs] q1 show ?case
    by (auto simp: split_def Let_def)
qed

end

section \<open>Facts on the abstract buffer\<close>

fun accepted :: "'a op list \<Rightarrow> 'a obs list \<Rightarrow> 'a list" where
  "accepted (Put x # cs) (Put_done True # os) = x # accepted cs os"
| "accepted (c # cs) (o1 # os) = accepted cs os"
| "accepted _ _ = []"

fun delivered :: "'a obs list \<Rightarrow> 'a list" where
  "delivered (Got (Some x) # os) = x # delivered os"
| "delivered (o1 # os) = delivered os"
| "delivered [] = []"

text \<open>
  What was stored, followed by what the buffer accepted, is what it delivered, followed by
  what it still stores.
\<close>

lemma fifo_run_conserves:
  "xs @ accepted cs (fst (fifo_run n cs xs)) =
   delivered (fst (fifo_run n cs xs)) @ snd (fifo_run n cs xs)"
proof (induction cs arbitrary: xs)
  case Nil
  then show ?case by simp
next
  case (Cons c cs)
  show ?case
  proof (cases c)
    case (Put x)
    with Cons.IH [of "xs @ [x]"] Cons.IH [of xs] show ?thesis
      by (auto simp: split_def Let_def)
  next
    case Get
    with Cons.IH [of "tl xs"] show ?thesis
      by (cases xs) (auto simp: split_def Let_def)
  qed
qed

lemma fifo_run_bounded:
  "length xs \<le> n \<Longrightarrow> length (snd (fifo_run n cs xs)) \<le> n"
proof (induction cs arbitrary: xs)
  case (Cons c cs)
  have "length (snd (fifo_step n c xs)) \<le> n"
    using Cons.prems by (cases c; cases xs) auto
  with Cons.IH show ?case
    by (simp add: split_def Let_def)
qed simp

text \<open>One more call at the end of a run.\<close>

lemma fifo_run_snoc:
  "fifo_run n (cs @ [c]) xs =
     (let (os, ys) = fifo_run n cs xs; (o1, zs) = fifo_step n c ys in (os @ [o1], zs))"
  by (induction cs arbitrary: xs) (simp_all add: split_def Let_def)

lemma length_fifo_run [simp]: "length (fst (fifo_run n cs xs)) = length cs"
  by (induction cs arbitrary: xs) (simp_all add: split_def Let_def)

lemma accepted_Cons: "accepted (c # cs) (o1 # os) = accepted [c] [o1] @ accepted cs os"
proof (cases o1)
  case (Put_done b)
  then show ?thesis by (cases c; cases b) simp_all
qed (cases c; simp)

lemma accepted_snoc:
  "length cs = length os \<Longrightarrow> accepted (cs @ [c]) (os @ [o1]) = accepted cs os @ accepted [c] [o1]"
proof (induction cs os rule: list_induct2)
  case (Cons x xs y ys)
  then show ?case
    by (simp add: accepted_Cons [of x "xs @ [c]"] accepted_Cons [of x xs])
qed simp

lemma delivered_snoc: "delivered (os @ [o1]) = delivered os @ delivered [o1]"
  by (induction os rule: delivered.induct) simp_all

end
