(* ===== verification/Bounded_Queue.thy ===== *)
theory Bounded_Queue
  imports Posix Fifo_Channel
begin

text \<open>
  \<^verbatim>\<open>Queue<T>\<close> of Chapter 12: a ring of \<^verbatim>\<open>m_size\<close> slots with a binary semaphore \<^verbatim>\<open>m_lock\<close>
  and two counting semaphores, \<^verbatim>\<open>m_push_sem\<close> for the free slots and \<^verbatim>\<open>m_pop_sem\<close> for the
  filled ones. The critical section covers the choice of the slot and the counters; the
  element itself is copied after \<^verbatim>\<open>m_lock\<close> is released. Each atomic action of \<^verbatim>\<open>push\<close> and
  \<^verbatim>\<open>pop\<close> is a definition of its own, so that the same definitions build both the
  sequential operations (here) and the interleaved ones (\<^verbatim>\<open>Queue_Threads\<close>).
\<close>

record 'a queue =
  m_arr :: "'a list"
  m_id :: int
  m_front :: int
  m_cur_count :: int
  m_size :: int
  m_pushed_count :: int
  m_popped_count :: int
  m_lock :: sem_t
  m_pop_sem :: sem_t
  m_push_sem :: sem_t

text \<open>
  The constructor. \<^verbatim>\<open>new T[size]\<close> raises for a negative size; its elements have whatever
  values the memory had, here given by \<open>junk\<close>.
\<close>

definition new_queue :: "(nat \<Rightarrow> 'a) \<Rightarrow> int \<Rightarrow> int \<Rightarrow> 'a queue result" where
  "new_queue junk sz qid =
     (if sz < 0 then Inl Bad_alloc
      else Inr \<lparr>m_arr = map junk [0..<nat sz], m_id = qid, m_front = 0, m_cur_count = 0,
                m_size = sz, m_pushed_count = 0, m_popped_count = 0,
                m_lock = 1, m_pop_sem = 0, m_push_sem = nat sz\<rparr>)"

section \<open>The atomic actions\<close>

definition lock_take :: "'a queue \<Rightarrow> 'a queue option" where
  "lock_take q = map_option (\<lambda>s. q\<lparr>m_lock := s\<rparr>) (sem_take (m_lock q))"

definition lock_release :: "'a queue \<Rightarrow> 'a queue" where
  "lock_release q = q\<lparr>m_lock := sem_post (m_lock q)\<rparr>"

definition push_take :: "'a queue \<Rightarrow> 'a queue option" where
  "push_take q = map_option (\<lambda>s. q\<lparr>m_push_sem := s\<rparr>) (sem_take (m_push_sem q))"

text \<open>The critical section of \<^verbatim>\<open>push\<close>: choose the slot, count the element.\<close>

definition push_reserve :: "'a queue \<Rightarrow> (int \<times> 'a queue) result" where
  "push_reserve q =
     bind_result (int_add (m_front q) (m_cur_count q)) (\<lambda>s.
     bind_result (int_rem s (m_size q)) (\<lambda>slot.
     bind_result (int_add (m_cur_count q) 1) (\<lambda>c.
     bind_result (int_add (m_pushed_count q) 1) (\<lambda>p.
       Inr (slot, q\<lparr>m_cur_count := c, m_pushed_count := p\<rparr>)))))"

definition push_write :: "int \<Rightarrow> 'a \<Rightarrow> 'a queue \<Rightarrow> 'a queue result" where
  "push_write slot t q = bind_result (array_set (m_arr q) slot t) (\<lambda>a. Inr (q\<lparr>m_arr := a\<rparr>))"

definition push_publish :: "'a queue \<Rightarrow> 'a queue" where
  "push_publish q = q\<lparr>m_pop_sem := sem_post (m_pop_sem q)\<rparr>"

definition pop_take :: "'a queue \<Rightarrow> 'a queue option" where
  "pop_take q = map_option (\<lambda>s. q\<lparr>m_pop_sem := s\<rparr>) (sem_take (m_pop_sem q))"

text \<open>The critical section of \<^verbatim>\<open>pop\<close>.\<close>

definition pop_reserve :: "'a queue \<Rightarrow> (int \<times> 'a queue) result" where
  "pop_reserve q =
     bind_result (int_add (m_front q) 1) (\<lambda>f.
     bind_result (int_rem f (m_size q)) (\<lambda>front.
     bind_result (int_sub (m_cur_count q) 1) (\<lambda>c.
     bind_result (int_add (m_popped_count q) 1) (\<lambda>p.
       Inr (m_front q, q\<lparr>m_front := front, m_cur_count := c, m_popped_count := p\<rparr>)))))"

definition pop_read :: "int \<Rightarrow> 'a queue \<Rightarrow> 'a result" where
  "pop_read slot q = array_get (m_arr q) slot"

definition pop_free :: "'a queue \<Rightarrow> 'a queue" where
  "pop_free q = q\<lparr>m_push_sem := sem_post (m_push_sem q)\<rparr>"

lemmas queue_action_defs =
  lock_take_def lock_release_def push_take_def push_reserve_def push_write_def push_publish_def
  pop_take_def pop_reserve_def pop_read_def pop_free_def sem_post_def

section \<open>The operations, run without interruption\<close>

text \<open>
  \<^verbatim>\<open>push\<close> and \<^verbatim>\<open>pop\<close> by one thread while no other thread is inside the queue. The timed wait
  on a semaphore with no unit then fails at its deadline, as nobody posts it; the wait for
  \<^verbatim>\<open>m_lock\<close> would block for ever if the lock were taken.
\<close>

definition push :: "'a \<Rightarrow> 'a queue \<Rightarrow> (bool \<times> 'a queue) result" where
  "push t q =
     (case push_take q of
        None \<Rightarrow> Inr (False, q)
      | Some q1 \<Rightarrow>
          (case lock_take q1 of
             None \<Rightarrow> Inl Blocked_forever
           | Some q2 \<Rightarrow>
               bind_result (push_reserve q2) (\<lambda>(slot, q3).
               bind_result (push_write slot t (lock_release q3)) (\<lambda>q4.
                 Inr (True, push_publish q4)))))"

definition pop :: "'a queue \<Rightarrow> ('a option \<times> 'a queue) result" where
  "pop q =
     (case pop_take q of
        None \<Rightarrow> Inr (None, q)
      | Some q1 \<Rightarrow>
          (case lock_take q1 of
             None \<Rightarrow> Inl Blocked_forever
           | Some q2 \<Rightarrow>
               bind_result (pop_reserve q2) (\<lambda>(slot, q3).
               bind_result (pop_read slot (lock_release q3)) (\<lambda>t.
                 Inr (Some t, pop_free (lock_release q3))))))"

text \<open>The destructor's message: \<^verbatim>\<open>Queue id: Pushed p items and popped q items\<close>.\<close>

definition queue_report :: "'a queue \<Rightarrow> int \<times> int \<times> int" where
  "queue_report q = (m_id q, m_pushed_count q, m_popped_count q)"

section \<open>Well-formed queues and their contents\<close>

text \<open>
  \<open>MAX_QUEUE_SIZE\<close> is the largest size for which \<^verbatim>\<open>m_front + m_cur_count\<close> cannot overflow.
\<close>

definition MAX_QUEUE_SIZE :: int where "MAX_QUEUE_SIZE = 1073741824"

definition ring_wf :: "'a queue \<Rightarrow> bool" where
  "ring_wf q \<longleftrightarrow>
     0 < m_size q \<and> m_size q \<le> MAX_QUEUE_SIZE \<and> int (length (m_arr q)) = m_size q \<and>
     0 \<le> m_front q \<and> m_front q < m_size q \<and>
     0 \<le> m_cur_count q \<and> m_cur_count q \<le> m_size q \<and>
     0 \<le> m_popped_count q \<and> m_popped_count q \<le> m_pushed_count q \<and>
     m_pushed_count q \<le> INT_MAX \<and>
     m_cur_count q = m_pushed_count q - m_popped_count q"

definition queue_wf :: "'a queue \<Rightarrow> bool" where
  "queue_wf q \<longleftrightarrow>
     ring_wf q \<and> m_lock q = 1 \<and>
     int (m_pop_sem q) = m_cur_count q \<and> int (m_push_sem q) = m_size q - m_cur_count q"

definition contents :: "'a queue \<Rightarrow> 'a list" where
  "contents q =
     map (\<lambda>k. m_arr q ! nat ((m_front q + int k) mod m_size q)) [0..<nat (m_cur_count q)]"

definition capacity :: "'a queue \<Rightarrow> nat" where
  "capacity q = nat (m_size q)"

definition pushes_left :: "'a queue \<Rightarrow> nat" where
  "pushes_left q = nat (INT_MAX - m_pushed_count q)"

lemma length_contents [simp]: "length (contents q) = nat (m_cur_count q)"
  by (simp add: contents_def)

lemma ring_bounds:
  "ring_wf q \<Longrightarrow> 0 < m_size q" "ring_wf q \<Longrightarrow> 0 \<le> m_front q" "ring_wf q \<Longrightarrow> m_front q < m_size q"
  "ring_wf q \<Longrightarrow> 0 \<le> m_cur_count q" "ring_wf q \<Longrightarrow> m_cur_count q \<le> m_size q"
  "ring_wf q \<Longrightarrow> int (length (m_arr q)) = m_size q"
  by (simp_all add: ring_wf_def)

text \<open>Both critical sections run without overflow on a ring that is well formed.\<close>

lemma push_reserve_eq:
  assumes "ring_wf q" and "m_cur_count q < m_size q" and "m_pushed_count q < INT_MAX"
  shows "push_reserve q =
    Inr ((m_front q + m_cur_count q) mod m_size q,
         q\<lparr>m_cur_count := m_cur_count q + 1, m_pushed_count := m_pushed_count q + 1\<rparr>)"
  using assms
  by (simp add: push_reserve_def ring_wf_def int_add_ok int_rem_nonneg MAX_QUEUE_SIZE_def
      INT_MAX_def INT_MIN_def)

lemma pop_reserve_eq:
  assumes "ring_wf q" and "0 < m_cur_count q"
  shows "pop_reserve q =
    Inr (m_front q,
         q\<lparr>m_front := (m_front q + 1) mod m_size q, m_cur_count := m_cur_count q - 1,
           m_popped_count := m_popped_count q + 1\<rparr>)"
  using assms
  by (simp add: pop_reserve_def ring_wf_def int_add_ok int_sub_ok int_rem_nonneg
      MAX_QUEUE_SIZE_def INT_MAX_def INT_MIN_def)

lemma new_queue_wf:
  assumes "0 < sz" and "sz \<le> MAX_QUEUE_SIZE"
  shows "\<exists>q. new_queue junk sz qid = Inr q \<and> queue_wf q \<and> contents q = []
             \<and> capacity q = nat sz \<and> pushes_left q = nat INT_MAX"
  using assms
  by (simp add: new_queue_def queue_wf_def ring_wf_def contents_def capacity_def
      pushes_left_def INT_MAX_def)

section \<open>The bounded FIFO that a queue implements\<close>

lemma push_full:
  assumes "queue_wf q" and "length (contents q) = capacity q"
  shows "push t q = Inr (False, q)"
proof -
  have "m_push_sem q = 0"
    using assms unfolding queue_wf_def ring_wf_def capacity_def length_contents by linarith
  then show ?thesis by (simp add: push_def push_take_def)
qed

lemma pop_empty:
  assumes "queue_wf q" and "contents q = []"
  shows "pop q = Inr (None, q)"
proof -
  have "m_pop_sem q = 0"
    using assms by (simp add: queue_wf_def ring_wf_def contents_def)
  then show ?thesis by (simp add: pop_def pop_take_def)
qed

text \<open>The element is written behind the last one, so the earlier slots keep their values.\<close>

lemma contents_write_behind:
  assumes wf: "ring_wf q" and room: "m_cur_count q < m_size q"
  shows "contents (q\<lparr>m_cur_count := m_cur_count q + 1,
            m_arr := (m_arr q)[nat ((m_front q + m_cur_count q) mod m_size q) := t]\<rparr>)
         = contents q @ [t]"
proof -
  let ?n = "m_size q" and ?f = "m_front q" and ?c = "m_cur_count q"
  let ?slot = "nat ((?f + ?c) mod ?n)"
  from wf have b: "0 < ?n" "0 \<le> ?c" "int (length (m_arr q)) = ?n"
    by (simp_all add: ring_bounds)
  have slot: "?slot < length (m_arr q)"
    using b by (simp add: nat_less_iff)
  have other: "(m_arr q)[?slot := t] ! nat ((?f + int k) mod ?n) = m_arr q ! nat ((?f + int k) mod ?n)"
    if "k < nat ?c" for k
  proof (rule nth_list_update_neq)
    show "?slot \<noteq> nat ((?f + int k) mod ?n)"
    proof
      assume "?slot = nat ((?f + int k) mod ?n)"
      then have "(?f + ?c) mod ?n = (?f + int k) mod ?n"
        using b by (simp add: eq_nat_nat_iff)
      then have "?f + ?c = ?f + int k"
        by (rule mod_window_inj) (use that b room in simp)
      with that show False by simp
    qed
  qed
  have "nat (?c + 1) = Suc (nat ?c)"
    using b by simp
  then show ?thesis
    using other slot b by (auto simp: contents_def)
qed

lemma contents_drop_front:
  assumes wf: "ring_wf q" and some: "0 < m_cur_count q"
  shows "contents q = m_arr q ! nat (m_front q)
           # contents (q\<lparr>m_front := (m_front q + 1) mod m_size q, m_cur_count := m_cur_count q - 1\<rparr>)"
proof -
  from some have c: "nat (m_cur_count q) = Suc (nat (m_cur_count q - 1))"
    by simp
  have next_slot: "((m_front q + 1) mod m_size q + int k) mod m_size q
      = (m_front q + int (Suc k)) mod m_size q" for k
    by (simp add: mod_simps ac_simps)
  have "m_front q mod m_size q = m_front q"
    using wf by (simp add: ring_wf_def)
  then show ?thesis
    unfolding contents_def c by (simp add: upt_conv_Cons map_Suc_upt [symmetric] next_slot del: upt_Suc)
qed

text \<open>What \<^verbatim>\<open>push\<close> and \<^verbatim>\<open>pop\<close> return and leave behind when they do not time out.\<close>

lemma push_room:
  assumes wf: "queue_wf q" and room: "length (contents q) < capacity q" and left: "0 < pushes_left q"
  shows "\<exists>q'. push t q = Inr (True, q') \<and> queue_wf q' \<and> contents q' = contents q @ [t]
              \<and> capacity q' = capacity q \<and> pushes_left q \<le> Suc (pushes_left q')"
proof -
  let ?slot = "(m_front q + m_cur_count q) mod m_size q"
  let ?q' = "q\<lparr>m_cur_count := m_cur_count q + 1, m_pushed_count := m_pushed_count q + 1,
      m_arr := (m_arr q)[nat ?slot := t], m_pop_sem := m_pop_sem q + 1, m_push_sem := m_push_sem q - 1\<rparr>"
  from wf have ring: "ring_wf q" and lock: "m_lock q = 1"
    by (simp_all add: queue_wf_def)
  have c: "m_cur_count q < m_size q" "m_pushed_count q < INT_MAX" "0 < m_push_sem q"
    using wf room left by (auto simp: queue_wf_def ring_wf_def capacity_def pushes_left_def)
  have slot: "0 \<le> ?slot" "?slot < int (length (m_arr q))"
    using ring by (simp_all add: ring_bounds)
  have "ring_wf (q\<lparr>m_push_sem := m_push_sem q - 1, m_lock := 0\<rparr>)"
    using ring by (simp add: ring_wf_def)
  from push_reserve_eq [OF this] have "push t q = Inr (True, ?q')"
    using c lock slot
    by (simp add: push_def push_take_def lock_take_def sem_take_def lock_release_def sem_post_def
        push_write_def push_publish_def array_set_ok)
  moreover have "queue_wf ?q'"
    using wf c by (simp add: queue_wf_def ring_wf_def)
  moreover have "contents ?q' = contents q @ [t]"
    using contents_write_behind [OF ring c(1), of t] by (simp add: contents_def)
  ultimately show ?thesis
    by (auto simp: capacity_def pushes_left_def)
qed

lemma pop_some:
  assumes wf: "queue_wf q" and some: "contents q = t # ts"
  shows "\<exists>q'. pop q = Inr (Some t, q') \<and> queue_wf q' \<and> contents q' = ts
              \<and> capacity q' = capacity q \<and> pushes_left q \<le> pushes_left q'"
proof -
  let ?q' = "q\<lparr>m_front := (m_front q + 1) mod m_size q, m_cur_count := m_cur_count q - 1,
      m_popped_count := m_popped_count q + 1, m_pop_sem := m_pop_sem q - 1, m_push_sem := m_push_sem q + 1\<rparr>"
  from wf have ring: "ring_wf q" and lock: "m_lock q = 1"
    by (simp_all add: queue_wf_def)
  from some have "0 < length (contents q)" by simp
  then have c: "0 < m_cur_count q" "0 < m_pop_sem q"
    using wf by (simp_all add: queue_wf_def)
  have split: "contents q = m_arr q ! nat (m_front q) # contents ?q'"
    using contents_drop_front [OF ring c(1)] by (simp add: contents_def)
  have "ring_wf (q\<lparr>m_pop_sem := m_pop_sem q - 1, m_lock := 0\<rparr>)"
    using ring by (simp add: ring_wf_def)
  from pop_reserve_eq [OF this] have "pop q = Inr (Some (m_arr q ! nat (m_front q)), ?q')"
    using c lock ring
    by (simp add: pop_def pop_take_def lock_take_def sem_take_def lock_release_def sem_post_def
        pop_read_def pop_free_def array_get_ok ring_bounds)
  moreover have "queue_wf ?q'"
    using wf c by (simp add: queue_wf_def ring_wf_def)
  ultimately show ?thesis
    using split some by (auto simp: capacity_def pushes_left_def)
qed

interpretation ring_q: fifo_channel push pop contents capacity pushes_left queue_wf "\<lambda>_. True"
proof unfold_locales
  show "queue_wf q \<Longrightarrow> length (contents q) \<le> capacity q" for q :: "'a queue"
    unfolding queue_wf_def ring_wf_def capacity_def length_contents by linarith
qed (rule push_room push_full pop_some pop_empty; assumption)+

text \<open>
  C11: Any sequence of pushes and pops, made one after the other on a queue freshly constructed with
  a positive size, returns exactly what a list of that capacity with append at the back and
  removal at the front returns, and leaves exactly its contents, as long as fewer than
  INT_MAX pushes are made.
\<close>

theorem queue_refines_fifo:
  assumes "0 < sz" and "sz \<le> MAX_QUEUE_SIZE"
    and "length (filter is_put cs) < nat INT_MAX"
  shows "\<exists>q0 q. new_queue junk sz qid = Inr q0 \<and>
           calls push pop cs q0 = Inr (fst (fifo_run (nat sz) cs []), q) \<and>
           contents q = snd (fifo_run (nat sz) cs [])"
proof -
  from new_queue_wf [OF assms(1,2), of junk qid] obtain q0 where
    q0: "new_queue junk sz qid = Inr q0" "queue_wf q0" "contents q0 = []"
    "capacity q0 = nat sz" "pushes_left q0 = nat INT_MAX"
    by blast
  have "list_all (puts_valid (\<lambda>_. True)) cs"
    unfolding list_all_iff by (auto intro: puts_valid.elims(3))
  with ring_q.calls_refine [OF q0(2), of cs] q0 assms(3) show ?thesis by auto
qed

theorem queue_refines_fifo_witness:
  "\<exists>q0 q. new_queue (\<lambda>_. 0 :: nat) 2 7 = Inr q0 \<and>
     calls push pop [Put 5, Put 6, Put 8, Get, Put 9, Get, Get, Get] q0
       = Inr ([Put_done True, Put_done True, Put_done False, Got (Some 5), Put_done True,
               Got (Some 6), Got (Some 9), Got None], q) \<and> contents q = []"
  using queue_refines_fifo [of 2 "[Put 5, Put 6, Put 8, Get, Put 9, Get, Get, Get]" "\<lambda>_. 0 :: nat" 7]
  by (simp add: MAX_QUEUE_SIZE_def INT_MAX_def numeral_2_eq_2)

end
