(* ===== verification/Queue_Threads.thy ===== *)
theory Queue_Threads
  imports Bounded_Queue
begin

text \<open>
  The queue as its threads use it: any number of producer threads call \<^verbatim>\<open>push\<close>, any number
  of consumer threads call \<^verbatim>\<open>pop\<close>, and their atomic actions interleave in any order. A
  thread is its program counter; a step is one action of one thread, a deadline that expires,
  or the clock moving on. Two histories are recorded beside the program's state: the elements
  in the order in which their pushes chose a slot, and the elements in the order in which pops
  copied them out.
\<close>

section \<open>Threads and their steps\<close>

datatype 'a pc =
    Idle
  | Push_wait 'a timespec
  | Push_lock 'a
  | Push_crit 'a
  | Push_unlock 'a int
  | Push_copy 'a int
  | Push_post
  | Pop_wait timespec
  | Pop_lock
  | Pop_crit
  | Pop_unlock int
  | Pop_copy int
  | Pop_post 'a
  | Faulted fault

record 'a sys =
  shared :: "'a queue"
  pcs :: "'a pc list"
  clock :: timespec
  entered :: "'a list"
  returned :: "'a list"

datatype 'a event =
    Begin_push nat 'a
  | Begin_pop nat
  | Run nat
  | Expire nat
  | Tick timespec

text \<open>
  One action of a thread inside \<^verbatim>\<open>push\<close> or \<^verbatim>\<open>pop\<close>: the new queue and the new program
  counter, or nothing when the thread has to wait.
\<close>

fun thread_run :: "'a queue \<Rightarrow> 'a pc \<Rightarrow> ('a queue \<times> 'a pc) option" where
  "thread_run q (Push_wait t d) = map_option (\<lambda>q'. (q', Push_lock t)) (push_take q)"
| "thread_run q (Push_lock t) = map_option (\<lambda>q'. (q', Push_crit t)) (lock_take q)"
| "thread_run q (Push_crit t) =
     Some (case push_reserve q of
             Inl f \<Rightarrow> (q, Faulted f)
           | Inr (slot, q') \<Rightarrow> (q', Push_unlock t slot))"
| "thread_run q (Push_unlock t slot) = Some (lock_release q, Push_copy t slot)"
| "thread_run q (Push_copy t slot) =
     Some (case push_write slot t q of Inl f \<Rightarrow> (q, Faulted f) | Inr q' \<Rightarrow> (q', Push_post))"
| "thread_run q Push_post = Some (push_publish q, Idle)"
| "thread_run q (Pop_wait d) = map_option (\<lambda>q'. (q', Pop_lock)) (pop_take q)"
| "thread_run q Pop_lock = map_option (\<lambda>q'. (q', Pop_crit)) (lock_take q)"
| "thread_run q Pop_crit =
     Some (case pop_reserve q of
             Inl f \<Rightarrow> (q, Faulted f)
           | Inr (slot, q') \<Rightarrow> (q', Pop_unlock slot))"
| "thread_run q (Pop_unlock slot) = Some (lock_release q, Pop_copy slot)"
| "thread_run q (Pop_copy slot) =
     Some (case pop_read slot q of Inl f \<Rightarrow> (q, Faulted f) | Inr t \<Rightarrow> (q, Pop_post t))"
| "thread_run q (Pop_post t) = Some (pop_free q, Idle)"
| "thread_run q Idle = None"
| "thread_run q (Faulted f) = None"

fun entering :: "'a pc \<Rightarrow> 'a pc \<Rightarrow> 'a list" where
  "entering (Push_crit t) (Push_unlock t' slot) = [t]"
| "entering _ _ = []"

fun leaving :: "'a pc \<Rightarrow> 'a pc \<Rightarrow> 'a list" where
  "leaving (Pop_copy slot) (Pop_post t) = [t]"
| "leaving _ _ = []"

text \<open>
  The steps of the system whose first \<open>np\<close> threads are producers and whose other threads are
  consumers. A timed wait expires only when its deadline has passed and the semaphore has no
  unit that could be taken at once.
\<close>

inductive sys_step :: "nat \<Rightarrow> 'a sys \<Rightarrow> 'a event \<Rightarrow> 'a sys \<Rightarrow> bool" for np :: nat where
  begin_push:
    "i < np \<Longrightarrow> i < length (pcs s) \<Longrightarrow> pcs s ! i = Idle \<Longrightarrow>
     sys_step np s (Begin_push i t)
       (s\<lparr>pcs := (pcs s)[i := Push_wait t (get_expire_time (clock s))]\<rparr>)"
| begin_pop:
    "np \<le> i \<Longrightarrow> i < length (pcs s) \<Longrightarrow> pcs s ! i = Idle \<Longrightarrow>
     sys_step np s (Begin_pop i) (s\<lparr>pcs := (pcs s)[i := Pop_wait (get_expire_time (clock s))]\<rparr>)"
| run:
    "i < length (pcs s) \<Longrightarrow> thread_run (shared s) (pcs s ! i) = Some (q', pc') \<Longrightarrow>
     sys_step np s (Run i)
       (s\<lparr>shared := q', pcs := (pcs s)[i := pc'],
          entered := entered s @ entering (pcs s ! i) pc',
          returned := returned s @ leaving (pcs s ! i) pc'\<rparr>)"
| expire_push:
    "i < length (pcs s) \<Longrightarrow> pcs s ! i = Push_wait t d \<Longrightarrow> d \<le> clock s \<Longrightarrow>
     m_push_sem (shared s) = 0 \<Longrightarrow> sys_step np s (Expire i) (s\<lparr>pcs := (pcs s)[i := Idle]\<rparr>)"
| expire_pop:
    "i < length (pcs s) \<Longrightarrow> pcs s ! i = Pop_wait d \<Longrightarrow> d \<le> clock s \<Longrightarrow>
     m_pop_sem (shared s) = 0 \<Longrightarrow> sys_step np s (Expire i) (s\<lparr>pcs := (pcs s)[i := Idle]\<rparr>)"
| tick:
    "clock s \<le> now \<Longrightarrow> sys_step np s (Tick now) (s\<lparr>clock := now\<rparr>)"

inductive_simps sys_step_run: "sys_step np s (Run i) s'"
inductive_simps sys_step_expire: "sys_step np s (Expire i) s'"

text \<open>The same steps as a function, to run a schedule.\<close>

definition exec_step :: "nat \<Rightarrow> 'a sys \<Rightarrow> 'a event \<Rightarrow> 'a sys option" where
  "exec_step np s e =
     (case e of
        Begin_push i t \<Rightarrow>
          if i < np \<and> i < length (pcs s) \<and> (case pcs s ! i of Idle \<Rightarrow> True | _ \<Rightarrow> False)
          then Some (s\<lparr>pcs := (pcs s)[i := Push_wait t (get_expire_time (clock s))]\<rparr>) else None
      | Begin_pop i \<Rightarrow>
          if np \<le> i \<and> i < length (pcs s) \<and> (case pcs s ! i of Idle \<Rightarrow> True | _ \<Rightarrow> False)
          then Some (s\<lparr>pcs := (pcs s)[i := Pop_wait (get_expire_time (clock s))]\<rparr>) else None
      | Run i \<Rightarrow>
          if i < length (pcs s) then
            (case thread_run (shared s) (pcs s ! i) of
               None \<Rightarrow> None
             | Some (q', pc') \<Rightarrow>
                 Some (s\<lparr>shared := q', pcs := (pcs s)[i := pc'],
                         entered := entered s @ entering (pcs s ! i) pc',
                         returned := returned s @ leaving (pcs s ! i) pc'\<rparr>))
          else None
      | Expire i \<Rightarrow>
          if i < length (pcs s) then
            (case pcs s ! i of
               Push_wait t d \<Rightarrow>
                 if d \<le> clock s \<and> m_push_sem (shared s) = 0
                 then Some (s\<lparr>pcs := (pcs s)[i := Idle]\<rparr>) else None
             | Pop_wait d \<Rightarrow>
                 if d \<le> clock s \<and> m_pop_sem (shared s) = 0
                 then Some (s\<lparr>pcs := (pcs s)[i := Idle]\<rparr>) else None
             | _ \<Rightarrow> None)
          else None
      | Tick now \<Rightarrow> if clock s \<le> now then Some (s\<lparr>clock := now\<rparr>) else None)"

lemma exec_step_iff: "exec_step np s e = Some s' \<longleftrightarrow> sys_step np s e s'"
proof
  assume "exec_step np s e = Some s'"
  then show "sys_step np s e s'"
    by (auto simp: exec_step_def sys_step_run sys_step_expire intro: begin_push begin_pop tick
        split: event.splits if_splits pc.splits option.splits)
next
  assume "sys_step np s e s'"
  then show "exec_step np s e = Some s'"
    by (cases rule: sys_step.cases) (simp_all add: exec_step_def)
qed

fun exec :: "nat \<Rightarrow> 'a sys \<Rightarrow> 'a event list \<Rightarrow> 'a sys option" where
  "exec np s [] = Some s"
| "exec np s (e # es) = (case exec_step np s e of None \<Rightarrow> None | Some s' \<Rightarrow> exec np s' es)"

text \<open>The system at its start: a new queue of \<open>sz\<close> slots, \<open>n\<close> threads, none in the queue.\<close>

definition start_sys :: "(nat \<Rightarrow> 'a) \<Rightarrow> int \<Rightarrow> nat \<Rightarrow> timespec \<Rightarrow> 'a sys result" where
  "start_sys junk sz n now =
     bind_result (new_queue junk sz 0) (\<lambda>q.
       Inr \<lparr>shared = q, pcs = replicate n Idle, clock = now, entered = [], returned = []\<rparr>)"

inductive reachable :: "nat \<Rightarrow> 'a sys \<Rightarrow> 'a sys \<Rightarrow> bool" for np :: nat and s0 :: "'a sys" where
  start: "reachable np s0 s0"
| step: "reachable np s0 s \<Longrightarrow> sys_step np s e s' \<Longrightarrow> reachable np s0 s'"

lemma exec_reachable: "exec np s es = Some s' \<Longrightarrow> reachable np s0 s \<Longrightarrow> reachable np s0 s'"
proof (induction es arbitrary: s)
  case (Cons e es)
  from Cons.prems(1) obtain s1 where s1: "exec_step np s e = Some s1" "exec np s1 es = Some s'"
    by (auto split: option.splits)
  from s1(1) have "sys_step np s e s1" by (simp only: exec_step_iff)
  with Cons.prems(2) have "reachable np s0 s1" by (rule reachable.step)
  with s1(2) show ?case by (rule Cons.IH)
qed simp

section \<open>Where the units of the semaphores are\<close>

fun has_lock :: "'a pc \<Rightarrow> bool" where
  "has_lock (Push_crit t) = True"
| "has_lock (Push_unlock t slot) = True"
| "has_lock Pop_crit = True"
| "has_lock (Pop_unlock slot) = True"
| "has_lock (Faulted f) = True"
| "has_lock _ = False"

text \<open>A push that took a unit but did not count its element yet, and one that did.\<close>

fun push_early :: "'a pc \<Rightarrow> bool" where
  "push_early (Push_lock t) = True"
| "push_early (Push_crit t) = True"
| "push_early (Faulted f) = True"
| "push_early _ = False"

fun push_late :: "'a pc \<Rightarrow> bool" where
  "push_late (Push_unlock t slot) = True"
| "push_late (Push_copy t slot) = True"
| "push_late Push_post = True"
| "push_late _ = False"

fun pop_early :: "'a pc \<Rightarrow> bool" where
  "pop_early Pop_lock = True"
| "pop_early Pop_crit = True"
| "pop_early _ = False"

fun pop_late :: "'a pc \<Rightarrow> bool" where
  "pop_late (Pop_unlock slot) = True"
| "pop_late (Pop_copy slot) = True"
| "pop_late (Pop_post t) = True"
| "pop_late _ = False"

text \<open>The slot a thread is about to copy to or from.\<close>

fun slot_of :: "'a pc \<Rightarrow> int option" where
  "slot_of (Push_unlock t slot) = Some slot"
| "slot_of (Push_copy t slot) = Some slot"
| "slot_of (Pop_unlock slot) = Some slot"
| "slot_of (Pop_copy slot) = Some slot"
| "slot_of _ = None"

definition slot_ok :: "int \<Rightarrow> 'a pc \<Rightarrow> bool" where
  "slot_ok n pc \<longleftrightarrow> (case slot_of pc of None \<Rightarrow> True | Some slot \<Rightarrow> 0 \<le> slot \<and> slot < n)"

definition fault_ok :: "int \<Rightarrow> 'a pc \<Rightarrow> bool" where
  "fault_ok pushed pc \<longleftrightarrow>
     (case pc of Faulted f \<Rightarrow> f = Signed_overflow \<and> pushed = INT_MAX | _ \<Rightarrow> True)"

text \<open>
  The invariant of the system. Every unit of \<^verbatim>\<open>m_push_sem\<close> and \<^verbatim>\<open>m_pop_sem\<close> is in its
  semaphore or with one thread, the lock is free or with one thread, and the counters count
  the elements that have a slot. It says nothing about the elements themselves.
\<close>

definition sys_inv :: "int \<Rightarrow> 'a sys \<Rightarrow> bool" where
  "sys_inv sz s \<longleftrightarrow>
     (let q = shared s in
        ring_wf q \<and> m_size q = sz \<and>
        int (m_lock q) + count_if has_lock (pcs s) = 1 \<and>
        m_cur_count q = count_if push_late (pcs s) + int (m_pop_sem q) + count_if pop_early (pcs s) \<and>
        sz = m_cur_count q + int (m_push_sem q) + count_if push_early (pcs s) + count_if pop_late (pcs s) \<and>
        m_pushed_count q = int (length (entered s)) \<and>
        (\<forall>pc \<in> set (pcs s). slot_ok sz pc \<and> fault_ok (m_pushed_count q) pc))"

lemma sys_invD:
  assumes "sys_inv sz s"
  shows "ring_wf (shared s)" "m_size (shared s) = sz"
    "int (m_lock (shared s)) + count_if has_lock (pcs s) = 1"
    "m_cur_count (shared s) =
       count_if push_late (pcs s) + int (m_pop_sem (shared s)) + count_if pop_early (pcs s)"
    "sz = m_cur_count (shared s) + int (m_push_sem (shared s)) + count_if push_early (pcs s)
          + count_if pop_late (pcs s)"
    "m_pushed_count (shared s) = int (length (entered s))"
    "\<And>pc. pc \<in> set (pcs s) \<Longrightarrow> slot_ok sz pc"
    "\<And>pc. pc \<in> set (pcs s) \<Longrightarrow> fault_ok (m_pushed_count (shared s)) pc"
  using assms by (auto simp: sys_inv_def Let_def)

lemma start_sys_inv:
  assumes "start_sys junk sz n now = Inr s" and "0 < sz" and "sz \<le> MAX_QUEUE_SIZE"
  shows "sys_inv sz s"
  using assms
  by (auto simp: start_sys_def new_queue_def sys_inv_def ring_wf_def count_if_replicate
      slot_ok_def fault_ok_def INT_MAX_def split: if_splits)

text \<open>
  A step of thread \<open>i\<close> keeps the invariant when each unit that leaves the queue's semaphores
  arrives with the thread, and the other way round.
\<close>

lemma sys_inv_update:
  assumes inv: "sys_inv sz s" and i: "i < length (pcs s)"
    and s': "pcs s' = (pcs s)[i := pc']" "shared s' = q'"
    and wf: "ring_wf q'" "m_size q' = m_size (shared s)"
    and lock: "int (m_lock q') + of_bool (has_lock pc') = int (m_lock (shared s)) + of_bool (has_lock (pcs s ! i))"
    and filled:
      "m_cur_count q' - int (m_pop_sem q') - of_bool (push_late pc') - of_bool (pop_early pc') =
       m_cur_count (shared s) - int (m_pop_sem (shared s)) - of_bool (push_late (pcs s ! i))
         - of_bool (pop_early (pcs s ! i))"
    and free:
      "m_cur_count q' + int (m_push_sem q') + of_bool (push_early pc') + of_bool (pop_late pc') =
       m_cur_count (shared s) + int (m_push_sem (shared s)) + of_bool (push_early (pcs s ! i))
         + of_bool (pop_late (pcs s ! i))"
    and pushed: "m_pushed_count (shared s) \<le> m_pushed_count q'"
      "m_pushed_count q' = int (length (entered s'))"
    and new: "slot_ok sz pc'" "fault_ok (m_pushed_count q') pc'"
  shows "sys_inv sz s'"
proof -
  note I = sys_invD [OF inv]
  have old: "fault_ok (m_pushed_count q') pc" if "pc \<in> set (pcs s)" for pc
    using I(8) [OF that] pushed wf(1) by (auto simp: fault_ok_def ring_wf_def split: pc.splits)
  have "slot_ok sz pc \<and> fault_ok (m_pushed_count q') pc" if "pc \<in> set ((pcs s)[i := pc'])" for pc
    using that set_update_subset_insert [of "pcs s" i pc'] I(7) old new by blast
  then show ?thesis
    using I(1-6) wf lock filled free pushed(2) i
    by (simp add: sys_inv_def Let_def s' count_if_update)
qed

lemma lock_holder_unique:
  assumes inv: "sys_inv sz s" and "i < length (pcs s)" "j < length (pcs s)"
    and "has_lock (pcs s ! i)" "has_lock (pcs s ! j)"
  shows "i = j"
proof (rule ccontr)
  assume "i \<noteq> j"
  with assms(2-5) have "2 \<le> count_if has_lock (pcs s)"
    by (intro count_if_two)
  with sys_invD(3) [OF inv] show False by simp
qed

text \<open>
  In its critical section a push finds a free slot and a pop finds an element, because each
  holds a unit of its semaphore.
\<close>

lemma push_crit_room:
  assumes inv: "sys_inv sz s" and i: "i < length (pcs s)" and pc: "pcs s ! i = Push_crit t"
  shows "m_cur_count (shared s) < sz"
proof -
  have "1 \<le> count_if push_early (pcs s)"
    using i pc by (intro count_if_pos [OF i]) simp
  with sys_invD(5) [OF inv] count_if_nonneg [of pop_late "pcs s"] show ?thesis
    by linarith
qed

lemma pop_crit_some:
  assumes inv: "sys_inv sz s" and i: "i < length (pcs s)" and pc: "pcs s ! i = Pop_crit"
  shows "0 < m_cur_count (shared s)"
proof -
  have "1 \<le> count_if pop_early (pcs s)"
    using i pc by (intro count_if_pos [OF i]) simp
  with sys_invD(4) [OF inv] count_if_nonneg [of push_late "pcs s"] show ?thesis
    by linarith
qed

lemma run_push_crit_inv:
  assumes inv: "sys_inv sz s" and i: "i < length (pcs s)" and pc: "pcs s ! i = Push_crit t"
    and run: "thread_run (shared s) (Push_crit t) = Some (q', pc')"
    and s': "pcs s' = (pcs s)[i := pc']" "shared s' = q'"
      "entered s' = entered s @ entering (Push_crit t) pc'"
  shows "sys_inv sz s'"
proof (cases "m_pushed_count (shared s) < INT_MAX")
  case True
  note I = sys_invD [OF inv]
  have room: "m_cur_count (shared s) < m_size (shared s)"
    using push_crit_room [OF inv i pc] I(2) by simp
  let ?slot = "(m_front (shared s) + m_cur_count (shared s)) mod sz"
  from run push_reserve_eq [OF I(1) room True] I(2)
  have q': "q' = (shared s)\<lparr>m_cur_count := m_cur_count (shared s) + 1,
        m_pushed_count := m_pushed_count (shared s) + 1\<rparr>"
    and pc': "pc' = Push_unlock t ?slot"
    by auto
  from I(1,2) have "0 < sz" by (simp add: ring_wf_def)
  then show ?thesis
    using I(1,2,6) True room pc q' pc' s'
    by (intro sys_inv_update [OF inv i s'(1,2)])
      (simp_all add: ring_wf_def slot_ok_def fault_ok_def)
next
  case False
  note I = sys_invD [OF inv]
  with False have full: "m_pushed_count (shared s) = INT_MAX"
    by (simp add: ring_wf_def)
  have "push_reserve (shared s) = Inl Signed_overflow"
    using I(1) full push_crit_room [OF inv i pc] I(2)
    by (simp add: push_reserve_def ring_wf_def int_add_ok int_rem_nonneg MAX_QUEUE_SIZE_def
        INT_MAX_def INT_MIN_def int_add_def checked_def in_int_def)
  with run have "q' = shared s" "pc' = Faulted Signed_overflow" by simp_all
  then show ?thesis
    using I(1,6) full pc s'
    by (intro sys_inv_update [OF inv i s'(1,2)]) (simp_all add: slot_ok_def fault_ok_def)
qed

lemma run_pop_crit_inv:
  assumes inv: "sys_inv sz s" and i: "i < length (pcs s)" and pc: "pcs s ! i = Pop_crit"
    and run: "thread_run (shared s) Pop_crit = Some (q', pc')"
    and s': "pcs s' = (pcs s)[i := pc']" "shared s' = q'" "entered s' = entered s"
  shows "sys_inv sz s'"
proof -
  note I = sys_invD [OF inv]
  from run pop_reserve_eq [OF I(1) pop_crit_some [OF inv i pc]]
  have "q' = (shared s)\<lparr>m_front := (m_front (shared s) + 1) mod m_size (shared s),
        m_cur_count := m_cur_count (shared s) - 1,
        m_popped_count := m_popped_count (shared s) + 1\<rparr>"
    and "pc' = Pop_unlock (m_front (shared s))"
    by auto
  then show ?thesis
    using I(1,2,6) pc s' pop_crit_some [OF inv i pc]
    by (intro sys_inv_update [OF inv i s'(1,2)])
      (simp_all add: ring_wf_def slot_ok_def fault_ok_def)
qed

text \<open>
  The other actions only move units between the semaphores and the thread.
\<close>

fun quiet :: "'a pc \<Rightarrow> bool" where
  "quiet (Push_crit t) = False"
| "quiet Pop_crit = False"
| "quiet (Push_copy t slot) = False"
| "quiet (Pop_copy slot) = False"
| "quiet _ = True"

lemma quiet_run:
  assumes "thread_run q pc = Some (q', pc')" and "quiet pc"
  shows "m_arr q' = m_arr q \<and> m_front q' = m_front q \<and> m_cur_count q' = m_cur_count q \<and>
       m_size q' = m_size q \<and> m_pushed_count q' = m_pushed_count q \<and>
       m_popped_count q' = m_popped_count q"
    and "int (m_lock q') + of_bool (has_lock pc') = int (m_lock q) + of_bool (has_lock pc)"
    and "int (m_pop_sem q') + of_bool (push_late pc') + of_bool (pop_early pc') =
       int (m_pop_sem q) + of_bool (push_late pc) + of_bool (pop_early pc)"
    and "int (m_push_sem q') + of_bool (push_early pc') + of_bool (pop_late pc') =
       int (m_push_sem q) + of_bool (push_early pc) + of_bool (pop_late pc)"
    and "slot_of pc' = (if has_lock pc then slot_of pc else None)"
    and "fault_ok p pc'"
    and "entering pc pc' = []"
  using assms by (cases pc; auto simp: queue_action_defs fault_ok_def of_nat_diff)+

text \<open>Only the critical section of \<^verbatim>\<open>push\<close> can fault, and only when its counter overflows.\<close>

lemma run_inv:
  assumes inv: "sys_inv sz s" and i: "i < length (pcs s)"
    and run: "thread_run (shared s) (pcs s ! i) = Some (q', pc')"
    and s': "pcs s' = (pcs s)[i := pc']" "shared s' = q'"
      "entered s' = entered s @ entering (pcs s ! i) pc'"
  shows "sys_inv sz s'"
proof -
  note I = sys_invD [OF inv]
  have slot: "slot_ok sz (pcs s ! i)" and len: "int (length (m_arr (shared s))) = sz"
    using I(7) i I(1,2) by (simp_all add: ring_wf_def)
  note upd = sys_inv_update [OF inv i s'(1,2)]
  consider (enter) t where "pcs s ! i = Push_crit t" | (leave) "pcs s ! i = Pop_crit"
    | (copy_in) t x where "pcs s ! i = Push_copy t x" | (copy_out) x where "pcs s ! i = Pop_copy x"
    | (quiet) "quiet (pcs s ! i)"
    by (cases "pcs s ! i") auto
  then show ?thesis
  proof cases
    case enter
    with run s' show ?thesis by (intro run_push_crit_inv [OF inv i]) simp_all
  next
    case leave
    with run s' show ?thesis by (intro run_pop_crit_inv [OF inv i]) simp_all
  next
    case copy_in
    with slot len run have "q' = (shared s)\<lparr>m_arr := (m_arr (shared s))[nat x := t]\<rparr>" "pc' = Push_post"
      by (auto simp: slot_ok_def push_write_def array_set_def)
    with copy_in I(1,2,6) s' show ?thesis
      by (intro upd) (simp_all add: ring_wf_def slot_ok_def fault_ok_def)
  next
    case copy_out
    with slot len run have "q' = shared s" "\<exists>t. pc' = Pop_post t"
      by (auto simp: slot_ok_def pop_read_def array_get_def)
    with copy_out I(1,2,6) s' show ?thesis
      by (intro upd) (auto simp: slot_ok_def fault_ok_def)
  next
    case quiet
    note Q = quiet_run [OF run quiet]
    have "slot_ok sz pc'"
      using slot Q(5) by (simp add: slot_ok_def split: if_splits option.splits)
    moreover have "ring_wf q'"
      using I(1) Q(1) by (simp add: ring_wf_def)
    ultimately show ?thesis
      using Q I(6) s' by (intro upd) simp_all
  qed
qed

text \<open>A thread that is outside the queue, or waits for its unit, holds nothing.\<close>

fun outside :: "'a pc \<Rightarrow> bool" where
  "outside Idle = True"
| "outside (Push_wait t d) = True"
| "outside (Pop_wait d) = True"
| "outside _ = False"

lemma outside_holds_nothing:
  "outside pc \<Longrightarrow> \<not> has_lock pc \<and> \<not> push_early pc \<and> \<not> push_late pc \<and> \<not> pop_early pc \<and> \<not> pop_late pc
     \<and> slot_ok n pc \<and> fault_ok p pc"
  by (cases pc) (auto simp: slot_ok_def fault_ok_def)

lemma outside_inv:
  assumes inv: "sys_inv sz s" and i: "i < length (pcs s)"
    and out: "outside (pcs s ! i)" "outside pc'"
  shows "sys_inv sz (s\<lparr>pcs := (pcs s)[i := pc']\<rparr>)"
  by (rule sys_inv_update [OF inv i, where pc' = pc' and q' = "shared s"])
    (use outside_holds_nothing [OF out(1)] outside_holds_nothing [OF out(2)]
        sys_invD(1,6) [OF inv] in simp_all)

lemma sys_step_inv: "sys_step np s e s' \<Longrightarrow> sys_inv sz s \<Longrightarrow> sys_inv sz s'"
proof (induction rule: sys_step.induct)
  case (run i s q' pc')
  from run_inv [OF run.prems run.hyps] show ?case by simp
next
  case (tick s now)
  then show ?case by (simp add: sys_inv_def)
qed (rule outside_inv; simp)+

lemma reachable_inv: "reachable np s0 s \<Longrightarrow> sys_inv sz s0 \<Longrightarrow> sys_inv sz s"
  by (induction rule: reachable.induct) (auto intro: sys_step_inv)

lemma start_reachable_inv:
  assumes "start_sys junk sz n now = Inr s0" and "0 < sz" and "sz \<le> MAX_QUEUE_SIZE"
    and "reachable np s0 s"
  shows "sys_inv sz s"
  using reachable_inv [OF assms(4) start_sys_inv [OF assms(1-3)]] .

section \<open>Progress of a single call\<close>

text \<open>How many actions a thread has left before its call returns.\<close>

fun actions_left :: "'a pc \<Rightarrow> nat" where
  "actions_left (Push_wait t d) = 6"
| "actions_left (Push_lock t) = 5"
| "actions_left (Push_crit t) = 4"
| "actions_left (Push_unlock t slot) = 3"
| "actions_left (Push_copy t slot) = 2"
| "actions_left Push_post = 1"
| "actions_left (Pop_wait d) = 6"
| "actions_left Pop_lock = 5"
| "actions_left Pop_crit = 4"
| "actions_left (Pop_unlock slot) = 3"
| "actions_left (Pop_copy slot) = 2"
| "actions_left (Pop_post t) = 1"
| "actions_left _ = 0"

lemma thread_run_left:
  "thread_run q pc = Some (q', pc') \<Longrightarrow> (\<And>f. pc' \<noteq> Faulted f) \<Longrightarrow>
   Suc (actions_left pc') = actions_left pc"
  by (cases pc) (auto split: sum.splits)

lemma fault_keeps_queue: "thread_run q pc = Some (q', Faulted f) \<Longrightarrow> q' = q"
  by (cases pc) (auto split: sum.splits)

lemma run_lowers_left:
  assumes inv: "sys_inv sz s" and pushed: "int (length (entered s)) < INT_MAX"
    and run: "sys_step np s (Run i) s'"
  shows "Suc (actions_left (pcs s' ! i)) = actions_left (pcs s ! i)"
proof -
  from run obtain q' pc' where i: "i < length (pcs s)"
    and tr: "thread_run (shared s) (pcs s ! i) = Some (q', pc')"
    and s': "pcs s' = (pcs s)[i := pc']" "shared s' = q'"
    by (auto simp: sys_step_run)
  have "pc' \<noteq> Faulted f" for f
  proof
    assume fault: "pc' = Faulted f"
    have "fault_ok (m_pushed_count q') pc'"
      using sys_invD(8) [OF sys_step_inv [OF run inv]] s' i by (simp add: set_update_memI)
    with fault fault_keeps_queue [OF tr [unfolded fault]] sys_invD(6) [OF inv] pushed
    show False by (simp add: fault_ok_def)
  qed
  with thread_run_left [OF tr] i s' show ?thesis by simp
qed

fun deadline :: "'a pc \<Rightarrow> timespec option" where
  "deadline (Push_wait t d) = Some d"
| "deadline (Pop_wait d) = Some d"
| "deadline _ = None"

fun wants_lock :: "'a pc \<Rightarrow> bool" where
  "wants_lock (Push_lock t) = True"
| "wants_lock Pop_lock = True"
| "wants_lock _ = False"

lemma run_or_wait:
  assumes "pc \<noteq> Idle" and "\<And>f. pc \<noteq> Faulted f"
  shows "(\<exists>q' pc'. thread_run q pc = Some (q', pc')) \<or> (wants_lock pc \<and> m_lock q = 0)
     \<or> (\<exists>t d. pc = Push_wait t d \<and> m_push_sem q = 0) \<or> (\<exists>d. pc = Pop_wait d \<and> m_pop_sem q = 0)"
  using assms by (cases pc) (auto simp: queue_action_defs sem_take_def split: sum.splits)

lemma lock_is_held:
  assumes "sys_inv sz s" and "m_lock (shared s) = 0"
  shows "\<exists>j < length (pcs s). has_lock (pcs s ! j)"
  using sys_invD(3) [OF assms(1)] assms(2) by (intro count_if_ex) simp

lemma holder_runs: "has_lock pc \<Longrightarrow> (\<And>f. pc \<noteq> Faulted f) \<Longrightarrow> \<exists>q' pc'. thread_run q pc = Some (q', pc')"
  by (cases pc) (auto split: sum.splits)

section \<open>A concrete system\<close>

text \<open>Two slots, \<open>n\<close> threads, at time zero; used by the examples.\<close>

definition demo_sys :: "nat \<Rightarrow> nat sys" where
  "demo_sys n =
     \<lparr>shared = \<lparr>m_arr = [0, 0], m_id = 0, m_front = 0, m_cur_count = 0, m_size = 2,
                m_pushed_count = 0, m_popped_count = 0, m_lock = 1, m_pop_sem = 0, m_push_sem = 2\<rparr>,
      pcs = replicate n Idle, clock = Timespec 0 0, entered = [], returned = []\<rparr>"

lemma demo_start: "start_sys (\<lambda>_. 0) 2 n (Timespec 0 0) = Inr (demo_sys n)"
  by (simp add: start_sys_def new_queue_def demo_sys_def numeral_2_eq_2)

lemma demo_size: "(0::int) < 2" "(2::int) \<le> MAX_QUEUE_SIZE"
  by (simp_all add: MAX_QUEUE_SIZE_def)

lemmas exec_simps =
  exec_step_def queue_action_defs int_add_def int_sub_def checked_def in_int_def int_rem_def
  array_set_def array_get_def INT_MAX_def INT_MIN_def sem_take_def get_expire_time_def WAIT_TIME_def
  demo_sys_def numeral_2_eq_2 numeral_3_eq_3

text \<open>Thread 0 is in its critical section while thread 1 waits for an element.\<close>

definition demo_mid :: "nat sys" where
  "demo_mid = (demo_sys 2)
     \<lparr>shared := (shared (demo_sys 2))\<lparr>m_lock := 0, m_push_sem := 1\<rparr>,
      pcs := [Push_crit 7, Pop_wait (Timespec 1 0)]\<rparr>"

lemma demo_mid_reachable: "reachable 1 (demo_sys 2) demo_mid"
proof (rule exec_reachable [OF _ reachable.start])
  show "exec 1 (demo_sys 2) [Begin_push 0 7, Run 0, Run 0, Begin_pop 1] = Some demo_mid"
    by (simp add: exec_simps demo_mid_def)
qed

section \<open>Properties of any number of threads\<close>

text \<open>
  C8: For every queue size from 1 to 2^30, any number of producers and consumers and every
  interleaving of their actions, no action of \<^verbatim>\<open>push\<close> or \<^verbatim>\<open>pop\<close> overflows an int, divides by
  zero or leaves the array, as long as fewer than INT_MAX elements were pushed.
\<close>

theorem queue_threads_safe:
  assumes "start_sys junk sz n now = Inr s0" and "0 < sz" and "sz \<le> MAX_QUEUE_SIZE"
    and "reachable np s0 s" and "i < length (pcs s)" and "int (length (entered s)) < INT_MAX"
  shows "pcs s ! i \<noteq> Faulted f"
proof
  assume fault: "pcs s ! i = Faulted f"
  have inv: "sys_inv sz s" using start_reachable_inv [OF assms(1-4)] .
  from sys_invD(8) [OF inv nth_mem [OF assms(5)]] fault sys_invD(6) [OF inv] assms(6)
  show False by (simp add: fault_ok_def)
qed

theorem queue_threads_safe_witness:
  "reachable 1 (demo_sys 2) demo_mid \<and> pcs demo_mid ! 0 \<noteq> Faulted Out_of_bounds"
proof
  show "pcs demo_mid ! 0 \<noteq> Faulted Out_of_bounds"
    by (rule queue_threads_safe [OF demo_start demo_size demo_mid_reachable])
      (simp_all add: demo_mid_def demo_sys_def INT_MAX_def)
qed (rule demo_mid_reachable)

text \<open>
  C10: At most one thread is inside the critical section of \<^verbatim>\<open>push\<close> or \<^verbatim>\<open>pop\<close>, and \<^verbatim>\<open>m_lock\<close>
  is 0 or 1, being 0 exactly while some thread is inside.
\<close>

theorem queue_mutual_exclusion:
  assumes "start_sys junk sz n now = Inr s0" and "0 < sz" and "sz \<le> MAX_QUEUE_SIZE"
    and "reachable np s0 s" and "i < length (pcs s)" and "has_lock (pcs s ! i)"
  shows "m_lock (shared s) = 0 \<and> (\<forall>j. j < length (pcs s) \<longrightarrow> has_lock (pcs s ! j) \<longrightarrow> j = i)"
proof -
  have inv: "sys_inv sz s" using start_reachable_inv [OF assms(1-4)] .
  have "1 \<le> count_if has_lock (pcs s)" using assms(5,6) by (rule count_if_pos)
  with sys_invD(3) [OF inv] have "m_lock (shared s) = 0" by simp
  with lock_holder_unique [OF inv] assms(5,6) show ?thesis by blast
qed

theorem queue_mutual_exclusion_witness:
  "reachable 1 (demo_sys 2) demo_mid \<and> has_lock (pcs demo_mid ! 0) \<and> m_lock (shared demo_mid) = 0 \<and>
   \<not> has_lock (pcs demo_mid ! 1)"
proof -
  have here: "has_lock (pcs demo_mid ! 0)" "0 < length (pcs demo_mid)" "1 < length (pcs demo_mid)"
    by (simp_all add: demo_mid_def demo_sys_def)
  from queue_mutual_exclusion [OF demo_start demo_size demo_mid_reachable here(2,1)]
  have "m_lock (shared demo_mid) = 0" "\<not> has_lock (pcs demo_mid ! 1)"
    using here(3) by auto
  with here demo_mid_reachable show ?thesis by blast
qed

fun inside :: "'a pc \<Rightarrow> bool" where
  "inside (Push_wait t d) = False"
| "inside (Pop_wait d) = False"
| "inside Idle = False"
| "inside _ = True"

lemma inside_split:
  "count_if inside xs = count_if push_early xs + count_if push_late xs + count_if pop_early xs
     + count_if pop_late xs"
proof (induction xs)
  case (Cons x xs)
  then show ?case by (cases x) simp_all
qed simp

text \<open>
  C13: No unit of the two counting semaphores is ever lost or made up: the units in the
  semaphores and those held by the threads inside a call are as many as the queue has slots;
  \<^verbatim>\<open>m_cur_count\<close> stays between 0 and the size and is the number of pushes less the number of
  pops.
\<close>

theorem queue_units_conserved:
  assumes "start_sys junk sz n now = Inr s0" and "0 < sz" and "sz \<le> MAX_QUEUE_SIZE"
    and "reachable np s0 s"
  shows "int (m_push_sem (shared s)) + int (m_pop_sem (shared s)) + count_if inside (pcs s) = sz \<and>
     0 \<le> m_cur_count (shared s) \<and> m_cur_count (shared s) \<le> sz \<and>
     0 \<le> m_front (shared s) \<and> m_front (shared s) < sz \<and>
     m_cur_count (shared s) = m_pushed_count (shared s) - m_popped_count (shared s) \<and>
     m_pushed_count (shared s) = int (length (entered s))"
proof -
  note I = sys_invD [OF start_reachable_inv [OF assms]]
  from I(1,2) have "0 \<le> m_cur_count (shared s)" "m_cur_count (shared s) \<le> sz"
    "0 \<le> m_front (shared s)" "m_front (shared s) < sz"
    "m_cur_count (shared s) = m_pushed_count (shared s) - m_popped_count (shared s)"
    unfolding ring_wf_def by simp_all
  with I(4,5,6) show ?thesis
    unfolding inside_split by linarith
qed

theorem queue_units_conserved_witness:
  "int (m_push_sem (shared demo_mid)) + int (m_pop_sem (shared demo_mid)) + count_if inside (pcs demo_mid) = 2"
  using queue_units_conserved [OF demo_start demo_size demo_mid_reachable] by blast

text \<open>
  A \<^verbatim>\<open>push\<close> that gives up leaves the queue as it was, and gives up only when no slot was
  free: every slot held an element, was promised to another push, or was still being read by
  a pop.
\<close>

lemma push_gives_up_when_full:
  assumes "start_sys junk sz n now = Inr s0" and "0 < sz" and "sz \<le> MAX_QUEUE_SIZE"
    and "reachable np s0 s" and "pcs s ! i = Push_wait t d" and "sys_step np s (Expire i) s'"
  shows "shared s' = shared s \<and> entered s' = entered s \<and> pcs s' = (pcs s)[i := Idle] \<and> d \<le> clock s \<and>
     m_cur_count (shared s) + count_if push_early (pcs s) + count_if pop_late (pcs s) = sz"
  using assms(5,6) sys_invD(5) [OF start_reachable_inv [OF assms(1-4)]]
  by (auto simp: sys_step_expire)

definition demo_full :: "nat sys" where
  "demo_full = (demo_sys 3)
     \<lparr>shared := (shared (demo_sys 3))\<lparr>m_push_sem := 0\<rparr>, clock := Timespec 1 0,
      pcs := [Push_lock 7, Push_lock 8, Push_wait 9 (Timespec 1 0)]\<rparr>"

lemma demo_full_reachable: "reachable 3 (demo_sys 3) demo_full"
proof (rule exec_reachable [OF _ reachable.start])
  show "exec 3 (demo_sys 3) [Begin_push 0 7, Run 0, Begin_push 1 8, Run 1, Begin_push 2 9,
      Tick (Timespec 1 0)] = Some demo_full"
    by (simp add: exec_simps demo_full_def less_eq_timespec_def)
qed

theorem push_gives_up_when_full_witness:
  "m_cur_count (shared demo_full) + count_if push_early (pcs demo_full)
     + count_if pop_late (pcs demo_full) = 2"
proof -
  have wait: "pcs demo_full ! 2 = Push_wait 9 (Timespec 1 0)"
    by (simp add: demo_full_def)
  have step: "sys_step 3 demo_full (Expire 2) (demo_full\<lparr>pcs := (pcs demo_full)[2 := Idle]\<rparr>)"
    by (simp add: sys_step_expire demo_full_def demo_sys_def)
  show ?thesis
    using push_gives_up_when_full [OF demo_start demo_size demo_full_reachable wait step] by blast
qed

text \<open>
  No call can hang. A call has at most six actions to go and each of its actions leaves
  one less; at every moment its thread can act, or waits for a lock whose holder can act, or
  waits with a deadline after which it can give up, as long as the push counter does not
  overflow.
\<close>

lemma queue_calls_progress:
  assumes "start_sys junk sz n now = Inr s0" and "0 < sz" and "sz \<le> MAX_QUEUE_SIZE"
    and "reachable np s0 s" and "i < length (pcs s)" and "pcs s ! i \<noteq> Idle"
    and "int (length (entered s)) < INT_MAX"
  shows "actions_left (pcs s ! i) \<le> 6 \<and>
     (\<forall>s'. sys_step np s (Run i) s' \<longrightarrow> Suc (actions_left (pcs s' ! i)) = actions_left (pcs s ! i)) \<and>
     ((\<exists>s'. sys_step np s (Run i) s') \<or>
     (wants_lock (pcs s ! i) \<and>
       (\<exists>j s'. j < length (pcs s) \<and> has_lock (pcs s ! j) \<and> sys_step np s (Run j) s')) \<or>
     (\<exists>d. deadline (pcs s ! i) = Some d \<and>
       (\<forall>late. d \<le> late \<longrightarrow> clock s \<le> late \<longrightarrow>
         (\<exists>s'. sys_step np (s\<lparr>clock := late\<rparr>) (Expire i) s'))))"
proof -
  have inv: "sys_inv sz s" using start_reachable_inv [OF assms(1-4)] .
  have live: "pcs s ! j \<noteq> Faulted f" if "j < length (pcs s)" for j f
    using sys_invD(8) [OF inv nth_mem [OF that]] sys_invD(6) [OF inv] assms(7)
    by (auto simp: fault_ok_def split: pc.splits)
  have bound: "actions_left (pcs s ! i) \<le> 6" by (cases "pcs s ! i") simp_all
  note lower = run_lowers_left [OF inv assms(7)]
  from run_or_wait [OF assms(6) live [OF assms(5)], of "shared s"] show ?thesis
  proof (elim disjE exE conjE)
    fix q' pc' assume "thread_run (shared s) (pcs s ! i) = Some (q', pc')"
    with assms(5) have "\<exists>s'. sys_step np s (Run i) s'" by (auto simp: sys_step_run)
    with bound lower show ?thesis by blast
  next
    assume wants: "wants_lock (pcs s ! i)" and taken: "m_lock (shared s) = 0"
    from lock_is_held [OF inv taken] obtain j where j: "j < length (pcs s)" "has_lock (pcs s ! j)"
      by blast
    from holder_runs [OF j(2) live [OF j(1)]] j have "\<exists>s'. sys_step np s (Run j) s'"
      by (auto simp: sys_step_run)
    with j wants bound lower show ?thesis by blast
  qed (use assms(5) bound lower in \<open>auto simp: sys_step_expire\<close>)
qed

theorem queue_calls_progress_witness: "\<exists>s'. sys_step 1 demo_mid (Run 0) s'"
  using queue_calls_progress [OF demo_start demo_size demo_mid_reachable, of 0]
  by (simp add: demo_mid_def demo_sys_def INT_MAX_def)

end
