(* ===== verification/Queue_Spsc.thy ===== *)
theory Queue_Spsc
  imports Queue_Threads
begin

text \<open>
  One producer and one consumer on a queue, which is what each core has by default in
  Chapter 12 and always in Chapter 14. Although the element is copied outside the critical
  section, the queue is then a first-in first-out buffer, and no slot is read while it is
  written.
\<close>

section \<open>The invariant of the ring\<close>

fun push_side :: "'a pc \<Rightarrow> bool" where
  "push_side (Pop_wait d) = False"
| "push_side Pop_lock = False"
| "push_side Pop_crit = False"
| "push_side (Pop_unlock slot) = False"
| "push_side (Pop_copy slot) = False"
| "push_side (Pop_post t) = False"
| "push_side _ = True"

fun pop_side :: "'a pc \<Rightarrow> bool" where
  "pop_side Idle = True"
| "pop_side (Pop_wait d) = True"
| "pop_side Pop_lock = True"
| "pop_side Pop_crit = True"
| "pop_side (Pop_unlock slot) = True"
| "pop_side (Pop_copy slot) = True"
| "pop_side (Pop_post t) = True"
| "pop_side _ = False"

text \<open>An element that has a slot but is not there yet; one that is taken but not copied yet.\<close>

fun copying_in :: "'a pc \<Rightarrow> bool" where
  "copying_in (Push_unlock t slot) = True"
| "copying_in (Push_copy t slot) = True"
| "copying_in _ = False"

fun copying_out :: "'a pc \<Rightarrow> bool" where
  "copying_out (Pop_unlock slot) = True"
| "copying_out (Pop_copy slot) = True"
| "copying_out _ = False"

text \<open>
  The \<open>k\<close>-th element that entered is in slot \<open>k mod sz\<close> from the moment it is copied in until
  it is copied out. \<open>P\<close> and \<open>C\<close> are the program counters of the producer and the consumer,
  \<open>ent\<close> and \<open>ret\<close> the histories.
\<close>

definition ring_ok ::
    "int \<Rightarrow> 'a queue \<Rightarrow> 'a pc \<Rightarrow> 'a pc \<Rightarrow> 'a list \<Rightarrow> 'a list \<Rightarrow> bool" where
  "ring_ok sz q P C ent ret \<longleftrightarrow>
     push_side P \<and> pop_side C \<and>
     m_front q = m_popped_count q mod sz \<and>
     int (length ret) = m_popped_count q - of_bool (copying_out C) \<and>
     ret = take (length ret) ent \<and>
     (\<forall>k. length ret \<le> k \<longrightarrow> k + of_bool (copying_in P) < length ent \<longrightarrow>
          m_arr q ! nat (int k mod sz) = ent ! k) \<and>
     (\<forall>t x. P = Push_unlock t x \<or> P = Push_copy t x \<longrightarrow>
          x = (int (length ent) - 1) mod sz \<and> ent \<noteq> [] \<and> last ent = t) \<and>
     (\<forall>x. C = Pop_unlock x \<or> C = Pop_copy x \<longrightarrow> x = (m_popped_count q - 1) mod sz)"

definition spsc_inv :: "int \<Rightarrow> 'a sys \<Rightarrow> bool" where
  "spsc_inv sz s \<longleftrightarrow>
     sys_inv sz s \<and> length (pcs s) = 2 \<and>
     ring_ok sz (shared s) (pcs s ! 0) (pcs s ! 1) (entered s) (returned s)"

lemma two_threads: "length xs = 2 \<Longrightarrow> xs = [xs ! 0, xs ! 1]"
  by (cases xs; cases "tl xs") auto

text \<open>The elements that entered and are not returned yet fit the ring.\<close>

lemma spsc_window:
  assumes inv: "sys_inv sz s" and two: "length (pcs s) = 2"
    and sides: "push_side (pcs s ! 0)" "pop_side (pcs s ! 1)"
  shows "0 < sz" "m_size (shared s) = sz" "int (length (m_arr (shared s))) = sz"
    "m_pushed_count (shared s) = int (length (entered s))"
    "0 \<le> m_popped_count (shared s)"
    "m_popped_count (shared s) + of_bool (copying_in (pcs s ! 0)) \<le> int (length (entered s))"
    "int (length (entered s)) + of_bool (copying_out (pcs s ! 1)) \<le> m_popped_count (shared s) + sz"
    "m_cur_count (shared s) = m_pushed_count (shared s) - m_popped_count (shared s)"
proof -
  note I = sys_invD [OF inv]
  obtain P C where pcs: "pcs s = [P, C]" using two_threads [OF two] by blast
  have late: "of_bool (copying_in P) \<le> (of_bool (push_late P) :: int)"
    "of_bool (copying_out C) \<le> (of_bool (pop_late C) :: int)"
    by (cases P; simp) (cases C; simp)
  have "of_bool (push_late P) \<le> m_cur_count (shared s)"
    using I(4) by (simp add: pcs)
  moreover have "m_cur_count (shared s) + of_bool (pop_late C) \<le> sz"
    using I(5) by (simp add: pcs)
  ultimately show "0 < sz" "m_size (shared s) = sz" "int (length (m_arr (shared s))) = sz"
    "m_pushed_count (shared s) = int (length (entered s))" "0 \<le> m_popped_count (shared s)"
    "m_popped_count (shared s) + of_bool (copying_in (pcs s ! 0)) \<le> int (length (entered s))"
    "int (length (entered s)) + of_bool (copying_out (pcs s ! 1)) \<le> m_popped_count (shared s) + sz"
    "m_cur_count (shared s) = m_pushed_count (shared s) - m_popped_count (shared s)"
    using I(1,2,6) late unfolding ring_wf_def pcs by auto
qed

section \<open>The producer's actions\<close>

lemma ring_ok_enter:
  assumes ok: "ring_ok sz q (Push_crit t) C ent ret"
  shows "ring_ok sz (q\<lparr>m_cur_count := c, m_pushed_count := p\<rparr>)
           (Push_unlock t (int (length ent) mod sz)) C (ent @ [t]) ret"
proof -
  from ok have "length ret \<le> length ent"
    unfolding ring_ok_def by (metis length_take min.cobounded1 min_def)
  with ok show ?thesis
    by (auto simp: ring_ok_def nth_append)
qed

lemma ring_ok_copy_in:
  assumes ok: "ring_ok sz q (Push_copy t x) C ent ret"
    and room: "int (length ent) \<le> int (length ret) + sz" and pos: "0 < sz"
    and len: "int (length (m_arr q)) = sz"
  shows "ring_ok sz (q\<lparr>m_arr := (m_arr q)[nat x := t]\<rparr>) Push_post C ent ret"
proof -
  from ok have x: "x = (int (length ent) - 1) mod sz" and ent: "ent \<noteq> []" "last ent = t"
    by (auto simp: ring_ok_def)
  have inside: "nat x < length (m_arr q)"
    using x pos len by (simp add: nat_less_iff)
  have "(m_arr q)[nat x := t] ! nat (int k mod sz) = ent ! k"
    if k: "length ret \<le> k" "k < length ent" for k
  proof (cases "Suc k = length ent")
    case True
    then have k1: "int k = int (length ent) - 1" "k = length ent - 1" by simp_all
    with x have "nat x = nat (int k mod sz)" by simp
    with inside ent k1(2) show ?thesis by (auto simp: last_conv_nth)
  next
    case False
    have "nat x \<noteq> nat (int k mod sz)"
    proof
      assume "nat x = nat (int k mod sz)"
      then have "(int (length ent) - 1) mod sz = int k mod sz"
        using x pos by (simp add: eq_nat_nat_iff)
      then have "int (length ent) - 1 = int k"
        by (rule mod_window_inj) (use k False room in linarith)
      with False show False by linarith
    qed
    moreover have "m_arr q ! nat (int k mod sz) = ent ! k"
      using ok k False by (auto simp: ring_ok_def)
    ultimately show ?thesis by simp
  qed
  with ok show ?thesis by (auto simp: ring_ok_def)
qed

section \<open>The consumer's actions\<close>

lemma ring_ok_leave:
  assumes ok: "ring_ok sz q P Pop_crit ent ret"
  shows "ring_ok sz (q\<lparr>m_front := (m_front q + 1) mod sz, m_cur_count := c,
                       m_popped_count := m_popped_count q + 1\<rparr>)
           P (Pop_unlock (m_front q)) ent ret"
  using ok by (simp add: ring_ok_def mod_simps)

lemma ring_ok_copy_out:
  assumes ok: "ring_ok sz q P (Pop_copy x) ent ret"
    and there: "m_popped_count q + of_bool (copying_in P) \<le> int (length ent)"
  shows "m_arr q ! nat x = ent ! length ret"
    and "ring_ok sz q P (Pop_post (ent ! length ret)) ent (ret @ [ent ! length ret])"
proof -
  from ok have x: "x = int (length ret) mod sz" and m: "m_popped_count q = int (length ret) + 1"
    by (auto simp: ring_ok_def)
  with there have lt: "length ret + of_bool (copying_in P) < length ent"
    by (auto split: if_splits)
  with ok x show "m_arr q ! nat x = ent ! length ret"
    by (auto simp: ring_ok_def)
  have "ret @ [ent ! length ret] = take (Suc (length ret)) ent"
    using ok lt by (simp add: ring_ok_def take_Suc_conv_app_nth)
  moreover from lt have "min (length ent) (Suc (length ret)) = Suc (length ret)"
    by simp
  ultimately show "ring_ok sz q P (Pop_post (ent ! length ret)) ent (ret @ [ent ! length ret])"
    using ok m by (auto simp: ring_ok_def)
qed

section \<open>Every step keeps the invariant\<close>

lemma ring_ok_frame:
  assumes "ring_ok sz q P C ent ret"
    and "m_arr q' = m_arr q" "m_front q' = m_front q" "m_popped_count q' = m_popped_count q"
    and "push_side P'" "copying_in P' = copying_in P"
    and "\<And>t x. P' = Push_unlock t x \<or> P' = Push_copy t x \<Longrightarrow> P = Push_unlock t x \<or> P = Push_copy t x"
    and "pop_side C'" "copying_out C' = copying_out C"
    and "\<And>x. C' = Pop_unlock x \<or> C' = Pop_copy x \<Longrightarrow> C = Pop_unlock x \<or> C = Pop_copy x"
  shows "ring_ok sz q' P' C' ent ret"
proof -
  have "P' = Push_unlock t x \<or> P' = Push_copy t x \<longrightarrow>
      x = (int (length ent) - 1) mod sz \<and> ent \<noteq> [] \<and> last ent = t" for t x
    using assms(1) assms(7) [of t x] unfolding ring_ok_def by blast
  moreover have "C' = Pop_unlock x \<or> C' = Pop_copy x \<longrightarrow> x = (m_popped_count q - 1) mod sz" for x
    using assms(1) assms(10) [of x] unfolding ring_ok_def by blast
  ultimately show ?thesis
    using assms(1-6,8,9) unfolding ring_ok_def by simp
qed

lemma producer_run:
  assumes ok: "ring_ok sz q P C ent ret" and wf: "m_size q = sz" "m_pushed_count q = int (length ent)"
    "m_cur_count q = m_pushed_count q - m_popped_count q" "int (length (m_arr q)) = sz" "0 < sz"
    "0 \<le> m_cur_count q"
    and room: "int (length ent) + of_bool (copying_out C) \<le> m_popped_count q + sz"
    and run: "thread_run q P = Some (q', P')"
  shows "ring_ok sz q' P' C (ent @ entering P P') (ret @ leaving P P')"
proof (cases P)
  case (Push_crit t)
  note frame = ring_ok_frame [OF ok, where C' = C]
  show ?thesis
  proof (cases "push_reserve q")
    case (Inl f)
    then have "q' = q" "P' = Faulted f" using run Push_crit by simp_all
    then show ?thesis
      using ok Push_crit by (simp add: ring_ok_def)
  next
    case (Inr r)
    obtain slot q1 where r: "r = (slot, q1)" by fastforce
    have "m_front q = m_popped_count q mod sz" using ok by (simp add: ring_ok_def)
    moreover have "int_rem (m_front q + m_cur_count q) sz = Inr slot"
      using Inr r wf(1) by (auto simp: push_reserve_def int_add_eq_Inr)
    moreover have "0 \<le> m_front q + m_cur_count q"
      using ok wf(5,6) by (simp add: ring_ok_def)
    ultimately have slot: "slot = int (length ent) mod sz"
      using wf by (simp add: int_rem_nonneg mod_simps)
    have "q1 = q\<lparr>m_cur_count := m_cur_count q + 1, m_pushed_count := m_pushed_count q + 1\<rparr>"
      using Inr r by (auto simp: push_reserve_def int_add_eq_Inr)
    then have "q' = q\<lparr>m_cur_count := m_cur_count q + 1, m_pushed_count := m_pushed_count q + 1\<rparr>"
      and "P' = Push_unlock t (int (length ent) mod sz)"
      using run Push_crit Inr r slot by simp_all
    with ring_ok_enter [OF ok [unfolded Push_crit]] Push_crit show ?thesis by simp
  qed
next
  case (Push_copy t x)
  have "int (length ent) \<le> int (length ret) + sz"
    using ok room by (simp add: ring_ok_def)
  from ring_ok_copy_in [OF ok [unfolded Push_copy] this wf(5,4)]
  have "ring_ok sz (q\<lparr>m_arr := (m_arr q)[nat x := t]\<rparr>) Push_post C ent ret" .
  moreover have "0 \<le> x" "x < sz"
    using ok Push_copy wf(5) by (auto simp: ring_ok_def)
  ultimately show ?thesis
    using run Push_copy wf(4) by (auto simp: push_write_def array_set_def)
qed (use ok run in \<open>auto simp: queue_action_defs ring_ok_def intro: ring_ok_frame [OF ok, where C' = C]\<close>)

lemma consumer_run:
  assumes ok: "ring_ok sz q P C ent ret" and wf: "m_size q = sz" "0 < sz"
    "int (length (m_arr q)) = sz"
    and there: "m_popped_count q + of_bool (copying_in P) \<le> int (length ent)"
    and run: "thread_run q C = Some (q', C')" and live: "\<And>f. C' \<noteq> Faulted f"
  shows "ring_ok sz q' P C' (ent @ entering C C') (ret @ leaving C C')"
proof (cases C)
  case Pop_crit
  then obtain slot where res: "pop_reserve q = Inr (slot, q')" "C' = Pop_unlock slot"
    using run live by (auto split: sum.splits)
  have "m_front q = m_popped_count q mod sz" using ok by (simp add: ring_ok_def)
  then have front: "0 \<le> m_front q + 1" using wf(2) by (simp add: add_nonneg_nonneg)
  from res(1) have "slot = m_front q"
    and "q' = q\<lparr>m_front := (m_front q + 1) mod sz, m_cur_count := m_cur_count q - 1,
              m_popped_count := m_popped_count q + 1\<rparr>"
    using wf(1,2) front
    by (auto simp: pop_reserve_def int_add_eq_Inr int_sub_eq_Inr int_rem_nonneg)
  with ring_ok_leave [OF ok [unfolded Pop_crit], of "m_cur_count q - 1"] res(2) Pop_crit
  show ?thesis by simp
next
  case (Pop_copy x)
  note copied = ring_ok_copy_out [OF ok [unfolded Pop_copy] there]
  have "0 \<le> x" "x < sz"
    using ok Pop_copy wf(2) by (auto simp: ring_ok_def)
  with copied run Pop_copy wf(3) show ?thesis
    by (auto simp: pop_read_def array_get_def)
qed (use ok run in \<open>auto simp: queue_action_defs ring_ok_def intro: ring_ok_frame [OF ok, where P' = P]\<close>)

lemma consumer_never_faults:
  assumes inv: "sys_inv sz s" and two: "length (pcs s) = 2" and C: "pop_side (pcs s ! 1)"
    and run: "thread_run (shared s) (pcs s ! 1) = Some (q', C')"
  shows "C' \<noteq> Faulted f"
proof
  assume fault: "C' = Faulted f"
  let ?s = "s\<lparr>shared := q', pcs := (pcs s)[1 := C'], entered := entered s @ entering (pcs s ! 1) C'\<rparr>"
  have i: "1 < length (pcs s)" using two by simp
  note I = sys_invD [OF inv]
  have slot: "slot_ok sz (pcs s ! 1)" and len: "int (length (m_arr (shared s))) = sz"
    using I(7) i I(1,2) by (simp_all add: ring_wf_def)
  show False
  proof (cases "pcs s ! 1")
    case Pop_crit
    with pop_reserve_eq [OF I(1) pop_crit_some [OF inv i Pop_crit]] run fault show False by simp
  next
    case (Pop_copy x)
    with slot len run fault show False by (auto simp: slot_ok_def pop_read_def array_get_def)
  qed (use run fault C in \<open>auto simp: queue_action_defs\<close>)
qed

lemma spsc_step_inv:
  assumes "sys_step 1 s e s'" and inv: "spsc_inv sz s"
  shows "spsc_inv sz s'"
  using assms(1)
proof cases
  case (run i q' pc')
  from inv have si: "sys_inv sz s" and two: "length (pcs s) = 2"
    and ok: "ring_ok sz (shared s) (pcs s ! 0) (pcs s ! 1) (entered s) (returned s)"
    by (simp_all add: spsc_inv_def)
  then have sides: "push_side (pcs s ! 0)" "pop_side (pcs s ! 1)"
    by (simp_all add: ring_ok_def)
  note w = spsc_window [OF si two sides]
  have cur: "0 \<le> m_cur_count (shared s)"
    using sys_invD(1) [OF si] by (simp add: ring_wf_def)
  have si': "sys_inv sz s'"
    using sys_step_inv [OF assms(1) si] .
  from run two consider "i = 0" | "i = 1" by fastforce
  then show ?thesis
  proof cases
    case 1
    with producer_run [OF ok w(2) w(4) w(8) w(3) w(1) cur w(7)] run two si' show ?thesis
      by (simp add: spsc_inv_def)
  next
    case 2
    have "C' \<noteq> Faulted f" if "C' = pc'" for C' f
      using consumer_never_faults [OF si two sides(2)] run 2 that by simp
    with 2 consumer_run [OF ok w(2) w(1) w(3) w(6)] run two si' show ?thesis
      by (simp add: spsc_inv_def)
  qed
next
  case tick
  with inv sys_step_inv [OF assms(1)] show ?thesis by (simp add: spsc_inv_def)
next
  case (begin_push i t)
  with inv sys_step_inv [OF assms(1)] show ?thesis
    by (auto simp: spsc_inv_def ring_ok_def)
next
  case (begin_pop i)
  then have "i = 1" using inv by (simp add: spsc_inv_def)
  with begin_pop inv sys_step_inv [OF assms(1)] show ?thesis
    by (auto simp: spsc_inv_def ring_ok_def)
next
  case (expire_push i t d)
  then have "i = 0" using inv by (cases "i = 1") (auto simp: spsc_inv_def ring_ok_def)
  with expire_push inv sys_step_inv [OF assms(1)] show ?thesis
    by (auto simp: spsc_inv_def ring_ok_def)
next
  case (expire_pop i d)
  then have "i = 1" using inv by (cases "i = 0") (auto simp: spsc_inv_def ring_ok_def)
  with expire_pop inv sys_step_inv [OF assms(1)] show ?thesis
    by (auto simp: spsc_inv_def ring_ok_def)
qed

lemma spsc_start_inv:
  assumes "start_sys junk sz 2 now = Inr s" and "0 < sz" and "sz \<le> MAX_QUEUE_SIZE"
  shows "spsc_inv sz s"
proof -
  have "sys_inv sz s" using start_sys_inv [OF assms] .
  then show ?thesis
    using assms
    by (auto simp: spsc_inv_def ring_ok_def start_sys_def new_queue_def split: if_splits)
qed

lemma spsc_reachable_inv:
  assumes "start_sys junk sz 2 now = Inr s0" and "0 < sz" and "sz \<le> MAX_QUEUE_SIZE"
    and "reachable 1 s0 s"
  shows "spsc_inv sz s"
  using assms(4)
proof (induction rule: reachable.induct)
  case start
  show ?case using spsc_start_inv [OF assms(1-3)] .
next
  case (step s e s')
  then show ?case using spsc_step_inv by blast
qed

section \<open>Properties of one producer and one consumer\<close>

text \<open>What \<open>spsc_inv\<close> says of a reachable state, with the counters read off the histories.\<close>

lemma spsc_facts:
  assumes inv: "spsc_inv sz s"
  shows "ring_ok sz (shared s) (pcs s ! 0) (pcs s ! 1) (entered s) (returned s)"
    and "m_popped_count (shared s) = int (length (returned s)) + of_bool (copying_out (pcs s ! 1))"
    and "length (returned s) + of_bool (copying_out (pcs s ! 1)) + of_bool (copying_in (pcs s ! 0))
         \<le> length (entered s)"
    and "int (length (entered s)) \<le> int (length (returned s)) + sz"
    and "0 < sz"
proof -
  from inv have si: "sys_inv sz s" and two: "length (pcs s) = 2"
    and ok: "ring_ok sz (shared s) (pcs s ! 0) (pcs s ! 1) (entered s) (returned s)"
    by (simp_all add: spsc_inv_def)
  then have sides: "push_side (pcs s ! 0)" "pop_side (pcs s ! 1)"
    by (simp_all add: ring_ok_def)
  note w = spsc_window [OF si two sides]
  show "ring_ok sz (shared s) (pcs s ! 0) (pcs s ! 1) (entered s) (returned s)" "0 < sz"
    by (fact ok w(1))+
  show popped: "m_popped_count (shared s) = int (length (returned s)) + of_bool (copying_out (pcs s ! 1))"
    using ok by (simp add: ring_ok_def)
  show "length (returned s) + of_bool (copying_out (pcs s ! 1)) + of_bool (copying_in (pcs s ! 0))
         \<le> length (entered s)"
    using w(6) unfolding popped by (auto split: if_splits)
  show "int (length (entered s)) \<le> int (length (returned s)) + sz"
    using w(7) unfolding popped by simp
qed

definition demo_spsc :: "nat sys" where
  "demo_spsc = (demo_sys 2)
     \<lparr>shared := (shared (demo_sys 2))\<lparr>m_arr := [7, 0], m_front := 1, m_cur_count := 1,
         m_pushed_count := 2, m_popped_count := 1, m_push_sem := 0\<rparr>,
      pcs := [Push_copy 8 1, Pop_copy 0], entered := [7, 8]\<rparr>"

lemma demo_spsc_reachable: "reachable 1 (demo_sys 2) demo_spsc"
proof (rule exec_reachable [OF _ reachable.start])
  show "exec 1 (demo_sys 2) [Begin_push 0 7, Run 0, Run 0, Run 0, Run 0, Run 0, Run 0,
      Begin_push 0 8, Run 0, Run 0, Run 0, Run 0, Begin_pop 1, Run 1, Run 1, Run 1, Run 1] = Some demo_spsc"
    by (simp add: exec_simps demo_spsc_def)
qed

text \<open>
  With one producer and one consumer, in every interleaving, the consumer gets exactly the
  elements the producer pushed, in the same order, without loss, duplicate or invention; at
  most as many elements as the queue has slots are under way.
\<close>

lemma spsc_fifo:
  assumes "start_sys junk sz 2 now = Inr s0" and "0 < sz" and "sz \<le> MAX_QUEUE_SIZE"
    and "reachable 1 s0 s"
  shows "returned s = take (length (returned s)) (entered s) \<and>
         length (returned s) \<le> length (entered s) \<and>
         int (length (entered s)) \<le> int (length (returned s)) + sz"
  using spsc_facts [OF spsc_reachable_inv [OF assms]] by (simp add: ring_ok_def)

theorem spsc_fifo_witness:
  "returned demo_spsc = take (length (returned demo_spsc)) (entered demo_spsc)"
  using spsc_fifo [OF demo_start demo_size demo_spsc_reachable] by blast

text \<open>
  C12: With one producer and one consumer no slot is read while it is written, although both
  copies happen outside the critical section: the copies of the elements need not be atomic.
\<close>

theorem spsc_no_race:
  assumes "start_sys junk sz 2 now = Inr s0" and "0 < sz" and "sz \<le> MAX_QUEUE_SIZE"
    and "reachable 1 s0 s" and "pcs s ! 0 = Push_copy t x" and "pcs s ! 1 = Pop_copy y"
  shows "x \<noteq> y"
proof
  assume "x = y"
  note F = spsc_facts [OF spsc_reachable_inv [OF assms(1-4)]]
  from F(1,2) assms(5,6) have "x = (int (length (entered s)) - 1) mod sz"
    and "y = int (length (returned s)) mod sz"
    by (auto simp: ring_ok_def)
  with \<open>x = y\<close> have "(int (length (entered s)) - 1) mod sz = int (length (returned s)) mod sz"
    by simp
  then have "int (length (entered s)) - 1 = int (length (returned s))"
    by (rule mod_window_inj) (use F(3-5) assms(5,6) in simp)
  with F(3) assms(5,6) show False by simp
qed

theorem spsc_no_race_witness:
  "reachable 1 (demo_sys 2) demo_spsc \<and> pcs demo_spsc = [Push_copy 8 1, Pop_copy 0] \<and> (1::int) \<noteq> 0"
proof -
  have pcs: "pcs demo_spsc = [Push_copy 8 1, Pop_copy 0]" by (simp add: demo_spsc_def)
  then have "(1::int) \<noteq> 0"
    by (intro spsc_no_race [OF demo_start demo_size demo_spsc_reachable, of 8]) simp_all
  with pcs demo_spsc_reachable show ?thesis by blast
qed

text \<open>
  A step adds one element to those that entered, or takes one more, or does neither.
\<close>

lemma spsc_step_cases:
  assumes inv: "spsc_inv sz s" and step: "sys_step 1 s e s'"
  obtains (stutter) "entered s' = entered s" "m_popped_count (shared s') = m_popped_count (shared s)"
  | (enter) t where "entered s' = entered s @ [t]" "m_cur_count (shared s) < sz"
      "m_popped_count (shared s') = m_popped_count (shared s)"
  | (leave) "entered s' = entered s" "m_popped_count (shared s') = m_popped_count (shared s) + 1"
      "0 < m_cur_count (shared s)"
proof -
  from inv have si: "sys_inv sz s" by (simp add: spsc_inv_def)
  from step show thesis
  proof cases
    case (run i q' pc')
    show thesis
    proof (cases "pcs s ! i")
      case (Push_crit t)
      then show thesis
        using run stutter enter [of t] push_crit_room [OF si run(3) Push_crit]
        by (auto simp: push_reserve_def split: sum.splits)
    next
      case Pop_crit
      then show thesis
        using run stutter leave pop_crit_some [OF si run(3) Pop_crit]
        by (auto simp: pop_reserve_def int_add_eq_Inr split: sum.splits)
    qed (use run stutter in \<open>auto simp: queue_action_defs split: sum.splits\<close>)
  qed (use stutter in simp_all)
qed

definition taken :: "'a sys \<Rightarrow> nat" where
  "taken s = nat (m_popped_count (shared s))"

text \<open>
  There is a sequence of uninterrupted calls that accepts \<open>xs\<close>, in that order, delivers its first \<open>k\<close>
  elements and leaves the others stored.
\<close>

definition fifo_explains :: "nat \<Rightarrow> 'a list \<Rightarrow> nat \<Rightarrow> bool" where
  "fifo_explains n xs k \<longleftrightarrow>
     (\<exists>cs os. fifo_run n cs [] = (os, drop k xs) \<and> accepted cs os = xs \<and> delivered os = take k xs)"

lemma fifo_explains_Nil: "fifo_explains n [] 0"
  unfolding fifo_explains_def by (rule exI [of _ "[]"], rule exI [of _ "[]"]) simp

lemma fifo_explains_put:
  assumes "fifo_explains n xs k" and "k \<le> length xs" and "length xs - k < n"
  shows "fifo_explains n (xs @ [t]) k"
proof -
  obtain cs os where f: "fifo_run n cs [] = (os, drop k xs)" "accepted cs os = xs" "delivered os = take k xs"
    using assms(1) unfolding fifo_explains_def by blast
  have len: "length cs = length os" using f(1) length_fifo_run [of n cs "[]"] by simp
  have "fifo_run n (cs @ [Put t]) [] = (os @ [Put_done True], drop k (xs @ [t]))"
    using f(1) assms(2,3) by (simp add: fifo_run_snoc)
  moreover have "accepted (cs @ [Put t]) (os @ [Put_done True]) = xs @ [t]"
    using f(2) by (simp add: accepted_snoc [OF len])
  moreover have "delivered (os @ [Put_done True]) = take k (xs @ [t])"
    using f(3) assms(2) by (simp add: delivered_snoc)
  ultimately show ?thesis unfolding fifo_explains_def by blast
qed

lemma fifo_explains_get:
  assumes "fifo_explains n xs k" and "k < length xs"
  shows "fifo_explains n xs (Suc k)"
proof -
  obtain cs os where f: "fifo_run n cs [] = (os, drop k xs)" "accepted cs os = xs" "delivered os = take k xs"
    using assms(1) unfolding fifo_explains_def by blast
  have len: "length cs = length os" using f(1) length_fifo_run [of n cs "[]"] by simp
  have "drop k xs = xs ! k # drop (Suc k) xs" using assms(2) by (simp add: Cons_nth_drop_Suc)
  then have "fifo_run n (cs @ [Get]) [] = (os @ [Got (Some (xs ! k))], drop (Suc k) xs)"
    using f(1) by (simp add: fifo_run_snoc)
  moreover have "accepted (cs @ [Get]) (os @ [Got (Some (xs ! k))]) = xs"
    using f(2) by (simp add: accepted_snoc [OF len])
  moreover have "delivered (os @ [Got (Some (xs ! k))]) = take (Suc k) xs"
    using f(3) assms(2) by (simp add: delivered_snoc take_Suc_conv_app_nth)
  ultimately show ?thesis unfolding fifo_explains_def by blast
qed

lemma spsc_explained:
  assumes "start_sys junk sz 2 now = Inr s0" and "0 < sz" and "sz \<le> MAX_QUEUE_SIZE"
    and "reachable 1 s0 s"
  shows "fifo_explains (nat sz) (entered s) (taken s)"
  using assms(4)
proof (induction rule: reachable.induct)
  case start
  have "entered s0 = []" "taken s0 = 0"
    using assms(1) by (auto simp: start_sys_def new_queue_def taken_def split: if_splits)
  then show ?case by (simp add: fifo_explains_Nil)
next
  case (step s e s')
  have inv: "spsc_inv sz s" using spsc_reachable_inv [OF assms(1-3) step(1)] .
  note I = sys_invD [OF conjunct1 [OF inv [unfolded spsc_inv_def]]]
  have cur: "m_cur_count (shared s) = int (length (entered s)) - m_popped_count (shared s)"
    "0 \<le> m_popped_count (shared s)"
    using I(1,6) by (simp_all add: ring_wf_def)
  from inv step(2) show ?case
  proof (cases rule: spsc_step_cases)
    case stutter
    then show ?thesis using step.IH by (simp add: taken_def)
  next
    case (enter t)
    then have room: "taken s \<le> length (entered s)" "length (entered s) - taken s < nat sz"
      using cur I(1,6) unfolding taken_def ring_wf_def by arith+
    from fifo_explains_put [OF step.IH this, of t] enter show ?thesis by (simp add: taken_def)
  next
    case leave
    then have "taken s < length (entered s)" "taken s' = Suc (taken s)"
      using cur by (simp_all add: taken_def nat_add_distrib)
    then show ?thesis using fifo_explains_get [OF step.IH] leave by simp
  qed
qed

lemma returned_prefix:
  assumes "start_sys junk sz 2 now = Inr s0" and "0 < sz" and "sz \<le> MAX_QUEUE_SIZE"
    and "reachable 1 s0 s"
  shows "prefix (returned s) (take (taken s) (entered s))"
proof -
  note F = spsc_facts [OF spsc_reachable_inv [OF assms]]
  have "taken s = length (returned s) + of_bool (copying_out (pcs s ! 1))"
    using F(2) by (simp add: taken_def nat_add_distrib)
  moreover have "returned s = take (length (returned s)) (entered s)"
    using F(1) by (simp add: ring_ok_def)
  ultimately have "returned s = take (length (returned s)) (take (taken s) (entered s))"
    by simp
  then show ?thesis by (metis take_is_prefix)
qed

text \<open>
  C4: The two threads together behave as one sequence of uninterrupted calls on a bounded
  first-in first-out buffer of the queue's size: there is such a sequence that accepts the
  elements that entered, in that order, whose deliveries begin with what the consumer got, and
  that leaves stored what entered and was not taken.
\<close>

theorem spsc_linearizable:
  assumes "start_sys junk sz 2 now = Inr s0" and "0 < sz" and "sz \<le> MAX_QUEUE_SIZE"
    and "reachable 1 s0 s"
  shows "\<exists>cs os. fifo_run (nat sz) cs [] = (os, drop (taken s) (entered s)) \<and>
     accepted cs os = entered s \<and> delivered os = take (taken s) (entered s) \<and>
     prefix (returned s) (delivered os)"
  using spsc_explained [OF assms] returned_prefix [OF assms] unfolding fifo_explains_def by metis

theorem spsc_linearizable_witness:
  "\<exists>cs os. fifo_run 2 cs [] = (os, drop (taken demo_spsc) (entered demo_spsc)) \<and>
     accepted cs os = [7, 8] \<and> delivered os = [7]"
  using spsc_linearizable [OF demo_start demo_size demo_spsc_reachable]
  by (auto simp: demo_spsc_def taken_def)

text \<open>
  When neither thread is in a call, the queue is a well-formed ring, as the uninterrupted
  operations need it, and stores exactly what was pushed and not popped.
\<close>

lemma spsc_quiescent:
  assumes "start_sys junk sz 2 now = Inr s0" and "0 < sz" and "sz \<le> MAX_QUEUE_SIZE"
    and "reachable 1 s0 s" and "pcs s ! 0 = Idle" and "pcs s ! 1 = Idle"
  shows "queue_wf (shared s) \<and> contents (shared s) = drop (length (returned s)) (entered s)"
proof -
  have inv: "spsc_inv sz s" using spsc_reachable_inv [OF assms(1-4)] .
  note F = spsc_facts [OF inv]
  from inv have si: "sys_inv sz s" and "length (pcs s) = 2"
    by (simp_all add: spsc_inv_def)
  then have pcs: "pcs s = [Idle, Idle]" using two_threads [of "pcs s"] assms(5,6) by simp
  note I = sys_invD [OF si]
  have popped: "m_popped_count (shared s) = int (length (returned s))"
    using F(2) assms(6) by simp
  have cur: "nat (m_cur_count (shared s)) = length (entered s) - length (returned s)"
    using I(1,6) popped by (simp add: ring_wf_def)
  have there: "m_arr (shared s) ! nat (int j mod sz) = entered s ! j"
    if "length (returned s) \<le> j" "j < length (entered s)" for j
    using F(1) that assms(5) unfolding ring_ok_def by simp
  have "contents (shared s) ! k = entered s ! (length (returned s) + k)"
    if "k < nat (m_cur_count (shared s))" for k
  proof -
    have "(m_front (shared s) + int k) mod sz = int (length (returned s) + k) mod sz"
      using F(1) popped by (simp add: ring_ok_def mod_simps)
    moreover have "m_arr (shared s) ! nat (int (length (returned s) + k) mod sz)
        = entered s ! (length (returned s) + k)"
      using there [of "length (returned s) + k"] that cur by simp
    ultimately show ?thesis using that I(2) by (simp add: contents_def)
  qed
  then have "contents (shared s) = drop (length (returned s)) (entered s)"
    using cur F(3) by (intro nth_equalityI) simp_all
  moreover have "queue_wf (shared s)"
    using I(1-5) by (simp add: queue_wf_def pcs)
  ultimately show ?thesis by simp
qed

definition demo_rest :: "nat sys" where
  "demo_rest = (demo_sys 2)
     \<lparr>shared := (shared (demo_sys 2))\<lparr>m_arr := [7, 0], m_cur_count := 1, m_pushed_count := 1,
         m_pop_sem := 1, m_push_sem := 1\<rparr>, entered := [7]\<rparr>"

lemma demo_rest_reachable: "reachable 1 (demo_sys 2) demo_rest"
proof (rule exec_reachable [OF _ reachable.start])
  show "exec 1 (demo_sys 2) [Begin_push 0 7, Run 0, Run 0, Run 0, Run 0, Run 0, Run 0] = Some demo_rest"
    by (simp add: exec_simps demo_rest_def)
qed

theorem spsc_quiescent_witness: "contents (shared demo_rest) = [7]"
  using spsc_quiescent [OF demo_start demo_size demo_rest_reachable]
  by (simp add: demo_rest_def demo_sys_def)

end
