(* ===== verification/Queue_Races.thy ===== *)
theory Queue_Races
  imports Queue_Spsc
begin

text \<open>
  What the queue does not do when several threads share one side, which Chapter 12 offers with
  its switches for the number of producers and consumers on each core. A unit of
  \<^verbatim>\<open>m_pop_sem\<close> says that some element is there, not that the element at \<^verbatim>\<open>m_front\<close> is; a unit
  of \<^verbatim>\<open>m_push_sem\<close> says that some slot is free, not that the next one is. The theorems are
  runs of the model, from a new queue, that end in the anomaly.
\<close>

section \<open>Two producers: an element that nobody pushed\<close>

text \<open>
  Producer 0 is given slot 0 and stops before its copy; producer 1 pushes into slot 1 and
  posts; the consumer takes that unit and reads slot 0.
\<close>

definition two_producers_run :: "'a \<Rightarrow> 'a \<Rightarrow> 'a event list" where
  "two_producers_run a b =
     [Begin_push 0 a, Run 0, Run 0, Run 0, Run 0,
      Begin_push 1 b, Run 1, Run 1, Run 1, Run 1, Run 1, Run 1,
      Begin_pop 2, Run 2, Run 2, Run 2, Run 2, Run 2, Run 2]"

text \<open>
  C40: With two producers there is a run of a queue of two slots in which both pushed elements
  have their slots and the consumer's completed \<^verbatim>\<open>pop\<close> returned what the memory of the array
  held before anything was pushed.
\<close>

theorem two_producers_stale_read:
  "\<exists>s0 s. start_sys junk 2 3 (Timespec 0 0) = Inr s0 \<and> reachable 2 s0 s \<and>
     entered s = [a, b] \<and> returned s = [junk 0] \<and> pcs s ! 2 = Idle"
proof -
  let ?queue = "\<lparr>m_arr = [junk 0, junk 1], m_id = 0, m_front = 0, m_cur_count = 0, m_size = 2,
      m_pushed_count = 0, m_popped_count = 0, m_lock = 1, m_pop_sem = 0, m_push_sem = 2\<rparr>"
  let ?init = "\<lparr>shared = ?queue, pcs = [Idle, Idle, Idle], clock = Timespec 0 0, entered = [], returned = []\<rparr>"
  have start: "start_sys junk 2 3 (Timespec 0 0) = Inr ?init"
    by (simp add: start_sys_def new_queue_def numeral_2_eq_2 numeral_3_eq_3)
  let ?final = "\<lparr>shared = \<lparr>m_arr = [junk 0, b], m_id = 0, m_front = 1, m_cur_count = 1, m_size = 2,
        m_pushed_count = 2, m_popped_count = 1, m_lock = 1, m_pop_sem = 0, m_push_sem = 1\<rparr>,
      pcs = [Push_copy a 0, Idle, Idle], clock = Timespec 0 0, entered = [a, b], returned = [junk 0]\<rparr>"
  have "exec 2 ?init (two_producers_run a b) = Some ?final"
    by (simp add: two_producers_run_def exec_simps)
  then have "reachable 2 ?init ?final"
    by (rule exec_reachable) (rule reachable.start)
  with start show ?thesis by fastforce
qed

section \<open>Two consumers: an element lost, another twice\<close>

text \<open>
  The queue is full. Consumer 1 is given slot 0 and stops before its copy; consumer 2 pops
  slot 1 and posts; the producer takes that unit and writes its third element into slot 0,
  which consumer 1 reads now and consumer 2 afterwards.
\<close>

definition two_consumers_run :: "'a \<Rightarrow> 'a \<Rightarrow> 'a \<Rightarrow> 'a event list" where
  "two_consumers_run a b c =
     [Begin_push 0 a, Run 0, Run 0, Run 0, Run 0, Run 0, Run 0,
      Begin_push 0 b, Run 0, Run 0, Run 0, Run 0, Run 0, Run 0,
      Begin_pop 1, Run 1, Run 1, Run 1, Run 1,
      Begin_pop 2, Run 2, Run 2, Run 2, Run 2, Run 2, Run 2,
      Begin_push 0 c, Run 0, Run 0, Run 0, Run 0, Run 0, Run 0,
      Run 1, Run 1,
      Begin_pop 2, Run 2, Run 2, Run 2, Run 2, Run 2, Run 2]"

text \<open>
  With two consumers there is a run of a queue of two slots at whose end no thread is in
  a call, three elements were pushed and three popped, the first one was returned to nobody
  and the third one to both consumers.
\<close>

lemma two_consumers_lose_and_repeat:
  "\<exists>s0 s. start_sys junk 2 3 (Timespec 0 0) = Inr s0 \<and> reachable 1 s0 s \<and>
     entered s = [a, b, c] \<and> returned s = [b, c, c] \<and> pcs s = [Idle, Idle, Idle]"
proof -
  let ?queue = "\<lparr>m_arr = [junk 0, junk 1], m_id = 0, m_front = 0, m_cur_count = 0, m_size = 2,
      m_pushed_count = 0, m_popped_count = 0, m_lock = 1, m_pop_sem = 0, m_push_sem = 2\<rparr>"
  let ?init = "\<lparr>shared = ?queue, pcs = [Idle, Idle, Idle], clock = Timespec 0 0, entered = [], returned = []\<rparr>"
  have start: "start_sys junk 2 3 (Timespec 0 0) = Inr ?init"
    by (simp add: start_sys_def new_queue_def numeral_2_eq_2 numeral_3_eq_3)
  let ?final = "\<lparr>shared = \<lparr>m_arr = [c, b], m_id = 0, m_front = 1, m_cur_count = 0, m_size = 2,
        m_pushed_count = 3, m_popped_count = 3, m_lock = 1, m_pop_sem = 0, m_push_sem = 2\<rparr>,
      pcs = [Idle, Idle, Idle], clock = Timespec 0 0, entered = [a, b, c], returned = [b, c, c]\<rparr>"
  have "exec 1 ?init (two_consumers_run a b c) = Some ?final"
    by (simp add: two_consumers_run_def exec_simps)
  then have "reachable 1 ?init ?final"
    by (rule exec_reachable) (rule reachable.start)
  with start show ?thesis by fastforce
qed

end
