(* ===== verification/Work_Item.thy ===== *)
theory Work_Item
  imports Prelude
begin

text \<open>
  The item that producers and consumers exchange: \<^verbatim>\<open>WorkItem\<close> of Chapter 12 (the two
  programs of Chapter 14 hold the same file): an id and 512 bytes of text, and its assignment
  operator.
\<close>

definition MAX_WORK_ITEM_LEN :: nat where "MAX_WORK_ITEM_LEN = 512"
definition ITEM_STARTING_ID_EACH_PRODUCER :: nat where "ITEM_STARTING_ID_EACH_PRODUCER = 300000"

record work_item =
  item_id :: "32 word"
  item_data :: "8 word list"

definition wf_item :: "work_item \<Rightarrow> bool" where
  "wf_item w \<longleftrightarrow> length (item_data w) = MAX_WORK_ITEM_LEN"

text \<open>\<^verbatim>\<open>operator=\<close> copies the id and \<^verbatim>\<open>MAX_WORK_ITEM_LEN\<close> bytes of data.\<close>

definition assign_item :: "work_item \<Rightarrow> work_item \<Rightarrow> work_item" where
  "assign_item this another =
     this\<lparr>item_id := item_id another,
          item_data := take MAX_WORK_ITEM_LEN (item_data another)
                       @ drop MAX_WORK_ITEM_LEN (item_data this)\<rparr>"

lemma assign_item_copies:
  "wf_item this \<Longrightarrow> wf_item another \<Longrightarrow> assign_item this another = another"
  by (simp add: assign_item_def wf_item_def)

end
