(* ===== verification/Producer_Consumer.thy ===== *)
theory Producer_Consumer
  imports Work_Item Bounded_Queue
begin

text \<open>
  The producers and consumers of Chapter 12 (and of the shared-memory program of Chapter 14,
  whose files are the same): what one round of \<^verbatim>\<open>work\<close> does to the thread's own state and to
  the queue. The queue appears as the two operations of the interface \<^verbatim>\<open>fifo_channel\<close>, so
  that the facts hold for every implementation of it.
\<close>

section \<open>Producer\<close>

record producer =
  prod_id :: "32 word"
  m_next_item_id :: "32 word"
  m_saved_work_item :: work_item
  m_valid_saved_work_item :: bool

text \<open>The constructor; the saved item has whatever value the memory had.\<close>

definition new_producer :: "work_item \<Rightarrow> 32 word \<Rightarrow> producer" where
  "new_producer junk pid =
     \<lparr>prod_id = pid, m_next_item_id = of_nat ITEM_STARTING_ID_EACH_PRODUCER * pid,
      m_saved_work_item = junk, m_valid_saved_work_item = False\<rparr>"

text \<open>The loop of \<^verbatim>\<open>cook_item\<close>, with \<open>k\<close> letters to go from index \<open>i\<close> on.\<close>

fun fill_letters :: "nat \<Rightarrow> nat \<Rightarrow> rng \<Rightarrow> 8 word list \<Rightarrow> (8 word list \<times> rng) result" where
  "fill_letters 0 i r d = Inr (d, r)"
| "fill_letters (Suc k) i r d =
     (let (x, r') = rand r
      in bind_result (array_set d (int i) (of_nat (97 + x mod 26)))
           (\<lambda>d'. fill_letters k (Suc i) r' d'))"

definition cook_item :: "producer \<Rightarrow> rng \<Rightarrow> work_item \<Rightarrow> (work_item \<times> producer \<times> rng) result" where
  "cook_item p r item =
     (let item1 = item\<lparr>item_id := m_next_item_id p\<rparr>;
          p1 = p\<lparr>m_next_item_id := m_next_item_id p + 1\<rparr>;
          (x, r1) = rand r;
          datalen = x mod (MAX_WORK_ITEM_LEN - 1)
      in bind_result (fill_letters datalen 0 r1 (item_data item1)) (\<lambda>(d, r2).
         bind_result (array_set d (int datalen) 0) (\<lambda>d'.
           Inr (item1\<lparr>item_data := d'\<rparr>, p1, r2))))"

text \<open>
  \<^verbatim>\<open>Producer::work\<close>: cook an item unless one is saved, try to push it, and keep it saved when
  the push gives up. The last component says whether the item was pushed.
\<close>

definition producer_work ::
    "(work_item \<Rightarrow> 'q \<Rightarrow> (bool \<times> 'q) result) \<Rightarrow> producer \<Rightarrow> rng \<Rightarrow> 'q
     \<Rightarrow> (producer \<times> rng \<times> 'q \<times> bool) result" where
  "producer_work put p r q =
     bind_result
       (if m_valid_saved_work_item p then Inr (p, r)
        else bind_result (cook_item p r (m_saved_work_item p)) (\<lambda>(item, p1, r1).
               Inr (p1\<lparr>m_saved_work_item := item, m_valid_saved_work_item := True\<rparr>, r1)))
       (\<lambda>(p2, r2).
          bind_result (put (m_saved_work_item p2) q) (\<lambda>(ok, q').
            Inr (if ok then p2\<lparr>m_valid_saved_work_item := False\<rparr> else p2, r2, q', ok)))"

section \<open>Consumer\<close>

text \<open>
  \<^verbatim>\<open>Consumer::work\<close>: pop an item and hand it to \<^verbatim>\<open>consume_item\<close>, whose body is switched off;
  the result lists the items handed over.
\<close>

definition consumer_work ::
    "('q \<Rightarrow> (work_item option \<times> 'q) result) \<Rightarrow> 'q \<Rightarrow> (work_item list \<times> 'q) result" where
  "consumer_work get q =
     bind_result (get q) (\<lambda>(r, q'). Inr (case r of Some item \<Rightarrow> [item] | None \<Rightarrow> [], q'))"

section \<open>What cook_item makes\<close>

definition lower_letter :: "8 word \<Rightarrow> bool" where
  "lower_letter c \<longleftrightarrow> 97 \<le> unat c \<and> unat c \<le> 122"

definition text_of_length :: "nat \<Rightarrow> 8 word list \<Rightarrow> bool" where
  "text_of_length n d \<longleftrightarrow>
     n < length d \<and> d ! n = 0 \<and> (\<forall>i < n. lower_letter (d ! i))"

lemma lower_letter_of: "lower_letter (of_nat (97 + x mod 26) :: 8 word)"
proof -
  have "x mod 26 < 26" by simp
  then have "97 + x mod 26 < 2 ^ LENGTH(8)" and top: "97 + x mod 26 \<le> 122" by simp_all
  then have "unat (of_nat (97 + x mod 26) :: 8 word) = 97 + x mod 26"
    by (intro unat_of_nat_small)
  then show ?thesis using top unfolding lower_letter_def by linarith
qed

lemma fill_letters_spec:
  assumes "i + k \<le> length d"
  shows "\<exists>d' r'. fill_letters k i r d = Inr (d', r') \<and> length d' = length d \<and>
     (\<forall>j < length d. if i \<le> j \<and> j < i + k then lower_letter (d' ! j) else d' ! j = d ! j)"
  using assms
proof (induction k arbitrary: i r d)
  case 0
  then show ?case by auto
next
  case (Suc k)
  obtain x r1 where x: "rand r = (x, r1)" by fastforce
  let ?c = "of_nat (97 + x mod 26) :: 8 word"
  have step: "fill_letters (Suc k) i r d = fill_letters k (Suc i) r1 (d[i := ?c])"
    using Suc.prems by (simp add: x array_set_nat)
  from Suc.prems have "Suc i + k \<le> length (d[i := ?c])" by simp
  from Suc.IH [OF this, of r1] obtain d' r' where
    d': "fill_letters k (Suc i) r1 (d[i := ?c]) = Inr (d', r')" "length d' = length d"
    and eq: "\<And>j. j < length d \<Longrightarrow>
      if Suc i \<le> j \<and> j < Suc i + k then lower_letter (d' ! j) else d' ! j = d[i := ?c] ! j"
    by auto
  have "if i \<le> j \<and> j < i + Suc k then lower_letter (d' ! j) else d' ! j = d ! j"
    if j: "j < length d" for j
    using eq [OF j] j lower_letter_of [of x] by (cases "j = i") (auto split: if_splits)
  with step d' show ?case by auto
qed

lemma cook_item_spec:
  assumes "wf_item item"
  shows "\<exists>item' r' n. cook_item p r item = Inr (item', p\<lparr>m_next_item_id := m_next_item_id p + 1\<rparr>, r') \<and>
     item_id item' = m_next_item_id p \<and> wf_item item' \<and>
     n \<le> MAX_WORK_ITEM_LEN - 2 \<and> text_of_length n (item_data item')"
proof -
  obtain x r1 where x: "rand r = (x, r1)" by fastforce
  obtain n where n_def: "x mod (MAX_WORK_ITEM_LEN - 1) = n" by blast
  have len: "length (item_data item) = MAX_WORK_ITEM_LEN"
    using assms by (simp add: wf_item_def)
  have n: "n < MAX_WORK_ITEM_LEN - 1"
    unfolding n_def [symmetric] by (rule mod_less_divisor) (simp add: MAX_WORK_ITEM_LEN_def)
  then have "0 + n \<le> length (item_data item)" by (simp add: len)
  from fill_letters_spec [OF this, of r1] obtain d r2 where
    d: "fill_letters n 0 r1 (item_data item) = Inr (d, r2)" "length d = MAX_WORK_ITEM_LEN"
    and low: "\<And>j. j < n \<Longrightarrow> lower_letter (d ! j)"
    using n by (auto simp: len)
  have cooked: "cook_item p r item = Inr (item\<lparr>item_id := m_next_item_id p, item_data := d[n := 0]\<rparr>,
      p\<lparr>m_next_item_id := m_next_item_id p + 1\<rparr>, r2)"
    unfolding cook_item_def x Let_def prod.case n_def using n by (simp add: d array_set_nat)
  have "text_of_length n (d[n := 0])"
    using n low d(2) by (simp add: text_of_length_def)
  moreover have "n \<le> MAX_WORK_ITEM_LEN - 2"
    using n by simp
  ultimately show ?thesis
    using d(2) cooked by (auto simp: wf_item_def)
qed

section \<open>A run of several producers and consumers\<close>

text \<open>
  The threads take turns, one call of \<^verbatim>\<open>work\<close> at a time, in any order. Beside the state of the
  program, the run records the pushed items with the index of their producer, and the consumed
  ones.
\<close>

datatype turn = Produce nat | Consume

record 'q pc_state =
  producers :: "producer list"
  draws :: rng
  workq :: 'q
  pushed_log :: "(nat \<times> work_item) list"
  consumed_log :: "work_item list"

definition take_turn ::
    "(work_item \<Rightarrow> 'q \<Rightarrow> (bool \<times> 'q) result) \<Rightarrow> ('q \<Rightarrow> (work_item option \<times> 'q) result)
     \<Rightarrow> turn \<Rightarrow> 'q pc_state \<Rightarrow> 'q pc_state result" where
  "take_turn put get t s =
     (case t of
        Produce k \<Rightarrow>
          if k < length (producers s) then
            bind_result (producer_work put (producers s ! k) (draws s) (workq s))
              (\<lambda>(p, r, q, ok).
                Inr (s\<lparr>producers := (producers s)[k := p], draws := r, workq := q,
                       pushed_log := pushed_log s
                         @ (if ok then [(k, m_saved_work_item p)] else [])\<rparr>))
          else Inr s
      | Consume \<Rightarrow>
          bind_result (consumer_work get (workq s))
            (\<lambda>(items, q). Inr (s\<lparr>workq := q, consumed_log := consumed_log s @ items\<rparr>)))"

fun take_turns ::
    "(work_item \<Rightarrow> 'q \<Rightarrow> (bool \<times> 'q) result) \<Rightarrow> ('q \<Rightarrow> (work_item option \<times> 'q) result)
     \<Rightarrow> turn list \<Rightarrow> 'q pc_state \<Rightarrow> 'q pc_state result" where
  "take_turns put get [] s = Inr s"
| "take_turns put get (t # ts) s = bind_result (take_turn put get t s) (take_turns put get ts)"

definition start_state :: "work_item \<Rightarrow> nat \<Rightarrow> rng \<Rightarrow> 'q \<Rightarrow> 'q pc_state" where
  "start_state junk n r q =
     \<lparr>producers = map (\<lambda>k. new_producer junk (of_nat k)) [0..<n], draws = r, workq = q,
      pushed_log = [], consumed_log = []\<rparr>"

definition pushed_by :: "nat \<Rightarrow> 'q pc_state \<Rightarrow> work_item list" where
  "pushed_by k s = map snd (filter (\<lambda>(j, item). j = k) (pushed_log s))"

text \<open>The ids a producer gives to its items, in order.\<close>

definition id_of :: "nat \<Rightarrow> nat \<Rightarrow> 32 word" where
  "id_of k i = of_nat (ITEM_STARTING_ID_EACH_PRODUCER * k + i)"

text \<open>
  What holds of producer \<open>k\<close> between two calls: it has pushed its items in order, and the saved
  item, when valid, is the next one.
\<close>

definition producer_ok :: "nat \<Rightarrow> producer \<Rightarrow> work_item list \<Rightarrow> bool" where
  "producer_ok k p ok \<longleftrightarrow>
     wf_item (m_saved_work_item p) \<and>
     map item_id ok = map (id_of k) [0..<length ok] \<and>
     (if m_valid_saved_work_item p
      then item_id (m_saved_work_item p) = id_of k (length ok) \<and>
           m_next_item_id p = id_of k (Suc (length ok))
      else m_next_item_id p = id_of k (length ok))"

lemma id_of_Suc: "id_of k i + 1 = id_of k (Suc i)"
  by (simp add: id_of_def)

lemma new_producer_ok: "wf_item junk \<Longrightarrow> producer_ok k (new_producer junk (of_nat k)) []"
  by (simp add: producer_ok_def new_producer_def id_of_def)

definition prepare :: "producer \<Rightarrow> rng \<Rightarrow> (producer \<times> rng) result" where
  "prepare p r =
     (if m_valid_saved_work_item p then Inr (p, r)
      else bind_result (cook_item p r (m_saved_work_item p)) (\<lambda>(item, p1, r1).
             Inr (p1\<lparr>m_saved_work_item := item, m_valid_saved_work_item := True\<rparr>, r1)))"

lemma prepare_ok:
  assumes "producer_ok k p ok"
  shows "\<exists>p' r'. prepare p r = Inr (p', r') \<and> m_valid_saved_work_item p' \<and> producer_ok k p' ok"
proof (cases "m_valid_saved_work_item p")
  case True
  with assms show ?thesis by (simp add: prepare_def)
next
  case False
  have "wf_item (m_saved_work_item p)" using assms by (simp add: producer_ok_def)
  from cook_item_spec [OF this, of p r] obtain item r' where
    "cook_item p r (m_saved_work_item p) = Inr (item, p\<lparr>m_next_item_id := m_next_item_id p + 1\<rparr>, r')"
    "item_id item = m_next_item_id p" "wf_item item"
    by blast
  with False assms show ?thesis
    by (simp add: prepare_def producer_ok_def id_of_Suc)
qed

text \<open>The invariant of a run: nothing is lost, and every producer is as it should be.\<close>

definition run_ok :: "('q \<Rightarrow> work_item list) \<Rightarrow> nat \<Rightarrow> 'q pc_state \<Rightarrow> bool" where
  "run_ok stored n s \<longleftrightarrow>
     length (producers s) = n \<and>
     map snd (pushed_log s) = consumed_log s @ stored (workq s) \<and>
     (\<forall>(k, item) \<in> set (pushed_log s). k < n \<and> wf_item item) \<and>
     (\<forall>k < n. producer_ok k (producers s ! k) (pushed_by k s))"

lemma start_run_ok:
  "wf_item junk \<Longrightarrow> stored q = [] \<Longrightarrow> run_ok stored n (start_state junk n r q)"
  by (simp add: run_ok_def start_state_def pushed_by_def new_producer_ok)

locale item_channel = fifo_channel put get stored cap budget wf valid
  for put :: "work_item \<Rightarrow> 'q \<Rightarrow> (bool \<times> 'q) result"
    and get :: "'q \<Rightarrow> (work_item option \<times> 'q) result"
    and stored :: "'q \<Rightarrow> work_item list"
    and cap :: "'q \<Rightarrow> nat"
    and budget :: "'q \<Rightarrow> nat"
    and wf :: "'q \<Rightarrow> bool"
    and valid :: "work_item \<Rightarrow> bool" +
  assumes items_valid: "wf_item x \<Longrightarrow> valid x"
begin

lemma produce_ok:
  assumes ok: "producer_ok k p sent" and q: "wf q" "0 < budget q"
  shows "\<exists>p' r' q' b. producer_work put p r q = Inr (p', r', q', b) \<and> wf q' \<and>
     budget q \<le> Suc (budget q') \<and> cap q' = cap q \<and>
     stored q' = stored q @ (if b then [m_saved_work_item p'] else []) \<and>
     producer_ok k p' (sent @ (if b then [m_saved_work_item p'] else [])) \<and>
     wf_item (m_saved_work_item p')"
proof -
  from prepare_ok [OF ok, of r] obtain p1 r1 where
    prep: "prepare p r = Inr (p1, r1)" "m_valid_saved_work_item p1" "producer_ok k p1 sent"
    by blast
  have "valid (m_saved_work_item p1)" using prep(3) by (simp add: producer_ok_def items_valid)
  from put_outcome [OF q this] obtain b q' where
    put: "put (m_saved_work_item p1) q = Inr (b, q')" "wf q'" "budget q \<le> Suc (budget q')"
      "cap q' = cap q" "stored q' = stored q @ (if b then [m_saved_work_item p1] else [])"
    by blast
  have "producer_work put p r q =
      Inr (if b then p1\<lparr>m_valid_saved_work_item := False\<rparr> else p1, r1, q', b)"
    using prep(1) put(1) by (simp add: producer_work_def prepare_def [symmetric] del: bind_result_eq_Inr)
  with prep(2,3) put show ?thesis
    by (auto simp: producer_ok_def)
qed

lemma take_turn_ok:
  assumes ok: "run_ok stored n s" and q: "wf (workq s)" "0 < budget (workq s)"
  shows "\<exists>s'. take_turn put get t s = Inr s' \<and> run_ok stored n s' \<and> wf (workq s') \<and>
     budget (workq s) \<le> Suc (budget (workq s')) \<and> cap (workq s') = cap (workq s)"
proof (cases t)
  case (Produce k)
  show ?thesis
  proof (cases "k < length (producers s)")
    case True
    with ok have "producer_ok k (producers s ! k) (pushed_by k s)"
      by (simp add: run_ok_def)
    from produce_ok [OF this q, of "draws s"] obtain p r q' b where
      w: "producer_work put (producers s ! k) (draws s) (workq s) = Inr (p, r, q', b)"
        "wf q'" "budget (workq s) \<le> Suc (budget q')" "cap q' = cap (workq s)"
        "stored q' = stored (workq s) @ (if b then [m_saved_work_item p] else [])"
        "producer_ok k p (pushed_by k s @ (if b then [m_saved_work_item p] else []))"
        "wf_item (m_saved_work_item p)"
      by blast
    let ?s = "s\<lparr>producers := (producers s)[k := p], draws := r, workq := q',
        pushed_log := pushed_log s @ (if b then [(k, m_saved_work_item p)] else [])\<rparr>"
    have "run_ok stored n ?s"
      using ok w(5-7) True by (auto simp: run_ok_def pushed_by_def nth_list_update)
    with w(1-4) True show ?thesis
      by (simp add: take_turn_def Produce)
  next
    case False
    with ok q show ?thesis by (simp add: take_turn_def Produce)
  qed
next
  case Consume
  from get_outcome [OF q(1)] obtain r q' where
    g: "get (workq s) = Inr (r, q')" "wf q'" "budget (workq s) \<le> budget q'" "cap q' = cap (workq s)"
      "(case r of None \<Rightarrow> [] | Some x \<Rightarrow> [x]) @ stored q' = stored (workq s)"
    by blast
  with ok show ?thesis
    by (auto simp: take_turn_def Consume consumer_work_def run_ok_def pushed_by_def
        split: option.splits)
qed

lemma take_turns_ok:
  "run_ok stored n s \<Longrightarrow> wf (workq s) \<Longrightarrow> length ts \<le> budget (workq s) \<Longrightarrow>
   \<exists>s'. take_turns put get ts s = Inr s' \<and> run_ok stored n s' \<and> wf (workq s') \<and>
     cap (workq s') = cap (workq s)"
proof (induction ts arbitrary: s)
  case (Cons t ts)
  from Cons.prems(3) have "0 < budget (workq s)" by simp
  from take_turn_ok [OF Cons.prems(1,2) this, of t] obtain s1 where
    s1: "take_turn put get t s = Inr s1" "run_ok stored n s1" "wf (workq s1)"
      "budget (workq s) \<le> Suc (budget (workq s1))" "cap (workq s1) = cap (workq s)"
    by blast
  with Cons.prems(3) have "length ts \<le> budget (workq s1)" by simp
  from Cons.IH [OF s1(2,3) this] s1(1,5) show ?case by auto
qed simp

end

interpretation ring_items: item_channel push pop contents capacity pushes_left queue_wf "\<lambda>_. True"
  by unfold_locales simp

section \<open>Properties\<close>

text \<open>
  \<^verbatim>\<open>cook_item\<close> writes inside the 512 bytes of the item's data whatever \<^verbatim>\<open>rand\<close> returns: the
  item gets the producer's next id and a zero-terminated text of at most 510 lower-case
  letters, and the producer's next id grows by one (modulo 2^32).
\<close>

lemma cook_item_in_bounds:
  assumes "wf_item item"
  shows "\<exists>item' r' n. cook_item p r item = Inr (item', p\<lparr>m_next_item_id := m_next_item_id p + 1\<rparr>, r') \<and>
     item_id item' = m_next_item_id p \<and> wf_item item' \<and> n \<le> 510 \<and>
     text_of_length n (item_data item')"
  using cook_item_spec [OF assms, of p r] by (simp add: MAX_WORK_ITEM_LEN_def)

definition blank_item :: work_item where
  "blank_item = \<lparr>item_id = 0, item_data = replicate 512 0\<rparr>"

lemma wf_blank_item: "wf_item blank_item"
  by (simp add: wf_item_def blank_item_def MAX_WORK_ITEM_LEN_def)

theorem cook_item_in_bounds_witness:
  "\<exists>item' p' r'. cook_item (new_producer blank_item 1) (\<lambda>i. i) blank_item = Inr (item', p', r') \<and>
     item_id item' = 300000"
  using cook_item_in_bounds [OF wf_blank_item, of "new_producer blank_item 1" "\<lambda>i. i"]
  by (auto simp: new_producer_def ITEM_STARTING_ID_EACH_PRODUCER_def)

text \<open>
  Any number of producers and consumers that call \<^verbatim>\<open>work\<close> in any order, one call at a time,
  on a new queue: no call faults within the first INT_MAX turns, the consumed items followed by
  those still in the queue are exactly the pushed ones, in order, and the items of every
  producer have consecutive ids from 300000 times its index, although pushes may give up
  (a refused item is kept and pushed later).
\<close>

lemma producers_consumers_exactly_once:
  assumes "wf_item junk" and "new_queue qjunk sz 0 = Inr q0" and "0 < sz" and "sz \<le> MAX_QUEUE_SIZE"
    and "length ts \<le> nat INT_MAX"
  shows "\<exists>s. take_turns push pop ts (start_state junk n r q0) = Inr s \<and>
     map snd (pushed_log s) = consumed_log s @ contents (workq s) \<and>
     (\<forall>k < n. map item_id (pushed_by k s) = map (id_of k) [0..<length (pushed_by k s)])"
proof -
  have q0: "queue_wf q0" "contents q0 = []" "pushes_left q0 = nat INT_MAX"
    using new_queue_wf [OF assms(3,4), of qjunk 0] assms(2) by auto
  have "run_ok contents n (start_state junk n r q0)"
    using assms(1) q0(2) by (rule start_run_ok)
  from ring_items.take_turns_ok [OF this, of ts] q0 assms(5) obtain s where
    "take_turns push pop ts (start_state junk n r q0) = Inr s" "run_ok contents n s"
    by (auto simp: start_state_def)
  then show ?thesis by (auto simp: run_ok_def producer_ok_def)
qed

theorem producers_consumers_exactly_once_witness:
  "\<exists>q0 s. new_queue (\<lambda>_. blank_item) 5 0 = Inr q0 \<and>
     take_turns push pop [Produce 0, Produce 1, Consume] (start_state blank_item 2 (\<lambda>i. i) q0) = Inr s \<and>
     map snd (pushed_log s) = consumed_log s @ contents (workq s)"
proof -
  obtain q0 where q0: "new_queue (\<lambda>_. blank_item) 5 0 = Inr q0"
    by (simp add: new_queue_def)
  have "(0::int) < 5" "(5::int) \<le> MAX_QUEUE_SIZE"
    by (simp_all add: MAX_QUEUE_SIZE_def)
  from producers_consumers_exactly_once [OF wf_blank_item q0 this,
      of "[Produce 0, Produce 1, Consume]" 2 "\<lambda>i. i"] q0
  show ?thesis by (auto simp: INT_MAX_def)
qed

text \<open>Ids of different producers, and of different items of one producer, differ below the bounds.\<close>

lemma id_of_inj:
  assumes "id_of j a = id_of k b" and "j < n" "k < n" "n * ITEM_STARTING_ID_EACH_PRODUCER \<le> 2 ^ 32"
    and "a < ITEM_STARTING_ID_EACH_PRODUCER" "b < ITEM_STARTING_ID_EACH_PRODUCER"
  shows "j = k \<and> a = b"
proof -
  let ?m = ITEM_STARTING_ID_EACH_PRODUCER
  have small: "?m * i + c < 2 ^ LENGTH(32)" if "i < n" "c < ?m" for i c
  proof -
    have "?m * i + c < ?m * Suc i" using that(2) by simp
    also have "\<dots> \<le> ?m * n" using that(1) by (intro mult_le_mono2) simp
    also have "\<dots> \<le> 2 ^ 32" using assms(4) by (simp add: mult.commute)
    finally show ?thesis by simp
  qed
  from assms(1) have "unat (id_of j a) = unat (id_of k b)" by simp
  then have eq: "?m * j + a = ?m * k + b"
    unfolding id_of_def unat_of_nat_small [OF small [OF assms(2,5)]]
      unat_of_nat_small [OF small [OF assms(3,6)]] .
  have "(?m * j + a) div ?m = j" "(?m * k + b) div ?m = k"
    using assms(5,6) by simp_all
  with eq have "j = k" by metis
  with eq show ?thesis by simp
qed

lemma log_ids_distinct:
  assumes "\<And>j item. (j, item) \<in> set log \<Longrightarrow> j < n"
    and "\<And>k. k < n \<Longrightarrow> map (\<lambda>e. item_id (snd e)) (filter (\<lambda>(j, item). j = k) log)
           = map (id_of k) [0..<length (filter (\<lambda>(j, item). j = k) log)]"
    and "\<And>k. k < n \<Longrightarrow> length (filter (\<lambda>(j, item). j = k) log) \<le> ITEM_STARTING_ID_EACH_PRODUCER"
    and "n * ITEM_STARTING_ID_EACH_PRODUCER \<le> 2 ^ 32"
  shows "distinct (map (\<lambda>e. item_id (snd e)) log)"
  using assms(1-3)
proof (induction log rule: rev_induct)
  case (snoc e log)
  obtain k item where e: "e = (k, item)" by fastforce
  let ?of = "\<lambda>j. filter (\<lambda>(i, item). i = j) log"
  have k: "k < n" using snoc.prems(1) [of k item] by (simp add: e comp_def)
  have ids: "map (\<lambda>e. item_id (snd e)) (?of j) = map (id_of j) [0..<length (?of j)]" if "j < n" for j
    using snoc.prems(2) [OF that] by (cases "j = k") (simp_all add: e comp_def)
  have len: "length (?of j) \<le> ITEM_STARTING_ID_EACH_PRODUCER" if "j < n" for j
    using snoc.prems(3) [OF that] by (cases "j = k") (simp_all add: e comp_def)
  have klen: "length (?of k) < ITEM_STARTING_ID_EACH_PRODUCER"
    using snoc.prems(3) [OF k] by (simp add: e comp_def)
  have new: "item_id item = id_of k (length (?of k))"
    using snoc.prems(2) [OF k] ids [OF k] by (simp add: e comp_def)
  have "item_id item \<noteq> item_id item'" if "(j, item') \<in> set log" for j item'
  proof
    assume same: "item_id item = item_id item'"
    have j: "j < n" using that snoc.prems(1) [of j item'] by simp
    from that have "item_id item' \<in> set (map (\<lambda>e. item_id (snd e)) (?of j))" by force
    then obtain i where i: "i < length (?of j)" "item_id item' = id_of j i"
      unfolding ids [OF j] by auto
    from i(1) len [OF j] have "i < ITEM_STARTING_ID_EACH_PRODUCER" by simp
    with id_of_inj [OF _ k j assms(4) klen, of i] same new i show False by auto
  qed
  then show ?case
    using snoc.IH ids len snoc.prems(1) by (force simp: e)
qed simp

text \<open>
  As long as no producer has pushed more than 300000 items and at most 14316 producers run,
  no two pushed items, of the same or of different producers, have the same id.
\<close>

lemma item_ids_unique:
  assumes "wf_item junk" and "new_queue qjunk sz 0 = Inr q0" and "0 < sz" and "sz \<le> MAX_QUEUE_SIZE"
    and "length ts \<le> nat INT_MAX" and "n \<le> 14316"
    and "take_turns push pop ts (start_state junk n r q0) = Inr s"
    and "\<And>k. k < n \<Longrightarrow> length (pushed_by k s) \<le> 300000"
  shows "distinct (map item_id (map snd (pushed_log s)))"
proof -
  have q0: "queue_wf q0" "contents q0 = []" "pushes_left q0 = nat INT_MAX"
    using new_queue_wf [OF assms(3,4), of qjunk 0] assms(2) by auto
  have "run_ok contents n (start_state junk n r q0)"
    using assms(1) q0(2) by (rule start_run_ok)
  from ring_items.take_turns_ok [OF this, of ts] q0 assms(5,7) have ok: "run_ok contents n s"
    by (auto simp: start_state_def)
  have "distinct (map (\<lambda>e. item_id (snd e)) (pushed_log s))"
  proof (rule log_ids_distinct [where n = n])
    show "n * ITEM_STARTING_ID_EACH_PRODUCER \<le> 2 ^ 32"
      using assms(6) by (simp add: ITEM_STARTING_ID_EACH_PRODUCER_def)
    show "length (filter (\<lambda>(j, item). j = k) (pushed_log s)) \<le> ITEM_STARTING_ID_EACH_PRODUCER"
      if "k < n" for k
      using assms(8) [OF that] by (simp add: pushed_by_def ITEM_STARTING_ID_EACH_PRODUCER_def)
  qed (use ok in \<open>auto simp: run_ok_def producer_ok_def pushed_by_def comp_def\<close>)
  then show ?thesis by (simp add: comp_def)
qed

text \<open>The bound on the items is exact: the next id of one producer is the first one of the next.\<close>

lemma item_ids_collide: "id_of k 300000 = id_of (Suc k) 0"
  by (simp add: id_of_def ITEM_STARTING_ID_EACH_PRODUCER_def)

theorem item_ids_unique_witness:
  "\<exists>q0 s. new_queue (\<lambda>_. blank_item) 5 0 = Inr q0 \<and>
     take_turns push pop [Produce 0, Produce 1] (start_state blank_item 2 (\<lambda>i. i) q0) = Inr s \<and>
     distinct (map item_id (map snd (pushed_log s)))"
proof -
  obtain q0 where q0: "new_queue (\<lambda>_. blank_item) 5 0 = Inr q0"
    by (simp add: new_queue_def)
  have sz: "(0::int) < 5" "(5::int) \<le> MAX_QUEUE_SIZE"
    by (simp_all add: MAX_QUEUE_SIZE_def)
  have wf: "queue_wf q0" "contents q0 = []" "pushes_left q0 = nat INT_MAX"
    using new_queue_wf [OF sz, of "\<lambda>_. blank_item" 0] q0 by auto
  let ?ts = "[Produce 0, Produce 1]" and ?s = "start_state blank_item 2 (\<lambda>i. i) q0"
  have "run_ok contents 2 ?s" using wf_blank_item wf(2) by (rule start_run_ok)
  from ring_items.take_turns_ok [OF this, of ?ts] wf
  obtain s where s: "take_turns push pop ?ts ?s = Inr s"
    by (auto simp: start_state_def INT_MAX_def)
  have "length (pushed_log s) \<le> 2"
    using s by (auto simp: start_state_def take_turn_def split: if_splits)
  then have "length (pushed_by k s) \<le> 300000" for k
    unfolding pushed_by_def length_map
    using length_filter_le [of "\<lambda>(j, item). j = k" "pushed_log s"] by linarith
  then have "distinct (map item_id (map snd (pushed_log s)))"
    by (intro item_ids_unique [OF wf_blank_item q0 sz _ _ s]) (simp_all add: INT_MAX_def)
  with q0 s show ?thesis by blast
qed

end
