(* ===== verification/Queue_Workers.thy ===== *)
theory Queue_Workers
  imports Producer_Consumer Queue_Spsc "HOL-Library.Multiset"
begin

text \<open>
  The threads of the simulation at work on a queue that they share: each producer repeats
  \<^verbatim>\<open>Producer::work\<close>, each consumer \<^verbatim>\<open>Consumer::work\<close>, and the atomic actions inside \<^verbatim>\<open>push\<close> and
  \<^verbatim>\<open>pop\<close> interleave with those of the other threads and with the cooking of items. What a
  thread's call is doing is all that the workers see of the queue; two interfaces state what
  they rely on, and the queue of Chapter 12 provides both (\<open>Shm_Workers\<close>: so does the queue of
  Chapter 14 in its shared memory).
\<close>

section \<open>The calls of a thread\<close>

text \<open>
  \<open>Wants t\<close>: the thread is in \<^verbatim>\<open>push(t)\<close> and has no slot yet; \<open>Put\<close>: it has one, and \<^verbatim>\<open>push\<close> has yet
  to return; \<open>Takes\<close>: it is in \<^verbatim>\<open>pop\<close>; \<open>Has t\<close>: \<open>t\<close> is copied out, and \<^verbatim>\<open>pop\<close> has yet to return;
  \<open>Stuck\<close>: the call has run into undefined behaviour.
\<close>

datatype call = No_call | Wants work_item | Put | Takes | Has work_item | Stuck

text \<open>Whose event a step of the queue is.\<close>

datatype mover = Calls_push nat work_item | Calls_pop nat | Moves nat | Nobody

fun call_goes :: "call \<Rightarrow> call \<Rightarrow> bool" where
  "call_goes (Wants t) c \<longleftrightarrow> c = Wants t \<or> c = Put \<or> c = No_call \<or> c = Stuck"
| "call_goes Put c \<longleftrightarrow> c = Put \<or> c = No_call \<or> c = Stuck"
| "call_goes Takes c \<longleftrightarrow> (\<exists>t. c = Has t) \<or> c = Takes \<or> c = No_call \<or> c = Stuck"
| "call_goes (Has t) c \<longleftrightarrow> c = Has t \<or> c = No_call"
| "call_goes No_call c \<longleftrightarrow> c = No_call"
| "call_goes Stuck c \<longleftrightarrow> c = Stuck"

fun call_puts :: "call \<Rightarrow> call \<Rightarrow> work_item list" where
  "call_puts (Wants t) Put = [t]"
| "call_puts _ _ = []"

fun call_takes :: "call \<Rightarrow> call \<Rightarrow> work_item list" where
  "call_takes Takes (Has t) = [t]"
| "call_takes _ _ = []"

text \<open>The calls of a consumer, and what a call has copied out and not handed over.\<close>

fun taking :: "call \<Rightarrow> bool" where
  "taking (Wants t) = False"
| "taking Put = False"
| "taking _ = True"

fun holding :: "call \<Rightarrow> work_item list" where
  "holding (Has t) = [t]"
| "holding _ = []"

section \<open>The loops around the calls\<close>

text \<open>
  The threads \<open>0, ..., length (makers w) - 1\<close> are producers, the others consumers. Two histories
  record which thread put which item into the queue, and which items were handed to
  \<^verbatim>\<open>consume_item\<close> by which thread.
\<close>

record 's workers =
  wqueue :: 's
  makers :: "producer list"
  cook_fault :: "fault option"
  put_log :: "(nat \<times> work_item) list"
  handed_log :: "(nat \<times> work_item) list"

text \<open>What \<^verbatim>\<open>push\<close> returns: true when the item has a slot, and false when the wait for one timed out.\<close>

definition push_result :: "call \<Rightarrow> call \<Rightarrow> bool option" where
  "push_result c c' =
     (case (c, c') of (Put, No_call) \<Rightarrow> Some True | (Wants t, No_call) \<Rightarrow> Some False | _ \<Rightarrow> None)"

text \<open>
  \<^verbatim>\<open>Producer::work\<close>, action by action: cook an item unless one is saved (with any numbers from \<^verbatim>\<open>rand\<close>,
  whose stream the producers share), call \<^verbatim>\<open>push\<close> with the saved item, go through \<^verbatim>\<open>push\<close>, and
  forget the saved item when it returns true.
\<close>

inductive produce ::
    "('s \<Rightarrow> 'e \<Rightarrow> 's \<Rightarrow> bool) \<Rightarrow> ('e \<Rightarrow> mover) \<Rightarrow> ('s \<Rightarrow> call list) \<Rightarrow> nat \<Rightarrow> 's workers \<Rightarrow> 's workers \<Rightarrow> bool"
  for qstep who doing i w where
  cook:
    "i < length (makers w) \<Longrightarrow> doing (wqueue w) ! i = No_call \<Longrightarrow> \<not> m_valid_saved_work_item (makers w ! i) \<Longrightarrow>
     cook_item (makers w ! i) r (m_saved_work_item (makers w ! i)) = Inr (item, p', r') \<Longrightarrow>
     produce qstep who doing i w
       (w\<lparr>makers := (makers w)[i := p'\<lparr>m_saved_work_item := item, m_valid_saved_work_item := True\<rparr>]\<rparr>)"
| cook_faults:
    "i < length (makers w) \<Longrightarrow> doing (wqueue w) ! i = No_call \<Longrightarrow> \<not> m_valid_saved_work_item (makers w ! i) \<Longrightarrow>
     cook_item (makers w ! i) r (m_saved_work_item (makers w ! i)) = Inl f \<Longrightarrow>
     produce qstep who doing i w (w\<lparr>cook_fault := Some f\<rparr>)"
| call_push:
    "i < length (makers w) \<Longrightarrow> m_valid_saved_work_item (makers w ! i) \<Longrightarrow> qstep (wqueue w) e q' \<Longrightarrow>
     who e = Calls_push i (m_saved_work_item (makers w ! i)) \<Longrightarrow>
     produce qstep who doing i w (w\<lparr>wqueue := q'\<rparr>)"
| in_push:
    "i < length (makers w) \<Longrightarrow> qstep (wqueue w) e q' \<Longrightarrow> who e = Moves i \<Longrightarrow>
     produce qstep who doing i w
       (w\<lparr>wqueue := q',
          makers := (if push_result (doing (wqueue w) ! i) (doing q' ! i) = Some True
                     then (makers w)[i := (makers w ! i)\<lparr>m_valid_saved_work_item := False\<rparr>] else makers w),
          put_log := put_log w @ map (Pair i) (call_puts (doing (wqueue w) ! i) (doing q' ! i))\<rparr>)"

text \<open>What is handed to \<^verbatim>\<open>consume_item\<close>: the item when \<^verbatim>\<open>pop\<close> returns true, nothing when it has timed out.\<close>

definition hands_over :: "call \<Rightarrow> call \<Rightarrow> work_item list" where
  "hands_over c c' = (case (c, c') of (Has t, No_call) \<Rightarrow> [t] | _ \<Rightarrow> [])"

text \<open>\<^verbatim>\<open>Consumer::work\<close>: call \<^verbatim>\<open>pop\<close>, go through it, and hand over the item when it returns true.\<close>

inductive consume ::
    "('s \<Rightarrow> 'e \<Rightarrow> 's \<Rightarrow> bool) \<Rightarrow> ('e \<Rightarrow> mover) \<Rightarrow> ('s \<Rightarrow> call list) \<Rightarrow> nat \<Rightarrow> 's workers \<Rightarrow> 's workers \<Rightarrow> bool"
  for qstep who doing i w where
  call_pop:
    "length (makers w) \<le> i \<Longrightarrow> qstep (wqueue w) e q' \<Longrightarrow> who e = Calls_pop i \<Longrightarrow>
     consume qstep who doing i w (w\<lparr>wqueue := q'\<rparr>)"
| in_pop:
    "length (makers w) \<le> i \<Longrightarrow> qstep (wqueue w) e q' \<Longrightarrow> who e = Moves i \<Longrightarrow>
     consume qstep who doing i w
       (w\<lparr>wqueue := q',
          handed_log := handed_log w @ map (Pair i) (hands_over (doing (wqueue w) ! i) (doing q' ! i))\<rparr>)"

inductive work_step ::
    "('s \<Rightarrow> 'e \<Rightarrow> 's \<Rightarrow> bool) \<Rightarrow> ('e \<Rightarrow> mover) \<Rightarrow> ('s \<Rightarrow> call list) \<Rightarrow> 's workers \<Rightarrow> 's workers \<Rightarrow> bool"
  for qstep who doing w where
  producer_acts: "produce qstep who doing i w w' \<Longrightarrow> work_step qstep who doing w w'"
| consumer_acts: "consume qstep who doing i w w' \<Longrightarrow> work_step qstep who doing w w'"
| time_passes: "qstep (wqueue w) e q' \<Longrightarrow> who e = Nobody \<Longrightarrow> work_step qstep who doing w (w\<lparr>wqueue := q'\<rparr>)"

inductive work_reachable ::
    "('s \<Rightarrow> 'e \<Rightarrow> 's \<Rightarrow> bool) \<Rightarrow> ('e \<Rightarrow> mover) \<Rightarrow> ('s \<Rightarrow> call list) \<Rightarrow> 's workers \<Rightarrow> 's workers \<Rightarrow> bool"
  for qstep who doing w0 where
  start: "work_reachable qstep who doing w0 w0"
| step: "work_reachable qstep who doing w0 w \<Longrightarrow> work_step qstep who doing w w' \<Longrightarrow>
    work_reachable qstep who doing w0 w'"

text \<open>The producers with the ids \<open>ks\<close> at a queue in which nothing has happened yet.\<close>

definition start_workers :: "work_item \<Rightarrow> nat list \<Rightarrow> 's \<Rightarrow> 's workers" where
  "start_workers junk ks q =
     \<lparr>wqueue = q, makers = map (\<lambda>k. new_producer junk (of_nat k)) ks, cook_fault = None,
      put_log = [], handed_log = []\<rparr>"

text \<open>
  The steps as a function, to run a schedule: \<open>Inl (i, r)\<close> lets producer \<open>i\<close> cook with the numbers \<open>r\<close>, \<open>Inr e\<close> is
  a step of the queue, given by \<open>qexec\<close>.
\<close>

definition work_do ::
    "('s \<Rightarrow> 'e \<Rightarrow> 's option) \<Rightarrow> ('e \<Rightarrow> mover) \<Rightarrow> ('s \<Rightarrow> call list) \<Rightarrow> (nat \<times> rng) + 'e \<Rightarrow> 's workers \<Rightarrow> 's workers option" where
  "work_do qexec who doing a w =
     (case a of
        Inl (i, r) \<Rightarrow>
          if i < length (makers w) \<and> doing (wqueue w) ! i = No_call \<and> \<not> m_valid_saved_work_item (makers w ! i) then
            Some (case cook_item (makers w ! i) r (m_saved_work_item (makers w ! i)) of
                    Inl f \<Rightarrow> w\<lparr>cook_fault := Some f\<rparr>
                  | Inr (item, p', r') \<Rightarrow>
                      w\<lparr>makers := (makers w)[i := p'\<lparr>m_saved_work_item := item, m_valid_saved_work_item := True\<rparr>]\<rparr>)
          else None
      | Inr e \<Rightarrow>
          (case qexec (wqueue w) e of
             None \<Rightarrow> None
           | Some q' \<Rightarrow>
               (case who e of
                  Calls_push i t \<Rightarrow>
                    if i < length (makers w) \<and> m_valid_saved_work_item (makers w ! i) \<and> t = m_saved_work_item (makers w ! i)
                    then Some (w\<lparr>wqueue := q'\<rparr>) else None
                | Calls_pop i \<Rightarrow> if length (makers w) \<le> i then Some (w\<lparr>wqueue := q'\<rparr>) else None
                | Moves i \<Rightarrow>
                    Some (if i < length (makers w) then
                      w\<lparr>wqueue := q',
                        makers := (if push_result (doing (wqueue w) ! i) (doing q' ! i) = Some True
                                   then (makers w)[i := (makers w ! i)\<lparr>m_valid_saved_work_item := False\<rparr>] else makers w),
                        put_log := put_log w @ map (Pair i) (call_puts (doing (wqueue w) ! i) (doing q' ! i))\<rparr>
                    else
                      w\<lparr>wqueue := q',
                        handed_log := handed_log w @ map (Pair i) (hands_over (doing (wqueue w) ! i) (doing q' ! i))\<rparr>)
                | Nobody \<Rightarrow> Some (w\<lparr>wqueue := q'\<rparr>))))"

lemma work_do_step:
  assumes sound: "\<And>s e s'. qexec s e = Some s' \<Longrightarrow> qstep s e s'"
    and did: "work_do qexec who doing a w = Some w'"
  shows "work_step qstep who doing w w'"
proof (cases a)
  case (Inl x)
  then obtain i r where "a = Inl (i, r)" by (cases x) simp
  with did show ?thesis
    by (auto simp: work_do_def split: if_splits sum.splits
        intro: work_step.producer_acts produce.cook produce.cook_faults)
next
  case (Inr e)
  with did obtain q' where q': "qexec (wqueue w) e = Some q'" by (auto simp: work_do_def split: option.splits)
  note step = sound [OF q']
  show ?thesis
  proof (cases "who e")
    case (Calls_push i t)
    with did Inr q' step show ?thesis
      by (auto simp: work_do_def split: if_splits intro: work_step.producer_acts [OF produce.call_push])
  next
    case (Calls_pop i)
    with did Inr q' step show ?thesis
      by (auto simp: work_do_def split: if_splits intro: work_step.consumer_acts [OF consume.call_pop])
  next
    case (Moves i)
    show ?thesis
    proof (cases "i < length (makers w)")
      case True
      with produce.in_push [where qstep = qstep and who = who and doing = doing, OF True step Moves] did Inr q' Moves
      show ?thesis by (intro work_step.producer_acts [of _ _ _ i]) (simp add: work_do_def)
    next
      case False
      then have "length (makers w) \<le> i" by simp
      from consume.in_pop [where qstep = qstep and who = who and doing = doing, OF this step Moves]
      show ?thesis using did Inr q' Moves False by (intro work_step.consumer_acts [of _ _ _ i]) (simp add: work_do_def)
    qed
  next
    case Nobody
    with did Inr q' step show ?thesis by (auto simp: work_do_def intro: work_step.time_passes)
  qed
qed

fun work_exec ::
    "('s \<Rightarrow> 'e \<Rightarrow> 's option) \<Rightarrow> ('e \<Rightarrow> mover) \<Rightarrow> ('s \<Rightarrow> call list) \<Rightarrow> ((nat \<times> rng) + 'e) list \<Rightarrow> 's workers \<Rightarrow>
     's workers option" where
  "work_exec qexec who doing [] w = Some w"
| "work_exec qexec who doing (a # as) w =
     (case work_do qexec who doing a w of None \<Rightarrow> None | Some w' \<Rightarrow> work_exec qexec who doing as w')"

lemma work_exec_reachable:
  "work_exec qexec who doing as w = Some w' \<Longrightarrow> (\<And>s e s'. qexec s e = Some s' \<Longrightarrow> qstep s e s') \<Longrightarrow>
   work_reachable qstep who doing w0 w \<Longrightarrow> work_reachable qstep who doing w0 w'"
proof (induction as arbitrary: w)
  case (Cons a as)
  then obtain w1 where "work_do qexec who doing a w = Some w1" "work_exec qexec who doing as w1 = Some w'"
    by (auto split: option.splits)
  with Cons.prems Cons.IH [of w1] show ?case by (blast intro: work_reachable.step work_do_step)
qed simp

lemma work_exec_simps:
  "i < length (makers w) \<Longrightarrow> doing (wqueue w) ! i = No_call \<Longrightarrow> \<not> m_valid_saved_work_item (makers w ! i) \<Longrightarrow>
   cook_item (makers w ! i) r (m_saved_work_item (makers w ! i)) = Inr (item, p', r') \<Longrightarrow>
   work_exec qexec who doing (Inl (i, r) # as) w = work_exec qexec who doing as
     (w\<lparr>makers := (makers w)[i := p'\<lparr>m_saved_work_item := item, m_valid_saved_work_item := True\<rparr>]\<rparr>)"
  "qexec (wqueue w) e = Some q' \<Longrightarrow> who e = Calls_push i t \<Longrightarrow> i < length (makers w) \<Longrightarrow>
   m_valid_saved_work_item (makers w ! i) \<Longrightarrow> t = m_saved_work_item (makers w ! i) \<Longrightarrow>
   work_exec qexec who doing (Inr e # as) w = work_exec qexec who doing as (w\<lparr>wqueue := q'\<rparr>)"
  "qexec (wqueue w) e = Some q' \<Longrightarrow> who e = Calls_pop i \<Longrightarrow> length (makers w) \<le> i \<Longrightarrow>
   work_exec qexec who doing (Inr e # as) w = work_exec qexec who doing as (w\<lparr>wqueue := q'\<rparr>)"
  "qexec (wqueue w) e = Some q' \<Longrightarrow> who e = Moves i \<Longrightarrow> i < length (makers w) \<Longrightarrow>
   work_exec qexec who doing (Inr e # as) w = work_exec qexec who doing as
     (w\<lparr>wqueue := q',
        makers := (if push_result (doing (wqueue w) ! i) (doing q' ! i) = Some True
                   then (makers w)[i := (makers w ! i)\<lparr>m_valid_saved_work_item := False\<rparr>] else makers w),
        put_log := put_log w @ map (Pair i) (call_puts (doing (wqueue w) ! i) (doing q' ! i))\<rparr>)"
  "qexec (wqueue w) e = Some q' \<Longrightarrow> who e = Moves i \<Longrightarrow> length (makers w) \<le> i \<Longrightarrow>
   work_exec qexec who doing (Inr e # as) w = work_exec qexec who doing as
     (w\<lparr>wqueue := q', handed_log := handed_log w @ map (Pair i) (hands_over (doing (wqueue w) ! i) (doing q' ! i))\<rparr>)"
  by (simp_all add: work_do_def)

section \<open>What a producer has made\<close>

definition cooked_item :: "nat \<Rightarrow> nat \<Rightarrow> work_item \<Rightarrow> bool" where
  "cooked_item k n t \<longleftrightarrow> item_id t = id_of k n \<and> wf_item t \<and> (\<exists>m \<le> 510. text_of_length m (item_data t))"

definition entries_of :: "nat \<Rightarrow> (nat \<times> work_item) list \<Rightarrow> work_item list" where
  "entries_of i log = map snd (filter (\<lambda>e. fst e = i) log)"

definition made_in_order :: "nat \<Rightarrow> work_item list \<Rightarrow> bool" where
  "made_in_order k ts \<longleftrightarrow> (\<forall>n < length ts. cooked_item k n (ts ! n))"

lemma entries_of_simps [simp]:
  "entries_of i [] = []"
  "entries_of i (log @ log') = entries_of i log @ entries_of i log'"
  "entries_of i (map (Pair j) ts) = (if i = j then ts else [])"
  by (simp_all add: entries_of_def filter_map comp_def)

lemma made_in_order_Nil [simp]: "made_in_order k []"
  by (simp add: made_in_order_def)

lemma made_in_order_snoc: "made_in_order k (ts @ [t]) \<longleftrightarrow> made_in_order k ts \<and> cooked_item k (length ts) t"
  by (auto simp: made_in_order_def nth_append less_Suc_eq)

text \<open>
  Producer \<open>k\<close> while its call is at \<open>c\<close> and the items \<open>ts\<close> of it have a slot: they are its first ones,
  and the saved item, when it has not been put, is the next.
\<close>

definition maker_ok :: "nat \<Rightarrow> producer \<Rightarrow> call \<Rightarrow> work_item list \<Rightarrow> bool" where
  "maker_ok k p c ts \<longleftrightarrow>
     wf_item (m_saved_work_item p) \<and> made_in_order k ts \<and>
     (if m_valid_saved_work_item p then
        (c = No_call \<or> c = Wants (m_saved_work_item p)) \<and> cooked_item k (length ts) (m_saved_work_item p) \<and>
          m_next_item_id p = id_of k (Suc (length ts))
        \<or> c = Put \<and> m_next_item_id p = id_of k (length ts) \<or> c = Stuck
      else c = No_call \<and> m_next_item_id p = id_of k (length ts))"

lemma maker_ok_new: "wf_item junk \<Longrightarrow> maker_ok k (new_producer junk (of_nat k)) No_call []"
  by (simp add: maker_ok_def new_producer_def id_of_def)

lemma maker_ok_cook:
  assumes ok: "maker_ok k p No_call ts" and fresh: "\<not> m_valid_saved_work_item p"
    and cook: "cook_item p r (m_saved_work_item p) = Inr (item, p', r')"
  shows "maker_ok k (p'\<lparr>m_saved_work_item := item, m_valid_saved_work_item := True\<rparr>) No_call ts"
proof -
  have wf: "wf_item (m_saved_work_item p)" using ok by (simp add: maker_ok_def)
  from cook_item_spec [OF wf, of p r] cook have "p' = p\<lparr>m_next_item_id := m_next_item_id p + 1\<rparr>"
    and item: "item_id item = m_next_item_id p" "wf_item item" "\<exists>n \<le> 510. text_of_length n (item_data item)"
    by (auto simp: MAX_WORK_ITEM_LEN_def)
  with ok fresh show ?thesis by (simp add: maker_ok_def cooked_item_def id_of_Suc)
qed

lemma maker_ok_call:
  "maker_ok k p No_call ts \<Longrightarrow> m_valid_saved_work_item p \<Longrightarrow> maker_ok k p (Wants (m_saved_work_item p)) ts"
  by (auto simp: maker_ok_def)

text \<open>An action inside \<^verbatim>\<open>push\<close>, its return included.\<close>

lemma maker_ok_in_push:
  assumes ok: "maker_ok k p c ts" and goes: "call_goes c c'"
  shows "maker_ok k (if push_result c c' = Some True then p\<lparr>m_valid_saved_work_item := False\<rparr> else p) c'
    (ts @ call_puts c c')"
proof (cases c)
  case (Wants t)
  with goes consider "c' = Wants t" | "c' = Put" | "c' = No_call" | "c' = Stuck" by auto
  then show ?thesis
    using ok Wants by cases (auto simp: maker_ok_def push_result_def made_in_order_snoc split: if_splits)
next
  case Put
  with goes consider "c' = Put" | "c' = No_call" | "c' = Stuck" by auto
  then show ?thesis
    using ok Put by cases (auto simp: maker_ok_def push_result_def split: if_splits)
qed (use ok goes in \<open>auto simp: maker_ok_def push_result_def split: if_splits\<close>)

text \<open>
  The invariant of the workers with the ids \<open>ks\<close>: the producers are as they should be, no consumer is in a \<^verbatim>\<open>push\<close>,
  the log of the puts is the queue's history, and what has been copied out has been handed over or is held by
  a consumer.
\<close>

definition workers_ok ::
    "('s \<Rightarrow> call list) \<Rightarrow> ('s \<Rightarrow> work_item list) \<Rightarrow> ('s \<Rightarrow> work_item list) \<Rightarrow> nat list \<Rightarrow> 's workers \<Rightarrow> bool" where
  "workers_ok doing ent ret ks w \<longleftrightarrow>
     length (makers w) = length ks \<and> length ks \<le> length (doing (wqueue w)) \<and> cook_fault w = None \<and>
     (\<forall>i < length ks. maker_ok (ks ! i) (makers w ! i) (doing (wqueue w) ! i) (entries_of i (put_log w))) \<and>
     (\<forall>i < length (doing (wqueue w)). length ks \<le> i \<longrightarrow> taking (doing (wqueue w) ! i)) \<and>
     map snd (put_log w) = ent (wqueue w) \<and> (\<forall>e \<in> set (put_log w). fst e < length ks) \<and>
     (\<forall>e \<in> set (handed_log w). length ks \<le> fst e) \<and>
     mset (ret (wqueue w)) = mset (map snd (handed_log w)) + mset (concat (map holding (doing (wqueue w))))"

lemma mset_holding_update:
  assumes "i < length cs"
  shows "mset (concat (map holding (cs[i := c]))) + mset (holding (cs ! i)) =
    mset (concat (map holding cs)) + mset (holding c)"
proof -
  have "cs = take i cs @ cs ! i # drop (Suc i) cs" using assms by (rule id_take_nth_drop)
  then have "mset (concat (map holding cs)) =
      mset (concat (map holding (take i cs))) + mset (holding (cs ! i)) + mset (concat (map holding (drop (Suc i) cs)))"
    by (metis (no_types, lifting) add.assoc concat.simps(2) concat_append list.simps(9) map_append mset_append)
  then show ?thesis using assms by (simp add: upd_conv_take_nth_drop)
qed

lemma mset_balance:
  fixes a b h h' x y t z :: "'a multiset"
  assumes "a = b + h" and "h' + x = h + y" and "x + t = z + y"
  shows "a + t = b + z + h'"
proof -
  have "(a + t) + (x + y) = b + (h + y) + (x + t)" using assms(1) by (simp add: ac_simps)
  also have "\<dots> = b + (h' + x) + (z + y)" by (simp only: assms(2,3))
  also have "\<dots> = (b + z + h') + (x + y)" by (simp add: ac_simps)
  finally show ?thesis by (rule add_right_imp_eq)
qed

text \<open>What a call holds changes with what it takes and what it hands over.\<close>

lemma call_goes_balance: "call_goes c c' \<Longrightarrow> holding c @ call_takes c c' = hands_over c c' @ holding c'"
  by (cases c; cases c') (auto simp: hands_over_def)

lemma producer_goes: "maker_ok k p c ts \<Longrightarrow> call_goes c c' \<Longrightarrow> holding c = [] \<and> holding c' = [] \<and> call_takes c c' = []"
  by (cases c; cases c') (auto simp: maker_ok_def split: if_splits)

lemma consumer_goes: "taking c \<Longrightarrow> call_goes c c' \<Longrightarrow> taking c' \<and> call_puts c c' = []"
  by (cases c; cases c') auto

lemma workers_ok_start:
  assumes "wf_item junk" and "length ks \<le> n" and "doing q = replicate n No_call" and "ent q = []" and "ret q = []"
  shows "workers_ok doing ent ret ks (start_workers junk ks q)"
  using assms by (simp add: workers_ok_def start_workers_def maker_ok_new map_replicate_const)

section \<open>What the workers rely on\<close>

text \<open>
  The interface of a queue to the threads that call it. Whatever step the queue makes, it is a thread's call or action or
  the passing of time; a call starts in a thread that is in no call, and goes on as \<open>call_goes\<close> says. The
  histories grow when a thread's item gets a slot, and when an item is copied out.
\<close>

locale called_queue =
  fixes qstep :: "'s \<Rightarrow> 'e \<Rightarrow> 's \<Rightarrow> bool"
    and who :: "'e \<Rightarrow> mover"
    and doing :: "'s \<Rightarrow> call list"
    and ent :: "'s \<Rightarrow> work_item list"
    and ret :: "'s \<Rightarrow> work_item list"
  assumes push_called: "qstep s e s' \<Longrightarrow> who e = Calls_push i t \<Longrightarrow>
      i < length (doing s) \<and> doing s ! i = No_call \<and> doing s' = (doing s)[i := Wants t] \<and> ent s' = ent s \<and> ret s' = ret s"
    and pop_called: "qstep s e s' \<Longrightarrow> who e = Calls_pop i \<Longrightarrow>
      i < length (doing s) \<and> doing s ! i = No_call \<and> doing s' = (doing s)[i := Takes] \<and> ent s' = ent s \<and> ret s' = ret s"
    and moved: "qstep s e s' \<Longrightarrow> who e = Moves i \<Longrightarrow>
      i < length (doing s) \<and> (\<exists>c. doing s' = (doing s)[i := c] \<and> call_goes (doing s ! i) c \<and>
        ent s' = ent s @ call_puts (doing s ! i) c \<and> ret s' = ret s @ call_takes (doing s ! i) c)"
    and time_passed: "qstep s e s' \<Longrightarrow> who e = Nobody \<Longrightarrow> doing s' = doing s \<and> ent s' = ent s \<and> ret s' = ret s"
begin

lemma produce_ok:
  assumes "produce qstep who doing i w w'" and ok: "workers_ok doing ent ret ks w"
  shows "workers_ok doing ent ret ks w'"
  using assms(1)
proof cases
  case (cook r item p' r')
  then have "maker_ok (ks ! i) (makers w ! i) No_call (entries_of i (put_log w))"
    using ok by (auto simp: workers_ok_def)
  from maker_ok_cook [OF this cook(4,5)] ok cook(1-3) show ?thesis
    by (auto simp: workers_ok_def nth_list_update)
next
  case (cook_faults r f)
  then have "wf_item (m_saved_work_item (makers w ! i))"
    using ok by (auto simp: workers_ok_def maker_ok_def)
  from cook_item_spec [OF this, of "makers w ! i" r] cook_faults(5) show ?thesis by auto
next
  case (call_push e q')
  have q: "i < length (doing (wqueue w))" "doing (wqueue w) ! i = No_call"
    "doing q' = (doing (wqueue w))[i := Wants (m_saved_work_item (makers w ! i))]"
    "ent q' = ent (wqueue w)" "ret q' = ret (wqueue w)"
    using push_called [OF call_push(4,5)] by auto
  have i: "i < length ks" using ok call_push(2) by (simp add: workers_ok_def)
  then have "maker_ok (ks ! i) (makers w ! i) (Wants (m_saved_work_item (makers w ! i))) (entries_of i (put_log w))"
    using ok q(2) call_push(3) by (intro maker_ok_call) (auto simp: workers_ok_def)
  with ok q i mset_holding_update [OF q(1), of "Wants (m_saved_work_item (makers w ! i))"] call_push(1) show ?thesis
    by (auto simp: workers_ok_def nth_list_update)
next
  case (in_push e q')
  from moved [OF in_push(3,4)] obtain c where q: "i < length (doing (wqueue w))" "doing q' = (doing (wqueue w))[i := c]"
    "call_goes (doing (wqueue w) ! i) c" "ent q' = ent (wqueue w) @ call_puts (doing (wqueue w) ! i) c"
    "ret q' = ret (wqueue w) @ call_takes (doing (wqueue w) ! i) c" by blast
  have i: "i < length ks" using ok in_push(2) by (simp add: workers_ok_def)
  then have p: "maker_ok (ks ! i) (makers w ! i) (doing (wqueue w) ! i) (entries_of i (put_log w))"
    using ok by (simp add: workers_ok_def)
  from maker_ok_in_push [OF p q(3)] producer_goes [OF p q(3)] mset_holding_update [OF q(1), of c] ok q i in_push(1)
  show ?thesis by (auto simp: workers_ok_def nth_list_update comp_def)
qed

lemma consume_ok:
  assumes "consume qstep who doing i w w'" and ok: "workers_ok doing ent ret ks w"
  shows "workers_ok doing ent ret ks w'"
  using assms(1)
proof cases
  case (call_pop e q')
  have q: "i < length (doing (wqueue w))" "doing (wqueue w) ! i = No_call" "doing q' = (doing (wqueue w))[i := Takes]"
    "ent q' = ent (wqueue w)" "ret q' = ret (wqueue w)"
    using pop_called [OF call_pop(3,4)] by auto
  have i: "length ks \<le> i" using ok call_pop(2) by (simp add: workers_ok_def)
  with ok q mset_holding_update [OF q(1), of Takes] call_pop(1) show ?thesis
    by (auto simp: workers_ok_def nth_list_update)
next
  case (in_pop e q')
  from moved [OF in_pop(3,4)] obtain c where q: "i < length (doing (wqueue w))" "doing q' = (doing (wqueue w))[i := c]"
    "call_goes (doing (wqueue w) ! i) c" "ent q' = ent (wqueue w) @ call_puts (doing (wqueue w) ! i) c"
    "ret q' = ret (wqueue w) @ call_takes (doing (wqueue w) ! i) c" by blast
  have i: "length ks \<le> i" using ok in_pop(2) by (simp add: workers_ok_def)
  with ok q(1) have "taking (doing (wqueue w) ! i)" by (simp add: workers_ok_def)
  note C = consumer_goes [OF this q(3)]
  have "mset (holding (doing (wqueue w) ! i)) + mset (call_takes (doing (wqueue w) ! i) c) =
      mset (hands_over (doing (wqueue w) ! i) c) + mset (holding c)"
    using call_goes_balance [OF q(3)] by (metis mset_append)
  from mset_balance [OF _ mset_holding_update [OF q(1), of c] this, of "mset (ret (wqueue w))" "mset (map snd (handed_log w))"] ok
  have "mset (ret q') = mset (map snd (handed_log w)) + mset (hands_over (doing (wqueue w) ! i) c) +
      mset (concat (map holding (doing q')))"
    unfolding q(2,5) by (simp add: workers_ok_def)
  moreover have "i' < length ks \<Longrightarrow> doing q' ! i' = doing (wqueue w) ! i'" for i' using i q(2) by simp
  ultimately show ?thesis
    using ok q i C in_pop(1) by (auto simp: workers_ok_def nth_list_update comp_def)
qed

lemma work_step_ok: "work_step qstep who doing w w' \<Longrightarrow> workers_ok doing ent ret ks w \<Longrightarrow> workers_ok doing ent ret ks w'"
proof (induction rule: work_step.induct)
  case (time_passes e q')
  with time_passed [OF time_passes(1,2)] show ?case by (simp add: workers_ok_def)
qed (simp_all add: produce_ok consume_ok)

lemma work_reachable_ok:
  "work_reachable qstep who doing w0 w \<Longrightarrow> workers_ok doing ent ret ks w0 \<Longrightarrow> workers_ok doing ent ret ks w"
  by (induction rule: work_reachable.induct) (auto dest: work_step_ok)

end

text \<open>
  A queue with one producer and one consumer that is first in, first out, and holds at most \<open>cap\<close> items; \<open>okq\<close> is what holds
  of its states.
\<close>

locale fifo_queue = called_queue qstep who doing ent ret
  for qstep :: "'s \<Rightarrow> 'e \<Rightarrow> 's \<Rightarrow> bool"
    and who :: "'e \<Rightarrow> mover"
    and doing :: "'s \<Rightarrow> call list"
    and ent :: "'s \<Rightarrow> work_item list"
    and ret :: "'s \<Rightarrow> work_item list" +
  fixes okq :: "'s \<Rightarrow> bool" and cap :: int
  assumes okq_step: "okq s \<Longrightarrow> qstep s e s' \<Longrightarrow> okq s'"
    and two_threads_only: "okq s \<Longrightarrow> length (doing s) = 2"
    and first_in_first_out: "okq s \<Longrightarrow> ret s = take (length (ret s)) (ent s) \<and>
      int (length (ent s)) \<le> int (length (ret s)) + cap"
begin

definition pair_ok :: "nat \<Rightarrow> 's workers \<Rightarrow> bool" where
  "pair_ok k w \<longleftrightarrow> workers_ok doing ent ret [k] w \<and> okq (wqueue w) \<and>
     ret (wqueue w) = map snd (handed_log w) @ holding (doing (wqueue w) ! 1)"

lemma pair_ok_start:
  assumes "wf_item junk" and "okq q" and "doing q = [No_call, No_call]" and "ent q = []" and "ret q = []"
  shows "pair_ok k (start_workers junk [k] q)"
  using assms by (simp add: pair_ok_def workers_ok_def start_workers_def maker_ok_new less_Suc_eq nth_Cons split: nat.split)

lemma one_consumer: "pair_ok k w \<Longrightarrow> length (makers w) \<le> i \<Longrightarrow> i < length (doing (wqueue w)) \<Longrightarrow> i = 1"
  using two_threads_only by (fastforce simp: pair_ok_def workers_ok_def)

lemma pair_ok_step:
  assumes "work_step qstep who doing w w'" and ok: "pair_ok k w"
  shows "pair_ok k w'"
proof -
  have W: "workers_ok doing ent ret [k] w" and Q: "okq (wqueue w)"
    and R: "ret (wqueue w) = map snd (handed_log w) @ holding (doing (wqueue w) ! 1)"
    using ok by (simp_all add: pair_ok_def)
  have len: "length (makers w) = 1" "length (doing (wqueue w)) = 2"
    using W two_threads_only [OF Q] by (simp_all add: workers_ok_def)
  have "okq (wqueue w') \<and> ret (wqueue w') = map snd (handed_log w') @ holding (doing (wqueue w') ! 1)"
    using assms(1)
  proof cases
    case (producer_acts i)
    then show ?thesis
    proof cases
      case (call_push e q')
      with push_called [OF call_push(4,5)] Q R len okq_step show ?thesis by auto
    next
      case (in_push e q')
      from moved [OF in_push(3,4)] obtain c where c: "doing q' = (doing (wqueue w))[i := c]"
        "call_goes (doing (wqueue w) ! i) c" "ret q' = ret (wqueue w) @ call_takes (doing (wqueue w) ! i) c" by blast
      have "i = 0" using in_push(2) len by simp
      moreover from this have "maker_ok k (makers w ! 0) (doing (wqueue w) ! i) (entries_of 0 (put_log w))"
        using W by (simp add: workers_ok_def)
      ultimately show ?thesis using producer_goes [OF _ c(2)] in_push c Q R okq_step by auto
    qed (use Q R in simp_all)
  next
    case (consumer_acts i)
    then show ?thesis
    proof cases
      case (call_pop e q')
      note P = pop_called [OF call_pop(3,4)]
      with one_consumer [OF ok call_pop(2)] have "i = 1" by blast
      with P call_pop Q R len okq_step show ?thesis by auto
    next
      case (in_pop e q')
      from moved [OF in_pop(3,4)] obtain c where c: "i < length (doing (wqueue w))" "doing q' = (doing (wqueue w))[i := c]"
        "call_goes (doing (wqueue w) ! i) c" "ret q' = ret (wqueue w) @ call_takes (doing (wqueue w) ! i) c" by blast
      have "i = 1" by (rule one_consumer [OF ok in_pop(2) c(1)])
      with call_goes_balance [OF c(3)] c in_pop Q R len okq_step show ?thesis by (auto simp: comp_def)
    qed
  next
    case (time_passes e q')
    with time_passed [OF time_passes(2,3)] Q R okq_step show ?thesis by auto
  qed
  with work_step_ok [OF assms(1) W] show ?thesis by (simp add: pair_ok_def)
qed

lemma pair_reachable_ok: "work_reachable qstep who doing w0 w \<Longrightarrow> pair_ok k w0 \<Longrightarrow> pair_ok k w"
  by (induction rule: work_reachable.induct) (auto dest: pair_ok_step)

lemma length_holding: "length (holding c) \<le> 1"
  by (cases c) simp_all

lemma pair_delivers:
  assumes "pair_ok k w"
  shows "cook_fault w = None \<and> made_in_order k (map snd (put_log w)) \<and>
    map snd (handed_log w) = take (length (handed_log w)) (map snd (put_log w)) \<and>
    int (length (put_log w)) \<le> int (length (handed_log w)) + cap + 1"
proof -
  have W: "workers_ok doing ent ret [k] w" and Q: "okq (wqueue w)"
    and R: "ret (wqueue w) = map snd (handed_log w) @ holding (doing (wqueue w) ! 1)"
    using assms by (simp_all add: pair_ok_def)
  have E: "map snd (put_log w) = ent (wqueue w)" using W by (simp add: workers_ok_def)
  have "ret (wqueue w) = take (length (ret (wqueue w))) (ent (wqueue w))" using first_in_first_out [OF Q] by blast
  from arg_cong [OF this, of "take (length (handed_log w))"]
  have fifo: "map snd (handed_log w) = take (length (handed_log w)) (map snd (put_log w))"
    by (simp add: R E min_def)
  have "int (length (ent (wqueue w))) \<le> int (length (ret (wqueue w))) + cap" using first_in_first_out [OF Q] by blast
  with length_holding [of "doing (wqueue w) ! 1"] have "int (length (put_log w)) \<le> int (length (handed_log w)) + cap + 1"
    by (simp add: R E [symmetric])
  moreover have "entries_of 0 (put_log w) = map snd (put_log w)"
    using W by (simp add: workers_ok_def entries_of_def filter_id_conv [THEN iffD2])
  moreover have "made_in_order k (entries_of 0 (put_log w))" using W by (simp add: workers_ok_def maker_ok_def)
  ultimately show ?thesis using fifo W by (simp add: workers_ok_def)
qed

end

section \<open>The queue of Chapter 12 as the workers see it\<close>

fun call_of :: "work_item pc \<Rightarrow> call" where
  "call_of Idle = No_call"
| "call_of (Push_wait t d) = Wants t"
| "call_of (Push_lock t) = Wants t"
| "call_of (Push_crit t) = Wants t"
| "call_of (Push_unlock t slot) = Put"
| "call_of (Push_copy t slot) = Put"
| "call_of Push_post = Put"
| "call_of (Pop_post t) = Has t"
| "call_of (Faulted f) = Stuck"
| "call_of _ = Takes"

fun event_of :: "work_item event \<Rightarrow> mover" where
  "event_of (Begin_push i t) = Calls_push i t"
| "event_of (Begin_pop i) = Calls_pop i"
| "event_of (Run i) = Moves i"
| "event_of (Expire i) = Moves i"
| "event_of (Tick now) = Nobody"

definition sys_calls :: "work_item sys \<Rightarrow> call list" where
  "sys_calls s = map call_of (pcs s)"

lemma thread_run_call:
  "thread_run q pc = Some (q', pc') \<Longrightarrow> call_goes (call_of pc) (call_of pc') \<and>
     entering pc pc' = call_puts (call_of pc) (call_of pc') \<and> leaving pc pc' = call_takes (call_of pc) (call_of pc')"
  by (cases pc) (auto split: sum.splits)

lemma sys_step_moves:
  assumes "sys_step np s e s'" and "event_of e = Moves i"
  shows "i < length (sys_calls s) \<and> (\<exists>c. sys_calls s' = (sys_calls s)[i := c] \<and> call_goes (sys_calls s ! i) c \<and>
    entered s' = entered s @ call_puts (sys_calls s ! i) c \<and> returned s' = returned s @ call_takes (sys_calls s ! i) c)"
  using assms
proof (cases rule: sys_step.cases)
  case (run i' q' pc')
  with assms(2) thread_run_call [OF run(4)] show ?thesis
    by (auto simp: sys_calls_def map_update intro!: exI [of _ "call_of pc'"])
qed (use assms(2) in \<open>auto simp: sys_calls_def map_update intro!: exI [of _ No_call]\<close>)

lemma sys_step_calls:
  assumes "sys_step np s e s'"
  shows "event_of e = Calls_push i t \<Longrightarrow> i < length (sys_calls s) \<and> sys_calls s ! i = No_call \<and>
      sys_calls s' = (sys_calls s)[i := Wants t] \<and> entered s' = entered s \<and> returned s' = returned s"
    and "event_of e = Calls_pop i \<Longrightarrow> i < length (sys_calls s) \<and> sys_calls s ! i = No_call \<and>
      sys_calls s' = (sys_calls s)[i := Takes] \<and> entered s' = entered s \<and> returned s' = returned s"
    and "event_of e = Nobody \<Longrightarrow> sys_calls s' = sys_calls s \<and> entered s' = entered s \<and> returned s' = returned s"
  using assms by (auto elim!: sys_step.cases simp: sys_calls_def map_update)

interpretation threads_called: called_queue "sys_step np" event_of sys_calls entered returned for np
  by unfold_locales (rule sys_step_calls sys_step_moves, assumption+)+

interpretation pair_called: fifo_queue "sys_step 1" event_of sys_calls entered returned "spsc_inv sz" sz for sz
proof unfold_locales
  fix s s' :: "work_item sys" and e
  show "spsc_inv sz s \<Longrightarrow> sys_step 1 s e s' \<Longrightarrow> spsc_inv sz s'" by (rule spsc_step_inv)
  show "spsc_inv sz s \<Longrightarrow> length (sys_calls s) = 2" by (simp add: spsc_inv_def sys_calls_def)
  show "spsc_inv sz s \<Longrightarrow> returned s = take (length (returned s)) (entered s) \<and>
      int (length (entered s)) \<le> int (length (returned s)) + sz"
    using spsc_facts(1,4) [of sz s] by (simp add: ring_ok_def)
qed

section \<open>Properties\<close>

text \<open>With one producer and one consumer, the items reach \<^verbatim>\<open>consume_item\<close> in the order in which they were made.\<close>

lemma pair_works_in_order:
  assumes "start_sys qjunk sz 2 now = Inr s0" and "0 < sz" and "sz \<le> MAX_QUEUE_SIZE" and "wf_item junk"
    and "work_reachable (sys_step 1) event_of sys_calls (start_workers junk [k] s0) w"
  shows "cook_fault w = None \<and> made_in_order k (map snd (put_log w)) \<and>
    map snd (handed_log w) = take (length (handed_log w)) (map snd (put_log w)) \<and>
    int (length (put_log w)) \<le> int (length (handed_log w)) + sz + 1"
proof -
  have "sys_calls s0 = [No_call, No_call]" "entered s0 = []" "returned s0 = []"
    using assms(1) by (auto simp: start_sys_def sys_calls_def numeral_2_eq_2)
  then have "pair_called.pair_ok sz k (start_workers junk [k] s0)"
    using assms(4) spsc_start_inv [OF assms(1-3)] by (intro pair_called.pair_ok_start)
  from pair_called.pair_delivers [OF pair_called.pair_reachable_ok [OF assms(5) this]] show ?thesis .
qed

text \<open>
  C3: The producers and consumers of Chapter 12 at work on one queue, in any number and under every interleaving of their
  actions, those inside \<^verbatim>\<open>push\<close> and \<^verbatim>\<open>pop\<close> included. Cooking never writes outside an item; what a producer has put into
  the queue are its first items in the order in which it made them, with the consecutive ids from 300000 times its own id
  and a text of at most 510 letters each: a push that times out neither loses its item nor repeats it. All puts
  together are the history of the queue, only consumers hand items over, and what they have handed over are,
  each once, items that were copied out of the queue. With one producer and one consumer on a queue whose size is in its bounds, the items
  reach \<^verbatim>\<open>consume_item\<close> in the order in which they were made, and at most the queue's size and one are on the way.
\<close>

theorem workers_put_in_order:
  assumes "start_sys qjunk sz n now = Inr s0" and "length ks \<le> n" and "wf_item junk"
    and "work_reachable (sys_step (length ks)) event_of sys_calls (start_workers junk ks s0) w"
  shows "cook_fault w = None \<and>
    (\<forall>i < length ks. made_in_order (ks ! i) (entries_of i (put_log w))) \<and>
    map snd (put_log w) = entered (wqueue w) \<and> (\<forall>e \<in> set (put_log w). fst e < length ks) \<and>
    mset (map snd (handed_log w)) \<subseteq># mset (returned (wqueue w)) \<and> (\<forall>e \<in> set (handed_log w). length ks \<le> fst e) \<and>
    (n = 2 \<and> length ks = 1 \<and> 0 < sz \<and> sz \<le> MAX_QUEUE_SIZE \<longrightarrow>
      map snd (handed_log w) = take (length (handed_log w)) (map snd (put_log w)) \<and>
      int (length (put_log w)) \<le> int (length (handed_log w)) + sz + 1)"
proof -
  have one: "map snd (handed_log w) = take (length (handed_log w)) (map snd (put_log w)) \<and>
      int (length (put_log w)) \<le> int (length (handed_log w)) + sz + 1"
    if pair: "n = 2" "length ks = 1" "0 < sz" "sz \<le> MAX_QUEUE_SIZE"
  proof -
    obtain k where "ks = [k]" using pair(2) by (cases ks) auto
    with assms(1,4) pair(1) pair_works_in_order [OF _ pair(3,4) assms(3)] show ?thesis by simp
  qed
  have q: "sys_calls s0 = replicate n No_call" "entered s0 = []" "returned s0 = []"
    using assms(1) by (auto simp: start_sys_def sys_calls_def)
  have "workers_ok sys_calls entered returned ks (start_workers junk ks s0)"
    using assms(2,3) q by (intro workers_ok_start) simp_all
  from threads_called.work_reachable_ok [OF assms(4) this] one show ?thesis
    by (simp add: workers_ok_def maker_ok_def)
qed

text \<open>A schedule: producer 1 makes an item, puts it and makes the next one; the consumer gets the first.\<close>

definition item_nr :: "32 word \<Rightarrow> work_item" where
  "item_nr x = blank_item\<lparr>item_id := x\<rparr>"

definition demo_work :: "work_item sys" where
  "demo_work =
     \<lparr>shared = \<lparr>m_arr = [blank_item, blank_item], m_id = 0, m_front = 0, m_cur_count = 0, m_size = 2,
                m_pushed_count = 0, m_popped_count = 0, m_lock = 1, m_pop_sem = 0, m_push_sem = 2\<rparr>,
      pcs = [Idle, Idle], clock = Timespec 0 0, entered = [], returned = []\<rparr>"

lemma demo_work_start: "start_sys (\<lambda>_. blank_item) 2 2 (Timespec 0 0) = Inr demo_work"
  by (simp add: start_sys_def new_queue_def demo_work_def numeral_2_eq_2)

lemma item_nr_cooked:
  "cook_item p (\<lambda>_. 0) (item_nr x) = Inr (item_nr (m_next_item_id p), p\<lparr>m_next_item_id := m_next_item_id p + 1\<rparr>, \<lambda>_. 0)"
  by (simp add: cook_item_def rand_def array_set_def item_nr_def blank_item_def list_update_same_conv)

definition demo_maker :: "32 word \<Rightarrow> work_item \<Rightarrow> bool \<Rightarrow> producer" where
  "demo_maker x t b = \<lparr>prod_id = 1, m_next_item_id = x, m_saved_work_item = t, m_valid_saved_work_item = b\<rparr>"

definition half_worked :: "work_item sys workers" where
  "half_worked =
     \<lparr>wqueue = demo_work\<lparr>shared := (shared demo_work)\<lparr>m_arr := [item_nr 300000, blank_item], m_cur_count := 1,
          m_pushed_count := 1, m_pop_sem := 1, m_push_sem := 1\<rparr>, entered := [item_nr 300000]\<rparr>,
      makers = [demo_maker 300001 (item_nr 300000) False], cook_fault = None,
      put_log = [(0, item_nr 300000)], handed_log = []\<rparr>"

definition worked :: "work_item sys workers" where
  "worked =
     \<lparr>wqueue = demo_work\<lparr>shared := (shared demo_work)\<lparr>m_arr := [item_nr 300000, blank_item], m_front := 1,
          m_pushed_count := 1, m_popped_count := 1\<rparr>, entered := [item_nr 300000], returned := [item_nr 300000]\<rparr>,
      makers = [demo_maker 300002 (item_nr 300001) True], cook_fault = None,
      put_log = [(0, item_nr 300000)], handed_log = [(1, item_nr 300000)]\<rparr>"

lemma demo_workers: "start_workers (item_nr 0) [1] demo_work =
    \<lparr>wqueue = demo_work, makers = [demo_maker 300000 (item_nr 0) False], cook_fault = None, put_log = [], handed_log = []\<rparr>"
  by (simp add: start_workers_def new_producer_def demo_maker_def ITEM_STARTING_ID_EACH_PRODUCER_def)

lemmas work_simps = work_exec_simps sys_calls_def item_nr_cooked demo_maker_def push_result_def hands_over_def

lemma half_worked_eq:
  "work_exec (exec_step 1) event_of sys_calls
     [Inl (0, \<lambda>_. 0), Inr (Begin_push 0 (item_nr 300000)), Inr (Run 0), Inr (Run 0), Inr (Run 0), Inr (Run 0), Inr (Run 0), Inr (Run 0)]
     (start_workers (item_nr 0) [1] demo_work) = Some half_worked"
  unfolding demo_workers by (simp add: work_simps half_worked_def demo_work_def exec_simps del: work_exec.simps(2))

lemma worked_eq:
  "work_exec (exec_step 1) event_of sys_calls
     [Inl (0, \<lambda>_. 0), Inr (Begin_pop 1), Inr (Run 1), Inr (Run 1), Inr (Run 1), Inr (Run 1), Inr (Run 1), Inr (Run 1)] half_worked = Some worked"
  by (simp add: half_worked_def work_simps worked_def demo_work_def exec_simps del: work_exec.simps(2))

lemma worked_reachable: "work_reachable (sys_step 1) event_of sys_calls (start_workers (item_nr 0) [1] demo_work) worked"
  using exec_step_iff [THEN iffD1]
  by (blast intro: work_exec_reachable [OF worked_eq] work_exec_reachable [OF half_worked_eq] work_reachable.start)

lemma wf_item_nr: "wf_item (item_nr x)"
  using wf_blank_item by (simp add: item_nr_def wf_item_def)

theorem workers_put_in_order_witness:
  "made_in_order 1 [item_nr 300000] \<and> mset [item_nr 300000] \<subseteq># mset (returned (wqueue worked)) \<and>
   map snd (handed_log worked) = take (length (handed_log worked)) (map snd (put_log worked))"
proof -
  have "work_reachable (sys_step (length [1])) event_of sys_calls (start_workers (item_nr 0) [1] demo_work) worked"
    using worked_reachable by simp
  from workers_put_in_order [OF demo_work_start _ wf_item_nr this] demo_size show ?thesis
    by (simp add: worked_def entries_of_def)
qed

text \<open>An action of thread \<open>i\<close>.\<close>

definition thread_acts :: "nat \<Rightarrow> nat \<Rightarrow> work_item sys workers \<Rightarrow> bool" where
  "thread_acts np i w \<longleftrightarrow>
     (\<exists>w'. produce (sys_step np) event_of sys_calls i w w' \<or> consume (sys_step np) event_of sys_calls i w w')"

lemma work_step_queue: "work_step qstep who doing w w' \<Longrightarrow> wqueue w' = wqueue w \<or> (\<exists>e. qstep (wqueue w) e (wqueue w'))"
  by (erule work_step.cases; (erule produce.cases | erule consume.cases)?) auto

lemma work_reachable_queue: "work_reachable (sys_step np) who doing w0 w \<Longrightarrow> reachable np (wqueue w0) (wqueue w)"
  by (induction rule: work_reachable.induct) (auto intro: reachable.intros dest!: work_step_queue)

lemma thread_acts_inside: "sys_step np (wqueue w) e s' \<Longrightarrow> event_of e = Moves i \<Longrightarrow> thread_acts np i w"
  unfolding thread_acts_def by (metis produce.in_push consume.in_pop not_le)

text \<open>A worker between two calls can always go on.\<close>

lemma idle_worker_acts:
  assumes ok: "workers_ok sys_calls entered returned ks w" and i: "i < length (pcs (wqueue w))"
    and idle: "pcs (wqueue w) ! i = Idle"
  shows "thread_acts (length ks) i w"
proof -
  have no_call: "sys_calls (wqueue w) ! i = No_call" using i idle by (simp add: sys_calls_def)
  have len: "length (makers w) = length ks" using ok by (simp add: workers_ok_def)
  consider "i < length ks" "m_valid_saved_work_item (makers w ! i)"
    | "i < length ks" "\<not> m_valid_saved_work_item (makers w ! i)" | "length ks \<le> i" by linarith
  then show ?thesis
  proof cases
    case 1
    from sys_step.begin_push [OF 1(1) i idle, of "m_saved_work_item (makers w ! i)"] 1 len show ?thesis
      unfolding thread_acts_def by (metis produce.call_push event_of.simps(1))
  next
    case 2
    then have "wf_item (m_saved_work_item (makers w ! i))" using ok by (simp add: workers_ok_def maker_ok_def)
    from cook_item_spec [OF this, of "makers w ! i" "\<lambda>_. 0"] 2 len no_call show ?thesis
      unfolding thread_acts_def by (metis produce.cook)
  next
    case 3
    from sys_step.begin_pop [OF 3 i idle] 3 len show ?thesis
      unfolding thread_acts_def by (metis consume.call_pop event_of.simps(2))
  qed
qed

text \<open>
  C9: No worker hangs. At every moment, as long as the push counter does not overflow, every producer and consumer can
  act, or waits for the lock of the queue whose holder can act, or is in a timed wait and can act once the time has
  passed its deadline.
\<close>

theorem workers_never_hang:
  assumes "start_sys qjunk sz n now = Inr s0" and "0 < sz" and "sz \<le> MAX_QUEUE_SIZE" and "length ks \<le> n" and "wf_item junk"
    and "work_reachable (sys_step (length ks)) event_of sys_calls (start_workers junk ks s0) w"
    and "i < length (pcs (wqueue w))" and "int (length (put_log w)) < INT_MAX"
  shows "thread_acts (length ks) i w \<or>
    (wants_lock (pcs (wqueue w) ! i) \<and>
      (\<exists>j < length (pcs (wqueue w)). has_lock (pcs (wqueue w) ! j) \<and> thread_acts (length ks) j w)) \<or>
    (\<exists>d. deadline (pcs (wqueue w) ! i) = Some d \<and>
      (\<forall>late. d \<le> late \<longrightarrow> clock (wqueue w) \<le> late \<longrightarrow>
        thread_acts (length ks) i (w\<lparr>wqueue := (wqueue w)\<lparr>clock := late\<rparr>\<rparr>)))"
proof -
  have ok: "workers_ok sys_calls entered returned ks w"
    using assms(1,4,5) by (intro threads_called.work_reachable_ok [OF assms(6)] workers_ok_start)
      (auto simp: start_sys_def sys_calls_def)
  show ?thesis
  proof (cases "pcs (wqueue w) ! i = Idle")
    case True
    from idle_worker_acts [OF ok assms(7) this] show ?thesis ..
  next
    case False
    have "reachable (length ks) s0 (wqueue w)"
      using work_reachable_queue [OF assms(6)] by (simp add: start_workers_def)
    moreover have "length (entered (wqueue w)) = length (put_log w)"
      using ok by (metis length_map workers_ok_def)
    ultimately have "(\<exists>s'. sys_step (length ks) (wqueue w) (Run i) s') \<or> (wants_lock (pcs (wqueue w) ! i) \<and>
        (\<exists>j s'. j < length (pcs (wqueue w)) \<and> has_lock (pcs (wqueue w) ! j) \<and> sys_step (length ks) (wqueue w) (Run j) s')) \<or>
      (\<exists>d. deadline (pcs (wqueue w) ! i) = Some d \<and> (\<forall>late. d \<le> late \<longrightarrow> clock (wqueue w) \<le> late \<longrightarrow>
        (\<exists>s'. sys_step (length ks) ((wqueue w)\<lparr>clock := late\<rparr>) (Expire i) s')))"
      using queue_calls_progress [OF assms(1-3) _ assms(7) False] assms(8) by auto
    moreover have "thread_acts (length ks) j w" if "sys_step (length ks) (wqueue w) (Run j) s'" for j s'
      using thread_acts_inside [OF that] by simp
    moreover have "thread_acts (length ks) i (w\<lparr>wqueue := v\<rparr>)" if "sys_step (length ks) v (Expire i) s'" for v s'
      using thread_acts_inside [of "length ks" "w\<lparr>wqueue := v\<rparr>"] that by simp
    ultimately show ?thesis by blast
  qed
qed

theorem workers_never_hang_witness: "thread_acts 1 0 worked"
proof -
  have "work_reachable (sys_step (length [1])) event_of sys_calls (start_workers (item_nr 0) [1] demo_work) worked"
    using worked_reachable by simp
  from workers_never_hang [OF demo_work_start demo_size _ wf_item_nr this, of 0] show ?thesis
    by (simp add: worked_def demo_work_def INT_MAX_def)
qed

end
