(* ===== verification/Sched_Object.thy ===== *)
theory Sched_Object
  imports Posix
begin

text \<open>
  \<^verbatim>\<open>ScheduledObject\<close>, the base class of producers and consumers (the same file in Chapter 12
  and in both programs of Chapter 14): the scheduler settings the new thread asks for, and the
  life of an object and of the thread that runs its \<^verbatim>\<open>work\<close>.
\<close>

section \<open>The scheduler settings\<close>

record scheduled_object =
  m_thread_policy :: policy
  m_thread_priority :: int
  m_which_core :: int

datatype sched_call =
    Set_schedparam policy int
  | Sorry_non_root
  | Set_affinity "nat set"

text \<open>
  A \<^verbatim>\<open>cpu_set_t\<close> has bits for 1024 processors; \<^verbatim>\<open>CPU_SET\<close> ignores a number that has no bit.
\<close>

definition CPU_SETSIZE :: int where "CPU_SETSIZE = 1024"

definition cpu_set_add :: "int \<Rightarrow> nat set \<Rightarrow> nat set" where
  "cpu_set_add c m = (if 0 \<le> c \<and> c < CPU_SETSIZE then insert (nat c) m else m)"

definition clamp_priority :: "int \<Rightarrow> int \<Rightarrow> int \<Rightarrow> int" where
  "clamp_priority pmin pmax p =
     (let p1 = (if p > pmax then pmax else p) in if p1 < pmin then pmin else p1)"

text \<open>
  The calls that \<^verbatim>\<open>set_scheduler\<close> makes, in order. The priority range of a policy
  (\<^verbatim>\<open>sched_get_priority_min\<close>, \<^verbatim>\<open>sched_get_priority_max\<close>) and the user id are the system's.
\<close>

definition set_scheduler ::
    "(policy \<Rightarrow> int) \<Rightarrow> (policy \<Rightarrow> int) \<Rightarrow> int \<Rightarrow> scheduled_object \<Rightarrow> sched_call list" where
  "set_scheduler pmin pmax uid ob =
     (let pol = m_thread_policy ob;
          prio = clamp_priority (pmin pol) (pmax pol) (m_thread_priority ob)
      in (if pol = SCHED_OTHER then [Set_schedparam SCHED_OTHER prio]
          else if uid \<noteq> 0 then [Sorry_non_root]
          else [Set_schedparam pol prio]) @
         (if m_which_core ob \<noteq> 255 then [Set_affinity (cpu_set_add (m_which_core ob) {})] else []))"

section \<open>The life of an object and its thread\<close>

text \<open>
  \<open>vptr\<close> is the class whose \<^verbatim>\<open>work\<close> a virtual call reaches: the base class's until the derived
  constructor begins, and again once the derived destructor has run. The owner creates the
  object (the base constructor, which ends with \<^verbatim>\<open>pthread_create\<close>; the derived constructor's
  start; its members) and deletes it (the derived destructor; \<^verbatim>\<open>m_run = false\<close>;
  \<^verbatim>\<open>pthread_join\<close>, which waits for the thread; the release of the memory).
\<close>

datatype dispatch = Base_work | Derived_work

datatype owner_pc =
    Unborn | Base_built | Derived_begun | Alive | Derived_gone | Stopping | Joined | Destroyed

datatype thread_pc =
    No_thread | Set_scheduler | Sleeping | Test_run | Call_work | In_work | Exited

record life =
  owner :: owner_pc
  thr :: thread_pc
  m_run :: bool
  vptr :: dispatch
  works :: "(dispatch \<times> owner_pc) list"

datatype life_event = Owner | Thread

definition unborn :: life where
  "unborn = \<lparr>owner = Unborn, thr = No_thread, m_run = False, vptr = Base_work, works = []\<rparr>"

text \<open>The next step of the code that creates and deletes the object.\<close>

definition owner_step :: "life \<Rightarrow> life option" where
  "owner_step s =
     (case owner s of
        Unborn \<Rightarrow> Some (s\<lparr>owner := Base_built, m_run := True, thr := Set_scheduler\<rparr>)
      | Base_built \<Rightarrow> Some (s\<lparr>owner := Derived_begun, vptr := Derived_work\<rparr>)
      | Derived_begun \<Rightarrow> Some (s\<lparr>owner := Alive\<rparr>)
      | Alive \<Rightarrow> Some (s\<lparr>owner := Derived_gone, vptr := Base_work\<rparr>)
      | Derived_gone \<Rightarrow> Some (s\<lparr>owner := Stopping, m_run := False\<rparr>)
      | Stopping \<Rightarrow> (if thr s = Exited then Some (s\<lparr>owner := Joined\<rparr>) else None)
      | Joined \<Rightarrow> Some (s\<lparr>owner := Destroyed\<rparr>)
      | Destroyed \<Rightarrow> None)"

text \<open>The next step of \<^verbatim>\<open>run\<close>. A virtual call is recorded with the class it reaches.\<close>

definition thread_step :: "life \<Rightarrow> life option" where
  "thread_step s =
     (case thr s of
        No_thread \<Rightarrow> None
      | Set_scheduler \<Rightarrow> Some (s\<lparr>thr := Sleeping\<rparr>)
      | Sleeping \<Rightarrow> Some (s\<lparr>thr := Test_run\<rparr>)
      | Test_run \<Rightarrow> Some (s\<lparr>thr := (if m_run s then Call_work else Exited)\<rparr>)
      | Call_work \<Rightarrow> Some (s\<lparr>thr := In_work, works := works s @ [(vptr s, owner s)]\<rparr>)
      | In_work \<Rightarrow> Some (s\<lparr>thr := Test_run\<rparr>)
      | Exited \<Rightarrow> None)"

fun life_step :: "life \<Rightarrow> life_event \<Rightarrow> life option" where
  "life_step s Owner = owner_step s"
| "life_step s Thread = thread_step s"

fun life_run :: "life_event list \<Rightarrow> life \<Rightarrow> life option" where
  "life_run [] s = Some s"
| "life_run (e # es) s = (case life_step s e of None \<Rightarrow> None | Some s' \<Rightarrow> life_run es s')"

lemma life_run_append:
  "life_run (es @ es') s = (case life_run es s of None \<Rightarrow> None | Some s' \<Rightarrow> life_run es' s')"
  by (induction es arbitrary: s) (simp_all split: option.split)

lemmas life_step_defs = owner_step_def thread_step_def unborn_def

text \<open>The owner goes through its life in order; the thread does not change where it is.\<close>

fun next_owner :: "owner_pc \<Rightarrow> owner_pc" where
  "next_owner Unborn = Base_built"
| "next_owner Base_built = Derived_begun"
| "next_owner Derived_begun = Alive"
| "next_owner Alive = Derived_gone"
| "next_owner Derived_gone = Stopping"
| "next_owner Stopping = Joined"
| "next_owner Joined = Destroyed"
| "next_owner Destroyed = Destroyed"

lemma owner_step_next:
  "owner_step l = Some l' \<Longrightarrow> owner l' = next_owner (owner l) \<and> owner l \<noteq> Destroyed"
  by (cases "owner l") (auto simp: owner_step_def split: if_splits)

lemma thread_step_owner: "thread_step l = Some l' \<Longrightarrow> owner l' = owner l"
  by (cases "thr l") (auto simp: thread_step_def split: if_splits)

section \<open>Invariant\<close>

text \<open>The calls made after \<^verbatim>\<open>m_run\<close> was cleared.\<close>

definition late_works :: "life \<Rightarrow> nat" where
  "late_works s = length (filter (\<lambda>(d, o1). o1 = Stopping) (works s))"

text \<open>What the owner's progress says of \<^verbatim>\<open>m_run\<close>, of the class reached, and of the thread.\<close>

definition runs :: "owner_pc \<Rightarrow> bool" where
  "runs o1 \<longleftrightarrow> o1 \<in> {Base_built, Derived_begun, Alive, Derived_gone}"

definition reached :: "owner_pc \<Rightarrow> dispatch" where
  "reached o1 = (if o1 = Derived_begun \<or> o1 = Alive then Derived_work else Base_work)"

definition thread_ok :: "owner_pc \<Rightarrow> thread_pc \<Rightarrow> bool" where
  "thread_ok o1 t \<longleftrightarrow>
     (t = No_thread \<longleftrightarrow> o1 = Unborn) \<and> (o1 = Joined \<or> o1 = Destroyed \<longrightarrow> t = Exited) \<and>
     (t = Exited \<longrightarrow> \<not> runs o1)"

definition call_ok :: "dispatch \<times> owner_pc \<Rightarrow> bool" where
  "call_ok c \<longleftrightarrow> (runs (snd c) \<or> snd c = Stopping) \<and> fst c = reached (snd c)"

definition life_inv :: "life \<Rightarrow> bool" where
  "life_inv s \<longleftrightarrow>
     m_run s = runs (owner s) \<and> vptr s = reached (owner s) \<and> thread_ok (owner s) (thr s) \<and>
     list_all call_ok (works s) \<and> (runs (owner s) \<or> owner s = Unborn \<longrightarrow> late_works s = 0) \<and>
     late_works s + (if thr s = Call_work then 1 else 0) \<le> 1"

lemma life_invD:
  assumes "life_inv s"
  shows "m_run s = runs (owner s)" "vptr s = reached (owner s)" "thread_ok (owner s) (thr s)"
    "list_all call_ok (works s)" "runs (owner s) \<or> owner s = Unborn \<Longrightarrow> late_works s = 0"
    "late_works s + (if thr s = Call_work then 1 else 0) \<le> 1"
  using assms by (simp_all add: life_inv_def)

lemmas progress_defs = runs_def reached_def thread_ok_def

lemma life_inv_unborn: "life_inv unborn"
  by (simp add: life_inv_def unborn_def late_works_def progress_defs)

text \<open>The owner's steps change the object as its progress says.\<close>

lemma owner_step_progress:
  assumes "owner_step s = Some s'" and "life_inv s"
  shows "m_run s' = runs (owner s')" "vptr s' = reached (owner s')" "works s' = works s"
    and "thread_ok (owner s') (thr s')" "thr s' = Call_work \<Longrightarrow> thr s = Call_work"
    and "runs (owner s') \<or> owner s' = Unborn \<Longrightarrow> runs (owner s) \<or> owner s = Unborn"
  using assms(1) life_invD(1,2,3) [OF assms(2)]
  by (cases "owner s"; simp add: owner_step_def progress_defs split: if_splits; fastforce)+

lemma owner_step_inv:
  assumes "owner_step s = Some s'" and inv: "life_inv s"
  shows "life_inv s'"
proof -
  note I = life_invD [OF inv] and O = owner_step_progress [OF assms]
  have "late_works s' = late_works s" using O(3) by (simp add: late_works_def)
  then show ?thesis
    using I O by (auto simp: life_inv_def)
qed

lemma thread_step_inv:
  assumes step: "thread_step s = Some s'" and inv: "life_inv s"
  shows "life_inv s'"
proof (cases "thr s = Call_work")
  case True
  note I = life_invD [OF inv]
  from True step have s': "s' = s\<lparr>thr := In_work, works := works s @ [(vptr s, owner s)]\<rparr>"
    by (simp add: thread_step_def)
  from I(3) True have o: "runs (owner s) \<or> owner s = Stopping"
    by (cases "owner s") (simp_all add: progress_defs)
  with I(2) have "call_ok (vptr s, owner s)" by (simp add: call_ok_def)
  moreover have "late_works s = 0" using I(6) True by simp
  then have "late_works s' = (if owner s = Stopping then 1 else 0)"
    by (simp add: s' late_works_def)
  moreover have "thread_ok (owner s) In_work"
    using I(3) True by (simp add: thread_ok_def)
  ultimately show ?thesis
    using I(1,2,4) by (simp add: life_inv_def s' runs_def)
next
  case False
  note I = life_invD [OF inv]
  from step have same: "owner s' = owner s" "m_run s' = m_run s" "vptr s' = vptr s"
    and works: "works s' = works s"
    using False by (cases "thr s"; force simp: thread_step_def)+
  from works have late: "late_works s' = late_works s" by (simp add: late_works_def)
  have "thread_ok (owner s) (thr s')"
    using step False I(1,3) by (cases "thr s") (auto simp: thread_step_def thread_ok_def)
  moreover have "late_works s = 0" if "thr s' = Call_work"
    using step False I(1,5) that by (cases "thr s") (auto simp: thread_step_def split: if_splits)
  ultimately show ?thesis
    using I by (auto simp: life_inv_def same works late)
qed

lemma life_run_inv: "life_run es s = Some s' \<Longrightarrow> life_inv s \<Longrightarrow> life_inv s'"
proof (induction es arbitrary: s)
  case (Cons e es)
  then obtain s1 where s1: "life_step s e = Some s1" "life_run es s1 = Some s'"
    by (auto split: option.splits)
  from s1(1) Cons.prems(2) have "life_inv s1"
    by (cases e) (auto intro: owner_step_inv thread_step_inv)
  with s1(2) show ?case by (rule Cons.IH)
qed simp

lemma unborn_run_inv: "life_run es unborn = Some s \<Longrightarrow> life_inv s"
  using life_run_inv life_inv_unborn by blast

section \<open>Properties\<close>

text \<open>
  \<^verbatim>\<open>set_scheduler\<close> asks for a priority inside the range of the policy, never asks for a
  real-time policy when the process is not root's, and binds the thread to its core alone, or
  leaves the affinity as it is when the core is 255.
\<close>

lemma set_scheduler_allowed:
  assumes "\<And>pol. pmin pol \<le> pmax pol"
  shows "(\<forall>pol prio. Set_schedparam pol prio \<in> set (set_scheduler pmin pmax uid ob) \<longrightarrow>
            pol = m_thread_policy ob \<and> pmin pol \<le> prio \<and> prio \<le> pmax pol \<and>
            (pol = SCHED_OTHER \<or> uid = 0) \<and>
            (pmin pol \<le> m_thread_priority ob \<and> m_thread_priority ob \<le> pmax pol \<longrightarrow>
               prio = m_thread_priority ob)) \<and>
         (Sorry_non_root \<in> set (set_scheduler pmin pmax uid ob) \<longleftrightarrow>
            m_thread_policy ob \<noteq> SCHED_OTHER \<and> uid \<noteq> 0) \<and>
         (\<forall>m. Set_affinity m \<in> set (set_scheduler pmin pmax uid ob) \<longleftrightarrow>
            m_which_core ob \<noteq> 255 \<and>
            m = (if 0 \<le> m_which_core ob \<and> m_which_core ob < 1024 then {nat (m_which_core ob)} else {}))"
  using assms [of "m_thread_policy ob"]
  by (auto simp: set_scheduler_def clamp_priority_def Let_def cpu_set_add_def CPU_SETSIZE_def)

text \<open>The settings of the simulator: priority 1000, the first core real-time, run by root.\<close>

definition linux_pmin :: "policy \<Rightarrow> int" where
  "linux_pmin pol = (if pol = SCHED_OTHER then 0 else 1)"

definition linux_pmax :: "policy \<Rightarrow> int" where
  "linux_pmax pol = (if pol = SCHED_OTHER then 0 else 99)"

theorem set_scheduler_allowed_witness:
  "let ob = \<lparr>m_thread_policy = SCHED_RR, m_thread_priority = 1000, m_which_core = 0\<rparr>
   in set_scheduler linux_pmin linux_pmax 0 ob = [Set_schedparam SCHED_RR 99, Set_affinity {0}] \<and>
      Sorry_non_root \<notin> set (set_scheduler linux_pmin linux_pmax 0 ob)"
  using set_scheduler_allowed [of linux_pmin linux_pmax 0
      "\<lparr>m_thread_policy = SCHED_RR, m_thread_priority = 1000, m_which_core = 0\<rparr>"]
  by (simp add: linux_pmin_def linux_pmax_def set_scheduler_def clamp_priority_def cpu_set_add_def
      CPU_SETSIZE_def)

text \<open>
  C21: Deleting an object cannot free it under its thread: when the memory is released the
  thread has left \<^verbatim>\<open>run\<close> and takes no further step. After \<^verbatim>\<open>m_run\<close> is cleared at most one more
  call of \<^verbatim>\<open>work\<close> is made; a call made while the object is alive reaches the derived class,
  and any call made after the derived destructor reaches the base class.
\<close>

theorem thread_gone_before_release:
  assumes "life_run es unborn = Some s"
  shows "(owner s = Destroyed \<longrightarrow> thr s = Exited \<and> thread_step s = None) \<and> late_works s \<le> 1 \<and>
         (\<forall>(d, o1) \<in> set (works s). o1 \<notin> {Unborn, Joined, Destroyed} \<and>
            (o1 = Alive \<longrightarrow> d = Derived_work) \<and>
            (o1 \<in> {Derived_gone, Stopping} \<longrightarrow> d = Base_work))"
proof -
  note I = life_invD [OF unborn_run_inv [OF assms]]
  have "o1 \<notin> {Unborn, Joined, Destroyed} \<and> (o1 = Alive \<longrightarrow> d = Derived_work) \<and>
      (o1 \<in> {Derived_gone, Stopping} \<longrightarrow> d = Base_work)" if "(d, o1) \<in> set (works s)" for d o1
  proof -
    from I(4) that have "call_ok (d, o1)" by (auto simp: list_all_iff)
    then show ?thesis by (cases o1) (simp_all add: call_ok_def progress_defs)
  qed
  moreover have "late_works s \<le> 1" using I(6) by linarith
  moreover have "thr s = Exited" if "owner s = Destroyed" using I(3) that by (simp add: thread_ok_def)
  ultimately show ?thesis by (auto simp: thread_step_def)
qed

definition short_life :: "life_event list" where
  "short_life = [Owner, Thread, Thread, Owner, Owner, Thread, Thread, Thread, Thread, Owner, Owner,
     Thread, Thread, Thread, Owner, Owner]"

theorem thread_gone_before_release_witness:
  "\<exists>s. life_run short_life unborn = Some s \<and> owner s = Destroyed \<and> thr s = Exited \<and>
       works s = [(Derived_work, Alive), (Base_work, Stopping)]"
proof -
  let ?s = "\<lparr>owner = Destroyed, thr = Exited, m_run = False, vptr = Base_work,
      works = [(Derived_work, Alive), (Base_work, Stopping)]\<rparr>"
  have run: "life_run short_life unborn = Some ?s"
    by (simp add: short_life_def life_step_defs)
  from thread_gone_before_release [OF run] have "thr ?s = Exited" by simp
  with run show ?thesis by auto
qed

text \<open>
  C22: The destructor returns: from every state in which the owner waits in \<^verbatim>\<open>pthread_join\<close>, at most
  five steps of the thread take it out of \<^verbatim>\<open>run\<close>, whatever happened before, and then the join and
  the release can be made.
\<close>

theorem destructor_returns:
  assumes "life_run es unborn = Some s" and "owner s = Stopping"
  shows "\<exists>n s'. n \<le> 5 \<and> life_run (replicate n Thread @ [Owner, Owner]) s = Some s' \<and> owner s' = Destroyed"
proof -
  from life_invD(1,3) [OF unborn_run_inv [OF assms(1)]] assms(2) have "\<not> m_run s" "thr s \<noteq> No_thread"
    by (auto simp: progress_defs)
  then have "\<exists>n s'. n \<le> 5 \<and> life_run (replicate n Thread) s = Some s' \<and> thr s' = Exited \<and> owner s' = Stopping"
  proof (cases "thr s")
    case Set_scheduler
    with \<open>\<not> m_run s\<close> assms(2) show ?thesis
      by (intro exI [of _ 3]) (simp add: numeral_3_eq_3 thread_step_def)
  next
    case Sleeping
    with \<open>\<not> m_run s\<close> assms(2) show ?thesis
      by (intro exI [of _ 2]) (simp add: numeral_2_eq_2 thread_step_def)
  next
    case Test_run
    with \<open>\<not> m_run s\<close> assms(2) show ?thesis
      by (intro exI [of _ 1]) (simp add: thread_step_def)
  next
    case Call_work
    with \<open>\<not> m_run s\<close> assms(2) show ?thesis
      by (intro exI [of _ 3]) (simp add: numeral_3_eq_3 thread_step_def)
  next
    case In_work
    with \<open>\<not> m_run s\<close> assms(2) show ?thesis
      by (intro exI [of _ 2]) (simp add: numeral_2_eq_2 thread_step_def)
  next
    case Exited
    with assms(2) show ?thesis by (intro exI [of _ 0]) simp
  qed simp
  then obtain n t where t: "n \<le> 5" "life_run (replicate n Thread) s = Some t" "thr t = Exited"
    "owner t = Stopping" by blast
  have "life_run [Owner, Owner] t = Some (t\<lparr>owner := Destroyed\<rparr>)"
    using t(3,4) by (simp add: owner_step_def)
  with t show ?thesis by (intro exI [of _ n]) (simp add: life_run_append)
qed

theorem destructor_returns_witness:
  "\<exists>s n s'. life_run [Owner, Owner, Owner, Thread, Owner, Owner] unborn = Some s \<and>
     n \<le> 5 \<and> life_run (replicate n Thread @ [Owner, Owner]) s = Some s' \<and> owner s' = Destroyed"
proof -
  let ?es = "[Owner, Owner, Owner, Thread, Owner, Owner]"
  let ?s = "\<lparr>owner = Stopping, thr = Sleeping, m_run = False, vptr = Base_work, works = []\<rparr>"
  have run: "life_run ?es unborn = Some ?s" by (simp add: life_step_defs)
  from destructor_returns [OF run] show ?thesis unfolding run by simp
qed

text \<open>
  The derived part is gone before \<^verbatim>\<open>m_run\<close> is cleared, so the thread can call the base class's
  \<^verbatim>\<open>work\<close> ("Default work is running") any number of times while its object is being deleted.
\<close>

lemma default_work_runs_during_delete:
  "\<exists>es s. life_run es unborn = Some s \<and> owner s = Destroyed \<and>
     length (filter (\<lambda>c. c = (Base_work, Derived_gone)) (works s)) = n"
proof -
  obtain born where born_def: "born = \<lparr>owner = Derived_gone, thr = Test_run, m_run = True, vptr = Base_work, works = []\<rparr>"
    by blast
  let ?rounds = "concat (replicate n [Thread, Thread, Thread])"
  have rounds: "life_run (concat (replicate m [Thread, Thread, Thread])) born
      = Some (born\<lparr>works := replicate m (Base_work, Derived_gone)\<rparr>)" for m
  proof (induction m)
    case (Suc m)
    have "concat (replicate (Suc m) [Thread, Thread, Thread])
        = concat (replicate m [Thread, Thread, Thread]) @ [Thread, Thread, Thread]"
      by (induction m) simp_all
    then show ?case
      by (simp only: life_run_append Suc option.case)
        (simp add: born_def thread_step_def replicate_append_same)
  qed (simp add: born_def)
  have "life_run ([Owner, Thread, Thread, Owner, Owner, Owner] @ ?rounds @ [Owner, Thread, Owner, Owner]) unborn
      = Some \<lparr>owner = Destroyed, thr = Exited, m_run = False, vptr = Base_work,
              works = replicate n (Base_work, Derived_gone)\<rparr>"
    unfolding life_run_append
    using rounds [of n] by (simp add: life_step_defs born_def)
  then show ?thesis by (intro exI conjI) (assumption, simp_all)
qed

end
