(* ===== verification/C_Text.thy ===== *)
theory C_Text
  imports Prelude
begin

text \<open>
  Numbers as text in fixed character arrays: the function \<^verbatim>\<open>itoa\<close> of Chapter 14, by which the
  parent simulation hands its arguments to its children, the \<^verbatim>\<open>atoi\<close> of the C library that
  reads them back there, the client's own \<^verbatim>\<open>atoi\<close> of Chapter 15, and the decimal conversion of
  \<^verbatim>\<open>sprintf\<close> by which the programs make names.
\<close>

type_synonym byte = "8 word"

text \<open>The bytes of a literal of the source.\<close>

definition bytes :: "string \<Rightarrow> byte list" where
  "bytes s = map (\<lambda>c. of_nat (of_char c)) s"

lemma length_bytes [simp]: "length (bytes s) = length s"
  by (simp add: bytes_def)

section \<open>The function itoa of Chapter 14\<close>

definition digit_char :: "32 word \<Rightarrow> byte" where
  "digit_char r = ucast (if r < 10 then r + 48 else r - 10 + 65)"

text \<open>
  The first loop: it writes the digits from index \<open>i\<close> on, the last one first. It ends in a
  fault with base 0 and, running past the array, with base 1.
\<close>

function itoa_digits :: "32 word \<Rightarrow> 32 word \<Rightarrow> nat \<Rightarrow> byte list \<Rightarrow> (nat \<times> byte list) result" where
  "itoa_digits base n i d =
     (if n = 0 then Inr (i, d)
      else if base = 0 then Inl Division_by_zero
      else (case array_set d (int i) (digit_char (n mod base)) of
              Inl e \<Rightarrow> Inl e
            | Inr d' \<Rightarrow> itoa_digits base (n div base) (Suc i) d'))"
  by pat_completeness auto
termination
  by (relation "measure (\<lambda>(base, n, i, d). length d - i)")
    (auto simp: array_set_nat split: if_splits)

declare itoa_digits.simps [simp del]

text \<open>The second loop: it swaps the bytes at both ends and moves inwards.\<close>

function swap_ends :: "int \<Rightarrow> int \<Rightarrow> byte list \<Rightarrow> byte list result" where
  "swap_ends i j d =
     (if i < j
      then (case array_get d i of
              Inl e \<Rightarrow> Inl e
            | Inr a \<Rightarrow>
                (case bind_result (array_get d j) (\<lambda>b.
                        bind_result (array_set d i b) (\<lambda>d1. array_set d1 j a)) of
                   Inl e \<Rightarrow> Inl e
                 | Inr d2 \<Rightarrow> swap_ends (i + 1) (j - 1) d2))
      else Inr d)"
  by pat_completeness auto
termination
  by (relation "measure (\<lambda>(i, j, d). nat (j - i))") auto

declare swap_ends.simps [simp del]

definition itoa :: "32 word \<Rightarrow> byte list \<Rightarrow> 32 word \<Rightarrow> byte list result" where
  "itoa n str base =
     (if n = 0
      then bind_result (array_set str 0 48) (\<lambda>d. array_set d 1 0)
      else bind_result (itoa_digits base n 0 str) (\<lambda>(i, d).
           bind_result (array_set d (int i) 0) (\<lambda>d'. swap_ends 0 (int i - 1) d')))"

section \<open>The number's digits\<close>

text \<open>The digits of a number from the lowest on, and its usual text.\<close>

function low_digits :: "nat \<Rightarrow> nat \<Rightarrow> nat list" where
  "low_digits b n = (if n = 0 \<or> b < 2 then [] else n mod b # low_digits b (n div b))"
  by pat_completeness auto
termination
  by (relation "measure snd") auto

declare low_digits.simps [simp del]

lemma low_digits_0 [simp]: "low_digits b 0 = []"
  by (simp add: low_digits.simps)

lemma low_digits_step: "0 < n \<Longrightarrow> 2 \<le> b \<Longrightarrow> low_digits b n = n mod b # low_digits b (n div b)"
  by (subst low_digits.simps) simp

definition numeral_text :: "nat \<Rightarrow> nat \<Rightarrow> byte list" where
  "numeral_text b n =
     (if n = 0 then [48] else map (\<lambda>r. digit_char (of_nat r)) (rev (low_digits b n)))"

lemma low_digits_value: "2 \<le> b \<Longrightarrow> foldr (\<lambda>r a. r + b * a) (low_digits b n) 0 = n"
  by (induction b n rule: low_digits.induct) (subst low_digits.simps, simp)

lemma low_digits_less: "2 \<le> b \<Longrightarrow> r \<in> set (low_digits b n) \<Longrightarrow> r < b"
proof (induction b n rule: low_digits.induct)
  case (1 b n)
  show ?case
  proof (cases "n = 0")
    case False
    with 1 show ?thesis by (auto simp: low_digits_step)
  qed (use 1 in simp)
qed

lemma low_digits_length: "2 \<le> b \<Longrightarrow> n < b ^ k \<Longrightarrow> length (low_digits b n) \<le> k"
proof (induction k arbitrary: n)
  case (Suc k)
  show ?case
  proof (cases "n = 0")
    case False
    from Suc.prems have "n div b < b ^ k"
      by (intro less_mult_imp_div_less) (simp add: mult.commute)
    with Suc False show ?thesis by (simp add: low_digits_step)
  qed simp
qed simp

lemma low_digits_length_ge: "2 \<le> b \<Longrightarrow> b ^ k \<le> n \<Longrightarrow> k < length (low_digits b n)"
proof (induction k arbitrary: n)
  case 0
  then show ?case by (simp add: low_digits_step)
next
  case (Suc k)
  have "0 < b ^ Suc k" using Suc.prems(1) by simp
  then have "0 < n" using Suc.prems(2) by linarith
  have "b ^ k \<le> n div b"
    using Suc.prems by (simp add: less_eq_div_iff_mult_less_eq mult.commute)
  from Suc.IH [OF Suc.prems(1) this] \<open>0 < n\<close> Suc.prems(1) show ?case by (simp add: low_digits_step)
qed

lemma numeral_text_length_le:
  "2 \<le> b \<Longrightarrow> n < b ^ Suc k \<Longrightarrow> length (numeral_text b n) \<le> Suc k"
  using low_digits_length [of b n "Suc k"] by (simp add: numeral_text_def)

lemma numeral_text_length_gt:
  "2 \<le> b \<Longrightarrow> b ^ k \<le> n \<Longrightarrow> k < length (numeral_text b n)"
  using low_digits_length_ge [of b k n] by (auto simp: numeral_text_def)

section \<open>Both loops\<close>

lemma itoa_digits_fits:
  assumes "2 \<le> unat base" and "i + length (low_digits (unat base) (unat n)) \<le> length d"
  shows "itoa_digits base n i d =
    Inr (i + length (low_digits (unat base) (unat n)),
         take i d @ map (\<lambda>r. digit_char (of_nat r)) (low_digits (unat base) (unat n))
         @ drop (i + length (low_digits (unat base) (unat n))) d)"
  using assms
proof (induction base n i d rule: itoa_digits.induct)
  case (1 base n i d)
  show ?case
  proof (cases "n = 0")
    case True
    then show ?thesis by (simp add: itoa_digits.simps)
  next
    case False
    let ?b = "unat base" and ?c = "digit_char (n mod base)"
    let ?ds = "low_digits ?b (unat (n div base))"
    have pos: "0 < unat n" using False by (simp add: unat_gt_0)
    have base: "base \<noteq> 0" using 1(2) by auto
    have ds: "low_digits ?b (unat n) = unat (n mod base) # ?ds"
      using low_digits_step [OF pos 1(2)] by (simp add: unat_div unat_mod)
    have i: "i < length d" using 1(3) ds by simp
    have "Suc i + length ?ds \<le> length (d[i := ?c])" using 1(3) ds by simp
    from 1(1) [OF False base _ 1(2) this] i
    have "itoa_digits base (n div base) (Suc i) (d[i := ?c])
        = Inr (Suc i + length ?ds, take (Suc i) (d[i := ?c]) @ map (\<lambda>r. digit_char (of_nat r)) ?ds
            @ drop (Suc i + length ?ds) (d[i := ?c]))"
      by (simp add: array_set_nat)
    moreover have "take (Suc i) (d[i := ?c]) = take i d @ [?c]"
      using i by (simp add: take_Suc_conv_app_nth)
    ultimately show ?thesis
      using i False base by (subst itoa_digits.simps) (simp add: array_set_nat ds)
  qed
qed

lemma itoa_digits_overruns:
  assumes "2 \<le> unat base" and "i \<le> length d" and "length d < i + length (low_digits (unat base) (unat n))"
  shows "itoa_digits base n i d = Inl Out_of_bounds"
  using assms
proof (induction base n i d rule: itoa_digits.induct)
  case (1 base n i d)
  have n: "n \<noteq> 0" using 1(3,4) by auto
  have base: "base \<noteq> 0" using 1(2) by auto
  have pos: "0 < unat n" using n by (simp add: unat_gt_0)
  have ds: "length (low_digits (unat base) (unat n))
      = Suc (length (low_digits (unat base) (unat (n div base))))"
    using low_digits_step [OF pos 1(2)] by (simp add: unat_div)
  show ?case
  proof (cases "i < length d")
    case True
    with 1(1) [OF n base _ 1(2), of "d[i := digit_char (n mod base)]"] 1(4) ds show ?thesis
      using n base by (subst itoa_digits.simps) (simp add: array_set_nat)
  next
    case False
    with n base show ?thesis by (subst itoa_digits.simps) (simp add: array_set_nat)
  qed
qed

lemma swap_ends_rev:
  "swap_ends (int (length pre)) (int (length pre + length mid) - 1) (pre @ mid @ post)
   = Inr (pre @ rev mid @ post)"
proof (induction mid arbitrary: pre post rule: length_induct)
  case (1 mid)
  show ?case
  proof (cases "length mid \<le> 1")
    case True
    then have "rev mid = mid" by (cases mid) auto
    with True show ?thesis by (subst swap_ends.simps) simp
  next
    case False
    then obtain x ms y where mid: "mid = x # ms @ [y]"
      by (metis (no_types, lifting) One_nat_def append_butlast_last_id length_0_conv length_Cons
          list.exhaust nle_le not_less_eq_eq)
    from 1 [rule_format, of ms "pre @ [y]" "x # post"] mid
    have IH: "swap_ends (int (length pre) + 1) (int (length pre + length ms)) (pre @ y # ms @ x # post)
        = Inr (pre @ y # rev ms @ x # post)"
      by (simp add: ac_simps)
    have get1: "array_get (pre @ x # ms @ y # post) (int (length pre)) = Inr x"
      by (simp add: array_get_def)
    have last1: "int (length pre + length mid) - 1 = int (length pre + Suc (length ms))"
      by (simp add: mid)
    have get2: "array_get (pre @ x # ms @ y # post) (int (length pre + Suc (length ms))) = Inr y"
      by (simp add: array_get_def nth_append del: of_nat_add of_nat_Suc)
    have set1: "array_set (pre @ x # ms @ y # post) (int (length pre)) y = Inr (pre @ y # ms @ y # post)"
      by (simp add: array_set_def)
    have set2: "array_set (pre @ y # ms @ y # post) (int (length pre + Suc (length ms))) x
        = Inr (pre @ y # ms @ x # post)"
      by (simp add: array_set_def list_update_append del: of_nat_add of_nat_Suc)
    have inward: "int (length pre + Suc (length ms)) - 1 = int (length pre + length ms)"
      and apart: "int (length pre) < int (length pre + Suc (length ms))"
      by simp_all
    have "swap_ends (int (length pre)) (int (length pre + Suc (length ms))) (pre @ x # ms @ y # post)
        = Inr (pre @ y # rev ms @ x # post)"
      by (subst swap_ends.simps)
        (simp only: apart if_True get1 get2 set1 set2 bind_result_Inr sum.case inward IH)
    then show ?thesis
      unfolding last1 by (simp only: mid append.simps append_assoc rev.simps rev_append)
  qed
qed

text \<open>
  \<^verbatim>\<open>itoa\<close> writes the number's text and a terminator at the front of the array, or runs past the
  array, whichever the array's length says.
\<close>

lemma itoa_exact:
  assumes "2 \<le> unat base"
  shows "itoa n str base =
    (let t = numeral_text (unat base) (unat n)
     in if length t < length str then Inr (t @ 0 # drop (Suc (length t)) str) else Inl Out_of_bounds)"
proof (cases "n = 0")
  case True
  then show ?thesis
    by (cases str rule: list.exhaust; cases "tl str")
      (auto simp: itoa_def numeral_text_def array_set_def)
next
  case False
  let ?ds = "low_digits (unat base) (unat n)"
  let ?t = "map (\<lambda>r. digit_char (of_nat r)) ?ds"
  have nz: "0 < unat n" using False by (simp add: unat_gt_0)
  have t: "numeral_text (unat base) (unat n) = rev ?t"
    using nz by (simp add: numeral_text_def rev_map)
  have len: "0 < length ?ds" using low_digits_step [of "unat n"] nz assms by simp
  consider "length ?ds < length str" | "length ?ds = length str" | "length str < length ?ds" by linarith
  then show ?thesis
  proof cases
    case 1
    have "(?t @ drop (length ?ds) str)[length ?ds := 0] = ?t @ 0 # drop (Suc (length ?ds)) str"
      using 1 by (simp add: list_update_append Cons_nth_drop_Suc [symmetric])
    moreover have "swap_ends 0 (int (length ?ds) - 1) (?t @ 0 # drop (Suc (length ?ds)) str)
        = Inr (rev ?t @ 0 # drop (Suc (length ?ds)) str)"
      using swap_ends_rev [of "[]" ?t "0 # drop (Suc (length ?ds)) str"] by simp
    ultimately show ?thesis
      using 1 False itoa_digits_fits [OF assms, of 0 n str]
      by (simp add: itoa_def t array_set_nat)
  next
    case 2
    then show ?thesis
      using False itoa_digits_fits [OF assms, of 0 n str] by (simp add: itoa_def t array_set_nat)
  next
    case 3
    then show ?thesis
      using False itoa_digits_overruns [OF assms, of 0 str n] by (simp add: itoa_def t)
  qed
qed

section \<open>Reading numbers\<close>

definition is_digit :: "byte \<Rightarrow> bool" where
  "is_digit c \<longleftrightarrow> 48 \<le> unat c \<and> unat c \<le> 57"

definition digit_of :: "byte \<Rightarrow> int" where
  "digit_of c = int (unat c) - 48"

text \<open>One digit more: \<^verbatim>\<open>10 * result + r\<close> in the arithmetic of int.\<close>

definition shift_in :: "int \<Rightarrow> byte \<Rightarrow> int result" where
  "shift_in acc c = bind_result (int_mul 10 acc) (\<lambda>x. int_add x (digit_of c))"

text \<open>
  The C library's \<^verbatim>\<open>atoi\<close> (ISO C 7.22.1.2): white space, a sign, digits up to the first other
  byte; undefined when the value is not an int, and when the array has no terminator.
\<close>

fun atoi_loop :: "int \<Rightarrow> int \<Rightarrow> byte list \<Rightarrow> int result" where
  "atoi_loop sig acc [] = Inl Out_of_bounds"
| "atoi_loop sig acc (c # cs) =
     (if is_digit c
      then bind_result (int_mul 10 acc) (\<lambda>x.
           bind_result (int_add x (sig * digit_of c)) (\<lambda>y. atoi_loop sig y cs))
      else Inr acc)"

definition is_space :: "byte \<Rightarrow> bool" where
  "is_space c \<longleftrightarrow> unat c = 32 \<or> 9 \<le> unat c \<and> unat c \<le> 13"

definition c_atoi :: "byte list \<Rightarrow> int result" where
  "c_atoi str =
     (case dropWhile is_space str of
        [] \<Rightarrow> Inl Out_of_bounds
      | c # cs \<Rightarrow> if c = 45 then atoi_loop (-1) 0 cs
                   else if c = 43 then atoi_loop 1 0 cs
                   else atoi_loop 1 0 (c # cs))"

text \<open>
  The client's \<^verbatim>\<open>atoi\<close>: digits up to the terminator; any other byte makes it return 10. A byte
  from 128 on is negative as a \<^verbatim>\<open>char\<close>, so no digit either.
\<close>

fun client_atoi_loop :: "int \<Rightarrow> byte list \<Rightarrow> int result" where
  "client_atoi_loop acc [] = Inl Out_of_bounds"
| "client_atoi_loop acc (c # cs) =
     (if c = 0 then Inr acc
      else if \<not> is_digit c then Inr 10
      else bind_result (shift_in acc c) (\<lambda>y. client_atoi_loop y cs))"

definition client_atoi :: "byte list \<Rightarrow> int result" where
  "client_atoi str = client_atoi_loop 0 str"

text \<open>The value of a text of digits.\<close>

definition decimal_value :: "int \<Rightarrow> byte list \<Rightarrow> int" where
  "decimal_value acc ds = foldl (\<lambda>a c. 10 * a + digit_of c) acc ds"

lemma decimal_value_simps [simp]:
  "decimal_value acc [] = acc"
  "decimal_value acc (c # cs) = decimal_value (10 * acc + digit_of c) cs"
  "decimal_value acc (cs @ [c]) = 10 * decimal_value acc cs + digit_of c"
  by (simp_all add: decimal_value_def)

lemma digit_of_range: "is_digit c \<Longrightarrow> 0 \<le> digit_of c \<and> digit_of c \<le> 9"
  unfolding is_digit_def digit_of_def by linarith

lemma decimal_value_mono:
  "list_all is_digit ds \<Longrightarrow> 0 \<le> acc \<Longrightarrow> acc \<le> decimal_value acc ds"
proof (induction ds arbitrary: acc)
  case (Cons c ds)
  from Cons.prems digit_of_range [of c] have "acc \<le> 10 * acc + digit_of c" "0 \<le> 10 * acc + digit_of c"
    by auto
  with Cons.IH [of "10 * acc + digit_of c"] Cons.prems show ?case by simp
qed simp

lemma shift_in_eq:
  assumes "is_digit c" and "0 \<le> acc"
  shows "shift_in acc c =
    (if 10 * acc + digit_of c \<le> INT_MAX then Inr (10 * acc + digit_of c) else Inl Signed_overflow)"
  using digit_of_range [OF assms(1)] assms(2)
  by (auto simp: shift_in_def int_mul_def int_add_def checked_def in_int_def INT_MAX_def INT_MIN_def)

lemma atoi_loop_digits:
  assumes "list_all is_digit ds" and "0 \<le> acc" and "decimal_value acc ds \<le> INT_MAX"
  shows "atoi_loop 1 acc (ds @ rest) = atoi_loop 1 (decimal_value acc ds) rest"
  using assms
proof (induction ds arbitrary: acc)
  case (Cons c ds)
  then have c: "is_digit c" and acc: "0 \<le> 10 * acc + digit_of c"
    using digit_of_range [of c] by auto
  have "10 * acc + digit_of c \<le> INT_MAX"
    using decimal_value_mono [of ds "10 * acc + digit_of c"] acc Cons.prems by simp
  with shift_in_eq [OF c Cons.prems(2)]
  have "bind_result (int_mul 10 acc) (\<lambda>x. int_add x (digit_of c)) = Inr (10 * acc + digit_of c)"
    by (simp add: shift_in_def)
  then obtain x where "int_mul 10 acc = Inr x" "int_add x (digit_of c) = Inr (10 * acc + digit_of c)"
    by auto
  then have "atoi_loop 1 acc ((c # ds) @ rest) = atoi_loop 1 (10 * acc + digit_of c) (ds @ rest)"
    using c by simp
  also have "\<dots> = atoi_loop 1 (decimal_value acc (c # ds)) rest"
    using Cons.IH [of "10 * acc + digit_of c"] acc Cons.prems by simp
  finally show ?case .
qed simp

section \<open>The text of a number is read back as the number\<close>

lemma digit_char_decimal:
  assumes "r < 10"
  shows "is_digit (digit_char (of_nat r))" "digit_of (digit_char (of_nat r)) = int r"
proof -
  have "unat (digit_char (of_nat r)) = 48 + r"
  proof -
    have "(of_nat r :: 32 word) < 10"
      using assms by (simp add: word_less_nat_alt unat_of_nat_small)
    then have "unat (digit_char (of_nat r)) = unat ((of_nat r :: 32 word) + 48) mod 256"
      by (simp add: digit_char_def unsigned_ucast_eq take_bit_eq_mod)
    also have "(of_nat r :: 32 word) + 48 = of_nat (48 + r)" by simp
    also have "unat (of_nat (48 + r) :: 32 word) = 48 + r"
      using assms by (intro unat_of_nat_small) simp
    finally show ?thesis using assms by simp
  qed
  then show "is_digit (digit_char (of_nat r))" "digit_of (digit_char (of_nat r)) = int r"
    using assms by (simp_all add: is_digit_def digit_of_def)
qed

lemma numeral_text_digits: "list_all is_digit (numeral_text 10 n)"
  using low_digits_less [of 10 _ n]
  by (auto simp: numeral_text_def list_all_iff is_digit_def intro!: digit_char_decimal [unfolded is_digit_def])

lemma low_digits_text_value:
  "decimal_value 0 (map (\<lambda>r. digit_char (of_nat r)) (rev (low_digits 10 n))) = int n"
proof (induction n rule: less_induct)
  case (less n)
  show ?case
  proof (cases "n = 0")
    case False
    then have "n div 10 < n" by simp
    moreover have "10 * int (n div 10) + int (n mod 10) = int n" by presburger
    ultimately show ?thesis
      using less [of "n div 10"] False by (simp add: low_digits_step digit_char_decimal)
  qed simp
qed

lemma numeral_text_value: "decimal_value 0 (numeral_text 10 n) = int n"
  using low_digits_text_value [of n] by (simp add: numeral_text_def digit_of_def)

lemma numeral_text_nonempty: "numeral_text b n = [] \<Longrightarrow> b < 2"
  by (cases "b < 2") (auto simp: numeral_text_def low_digits_step split: if_splits)

lemma c_atoi_numeral:
  assumes "int n \<le> INT_MAX"
  shows "c_atoi (numeral_text 10 n @ 0 # rest) = Inr (int n)"
proof -
  obtain c cs where t: "numeral_text 10 n = c # cs"
    using numeral_text_nonempty [of 10 n] by (cases "numeral_text 10 n") auto
  have c: "is_digit c" using numeral_text_digits [of n] by (simp add: t)
  then have "\<not> is_space c" and nosign: "c \<noteq> 45" "c \<noteq> 43" by (auto simp: is_digit_def is_space_def)
  then have "c_atoi (numeral_text 10 n @ 0 # rest) = atoi_loop 1 0 (numeral_text 10 n @ 0 # rest)"
    unfolding c_atoi_def t by (simp del: atoi_loop.simps)
  also have "\<dots> = atoi_loop 1 (int n) (0 # rest)"
    using atoi_loop_digits [OF numeral_text_digits, of 0 n "0 # rest"] assms
    by (simp add: numeral_text_value)
  also have "\<dots> = Inr (int n)" by (simp add: is_digit_def)
  finally show ?thesis .
qed

lemma client_atoi_loop_digits:
  assumes "list_all is_digit ds" and "0 \<le> acc" and "decimal_value acc ds \<le> INT_MAX"
  shows "client_atoi_loop acc (ds @ rest) = client_atoi_loop (decimal_value acc ds) rest"
  using assms
proof (induction ds arbitrary: acc)
  case (Cons c ds)
  then have c: "is_digit c" and acc: "0 \<le> 10 * acc + digit_of c"
    using digit_of_range [of c] by auto
  then have nz: "c \<noteq> 0" by (auto simp: is_digit_def)
  have "10 * acc + digit_of c \<le> INT_MAX"
    using decimal_value_mono [of ds "10 * acc + digit_of c"] acc Cons.prems by simp
  then have "shift_in acc c = Inr (10 * acc + digit_of c)"
    using shift_in_eq [OF c Cons.prems(2)] by simp
  then show ?case
    using Cons.IH [of "10 * acc + digit_of c"] acc Cons.prems c nz by simp
qed simp

lemma client_atoi_numeral:
  "int n \<le> INT_MAX \<Longrightarrow> client_atoi (numeral_text 10 n @ 0 # rest) = Inr (int n)"
  using client_atoi_loop_digits [OF numeral_text_digits, of 0 n "0 # rest"]
  by (simp add: client_atoi_def numeral_text_value)

section \<open>Text made by sprintf\<close>

text \<open>The conversion \<^verbatim>\<open>%d\<close>.\<close>

definition decimal_text :: "int \<Rightarrow> byte list" where
  "decimal_text x = (if x < 0 then 45 # numeral_text 10 (nat (- x)) else numeral_text 10 (nat x))"

text \<open>\<^verbatim>\<open>sprintf\<close> into an array, for a format that ends in its only conversion.\<close>

definition sprintf_int :: "byte list \<Rightarrow> string \<Rightarrow> int \<Rightarrow> byte list result" where
  "sprintf_int buf pattern x =
     (let t = bytes pattern @ decimal_text x @ [0]
      in if length t \<le> length buf then Inr (t @ drop (length t) buf) else Inl Out_of_bounds)"

text \<open>The text in an array, up to its terminator.\<close>

definition c_string :: "byte list \<Rightarrow> byte list" where
  "c_string d = takeWhile (\<lambda>c. c \<noteq> 0) d"

lemma minus_not_digit: "\<not> is_digit 45"
  by (simp add: is_digit_def)

lemma numeral_text_inj: "numeral_text 10 m = numeral_text 10 n \<Longrightarrow> m = n"
  by (metis numeral_text_value of_nat_eq_iff)

lemma numeral_text_no_sign: "numeral_text 10 n \<noteq> 45 # t"
proof
  assume "numeral_text 10 n = 45 # t"
  with numeral_text_digits [of n] have "is_digit 45" by simp
  then show False by (simp add: minus_not_digit)
qed

lemma decimal_text_inj:
  assumes "decimal_text x = decimal_text y"
  shows "x = y"
proof (cases "x < 0")
  case True
  with assms numeral_text_no_sign [of "nat y"] have y: "y < 0"
    by (auto simp: decimal_text_def split: if_splits) metis
  with True assms have "numeral_text 10 (nat (- x)) = numeral_text 10 (nat (- y))"
    by (simp add: decimal_text_def)
  then have "nat (- x) = nat (- y)" by (rule numeral_text_inj)
  with True y show ?thesis by simp
next
  case False
  with assms numeral_text_no_sign [of "nat x"] have y: "\<not> y < 0"
    by (auto simp: decimal_text_def split: if_splits)
  with False assms have "numeral_text 10 (nat x) = numeral_text 10 (nat y)"
    by (simp add: decimal_text_def)
  then have "nat x = nat y" by (rule numeral_text_inj)
  with False y show ?thesis by simp
qed

lemma decimal_text_nonzero: "c \<in> set (decimal_text x) \<Longrightarrow> c \<noteq> 0"
proof -
  have "c \<noteq> 0" if "c \<in> set (numeral_text 10 n)" for n
    using numeral_text_digits [of n] that by (auto simp: list_all_iff is_digit_def)
  then show "c \<in> set (decimal_text x) \<Longrightarrow> c \<noteq> 0"
    by (auto simp: decimal_text_def split: if_splits)
qed

lemma c_string_text: "(\<And>c. c \<in> set t \<Longrightarrow> c \<noteq> 0) \<Longrightarrow> c_string (t @ 0 # rest) = t"
  by (auto simp: c_string_def takeWhile_append2)

lemma decimal_text_length:
  assumes "in_int x"
  shows "length (decimal_text x) \<le> 11" and "length (decimal_text x) = 11 \<longleftrightarrow> x \<le> - 1000000000"
proof -
  have le: "length (numeral_text 10 n) \<le> 10" if "n < 10000000000" for n
    using numeral_text_length_le [of 10 n 9] that by simp
  have lt: "length (numeral_text 10 n) \<le> 9" if "n < 1000000000" for n
    using numeral_text_length_le [of 10 n 8] that by simp
  have gt: "9 < length (numeral_text 10 n)" if "1000000000 \<le> n" for n
    using numeral_text_length_gt [of 10 9 n] that by simp
  have small: "nat x < 10000000000" "nat (- x) < 10000000000"
    using assms by (auto simp: in_int_def INT_MAX_def INT_MIN_def nat_less_iff)
  show "length (decimal_text x) \<le> 11"
    using le [OF small(1)] le [OF small(2)] by (simp add: decimal_text_def)
  show "length (decimal_text x) = 11 \<longleftrightarrow> x \<le> - 1000000000"
  proof (cases "x \<le> - 1000000000")
    case True
    then have "1000000000 \<le> nat (- x)" by linarith
    from gt [OF this] le [OF small(2)] True show ?thesis by (simp add: decimal_text_def)
  next
    case False
    then have "nat (- x) < 1000000000" by linarith
    from lt [OF this] le [OF small(1)] False show ?thesis by (simp add: decimal_text_def)
  qed
qed

lemma sprintf_int_string:
  assumes "sprintf_int buf pattern x = Inr d" and "\<And>c. c \<in> set (bytes pattern) \<Longrightarrow> c \<noteq> 0"
  shows "c_string d = bytes pattern @ decimal_text x"
proof -
  from assms(1) have "d = (bytes pattern @ decimal_text x) @ 0 # drop (length (bytes pattern @ decimal_text x @ [0])) buf"
    by (auto simp: sprintf_int_def Let_def split: if_splits)
  then show ?thesis
    using assms(2) decimal_text_nonzero by (metis c_string_text Un_iff set_append)
qed

end
