(* ===== verification/Sim_Main.thy ===== *)
theory Sim_Main
  imports C_Text Posix
begin

text \<open>
  The set-up of the simulator of Chapter 12: one queue per core, and on every core the asked
  number of consumers and producers of that core's queue, core 0 under the real-time policy.
  The two fixed arrays and the two allocated ones are lists with checked access, so that what
  the theorems say of the number of cores is what the arrays allow.
\<close>

definition MAX_SYSTEM_CORES :: nat where "MAX_SYSTEM_CORES = 32"

record sim_options =
  run_seconds :: int
  producers_per_core :: int
  consumers_per_core :: int
  queue_size :: int

definition default_options :: sim_options where
  "default_options =
     \<lparr>run_seconds = 10, producers_per_core = 1, consumers_per_core = 1, queue_size = 100\<rparr>"

datatype main_option = Opt_help | Opt_seconds "byte list" | Opt_producers "byte list"
  | Opt_consumers "byte list" | Opt_size "byte list" | Opt_invalid

text \<open>\<^verbatim>\<open>None\<close>: the help was shown and \<^verbatim>\<open>main\<close> returned.\<close>

fun main_options :: "main_option list \<Rightarrow> sim_options \<Rightarrow> sim_options option result" where
  "main_options [] s = Inr (Some s)"
| "main_options (opt # opts) s =
     (case opt of
        Opt_help \<Rightarrow> Inr None
      | Opt_seconds t \<Rightarrow> bind_result (c_atoi t) (\<lambda>x. main_options opts (s\<lparr>run_seconds := x\<rparr>))
      | Opt_producers t \<Rightarrow> bind_result (c_atoi t) (\<lambda>x. main_options opts (s\<lparr>producers_per_core := x\<rparr>))
      | Opt_consumers t \<Rightarrow> bind_result (c_atoi t) (\<lambda>x. main_options opts (s\<lparr>consumers_per_core := x\<rparr>))
      | Opt_size t \<Rightarrow> bind_result (c_atoi t) (\<lambda>x. main_options opts (s\<lparr>queue_size := x\<rparr>))
      | Opt_invalid \<Rightarrow> main_options opts s)"

text \<open>What a constructor of a producer or consumer is called with; a queue is named by its id.\<close>

record sim_thread =
  st_queue :: "int option"
  st_id :: int
  st_priority :: int
  st_policy :: policy
  st_core :: int

text \<open>The first loop, from core \<open>i\<close> on, with \<open>k\<close> cores to go.\<close>

fun init_cores :: "nat \<Rightarrow> int \<Rightarrow> int \<Rightarrow> policy list \<Rightarrow> int option list
    \<Rightarrow> (policy list \<times> int option list) result" where
  "init_cores 0 i sz pols qs = Inr (pols, qs)"
| "init_cores (Suc k) i sz pols qs =
     bind_result (array_set pols i SCHED_OTHER) (\<lambda>pols'.
     if sz < 0 then Inl Bad_alloc
     else bind_result (array_set qs i (Some i)) (\<lambda>qs'. init_cores k (i + 1) sz pols' qs'))"

text \<open>
  One of the two inner loops: \<open>k\<close> objects to go on \<open>core\<close>; \<open>cur\<close> is \<^verbatim>\<open>cur_producer_id\<close> or
  \<^verbatim>\<open>cur_consumer_id\<close>.
\<close>

fun create_threads :: "nat \<Rightarrow> int \<Rightarrow> policy list \<Rightarrow> int option list \<Rightarrow> int \<Rightarrow> sim_thread option list
    \<Rightarrow> (int \<times> sim_thread option list) result" where
  "create_threads 0 core pols qs cur arr = Inr (cur, arr)"
| "create_threads (Suc k) core pols qs cur arr =
     bind_result (array_get qs core) (\<lambda>q.
     bind_result (array_get pols core) (\<lambda>pol.
     bind_result (array_set arr cur (Some \<lparr>st_queue = q, st_id = cur, st_priority = 1000,
         st_policy = pol, st_core = core\<rparr>)) (\<lambda>arr'.
     bind_result (int_add cur 1) (\<lambda>cur'. create_threads k core pols qs cur' arr'))))"

fun core_loop :: "nat \<Rightarrow> int \<Rightarrow> sim_options \<Rightarrow> policy list \<Rightarrow> int option list
    \<Rightarrow> int \<times> sim_thread option list \<Rightarrow> int \<times> sim_thread option list
    \<Rightarrow> ((int \<times> sim_thread option list) \<times> (int \<times> sim_thread option list)) result" where
  "core_loop 0 core opts pols qs ps cs = Inr (ps, cs)"
| "core_loop (Suc k) core opts pols qs ps cs =
     bind_result (create_threads (nat (consumers_per_core opts)) core pols qs (fst cs) (snd cs)) (\<lambda>cs'.
     bind_result (create_threads (nat (producers_per_core opts)) core pols qs (fst ps) (snd ps)) (\<lambda>ps'.
       core_loop k (core + 1) opts pols qs ps' cs'))"

definition new_array :: "int \<Rightarrow> 'a option list result" where
  "new_array n = (if n < 0 then Inl Bad_alloc else Inr (replicate (nat n) None))"

definition sim_setup :: "policy list \<Rightarrow> int \<Rightarrow> sim_options
    \<Rightarrow> ((int \<times> sim_thread option list) \<times> (int \<times> sim_thread option list)) result" where
  "sim_setup junk num_cores opts =
     bind_result (init_cores (nat num_cores) 0 (queue_size opts) junk (replicate MAX_SYSTEM_CORES None))
       (\<lambda>(pols, qs).
     bind_result (array_set pols 0 SCHED_RR) (\<lambda>pols'.
     bind_result (bind_result (int_mul num_cores (producers_per_core opts)) new_array) (\<lambda>parr.
     bind_result (bind_result (int_mul num_cores (consumers_per_core opts)) new_array) (\<lambda>carr.
       core_loop (nat num_cores) 0 opts pols' qs (0, parr) (0, carr)))))"

section \<open>What the loops do\<close>

definition policies :: "nat \<Rightarrow> policy list \<Rightarrow> policy list" where
  "policies n junk = SCHED_RR # replicate (n - 1) SCHED_OTHER @ drop n junk"

definition queues :: "nat \<Rightarrow> int option list" where
  "queues n = map (\<lambda>i. Some (int i)) [0..<n] @ replicate (MAX_SYSTEM_CORES - n) None"

text \<open>The \<open>k\<close>-th of the objects made with \<open>m\<close> of them on each core.\<close>

definition nth_thread :: "nat \<Rightarrow> nat \<Rightarrow> sim_thread" where
  "nth_thread m k =
     \<lparr>st_queue = Some (int (k div m)), st_id = int k, st_priority = 1000,
      st_policy = (if k div m = 0 then SCHED_RR else SCHED_OTHER), st_core = int (k div m)\<rparr>"

definition made :: "nat \<Rightarrow> nat \<Rightarrow> nat \<Rightarrow> sim_thread option list" where
  "made m k all = map (\<lambda>i. Some (nth_thread m i)) [0..<k] @ replicate (all - k) None"

lemma length_made: "k \<le> all \<Longrightarrow> length (made m k all) = all"
  by (simp add: made_def)

lemma made_Suc: "k < all \<Longrightarrow> (made m k all)[k := Some (nth_thread m k)] = made m (Suc k) all"
  unfolding made_def by (rule fill_next)

lemma queues_Suc: "i < 32 \<Longrightarrow> (queues i)[i := Some (int i)] = queues (Suc i)"
  unfolding queues_def MAX_SYSTEM_CORES_def by (rule fill_next)

lemma init_cores_ok:
  assumes "i + k \<le> 32" and "length pols = 32" and "0 \<le> sz"
  shows "init_cores k (int i) sz pols (queues i)
    = Inr (take i pols @ replicate k SCHED_OTHER @ drop (i + k) pols, queues (i + k))"
  using assms
proof (induction k arbitrary: i pols)
  case (Suc k)
  have qs: "(queues i)[i := Some (int i)] = queues (Suc i)"
    using Suc.prems(1) by (intro queues_Suc) simp
  have len: "length (queues i) = 32"
    using Suc.prems(1) by (simp add: queues_def MAX_SYSTEM_CORES_def)
  have next1: "init_cores (Suc k) (int i) sz pols (queues i)
      = init_cores k (int (Suc i)) sz (pols[i := SCHED_OTHER]) (queues (Suc i))"
    using Suc.prems len qs by (simp add: array_set_nat ac_simps)
  have "take (Suc i) (pols[i := SCHED_OTHER]) = take i pols @ [SCHED_OTHER]"
    using Suc.prems by (simp add: take_Suc_conv_app_nth)
  then show ?case
    unfolding next1 using Suc.IH [of "Suc i" "pols[i := SCHED_OTHER]"] Suc.prems by simp
qed simp

lemma init_cores_too_many:
  assumes "i \<le> 32" and "32 < i + k" and "length pols = 32" and "0 \<le> sz"
  shows "init_cores k (int i) sz pols qs = Inl Out_of_bounds \<or> length qs \<noteq> 32"
  using assms
proof (induction k arbitrary: i pols qs)
  case (Suc k)
  show ?case
  proof (cases "i < 32")
    case True
    with Suc.IH [of "Suc i" "pols[i := SCHED_OTHER]" "qs[i := Some (int i)]"] Suc.prems show ?thesis
      by (auto simp: array_set_nat ac_simps)
  next
    case False
    with Suc.prems have "array_set pols (int i) SCHED_OTHER = Inl Out_of_bounds"
      by (simp add: array_set_def)
    then show ?thesis by simp
  qed
qed simp

lemma create_threads_ok:
  assumes "cur + k \<le> all" and "int all \<le> INT_MAX" and "cur + k \<le> Suc core * m" and "core * m \<le> cur"
    and "array_get qs (int core) = Inr (Some (int core))"
    and "array_get pols (int core) = Inr (if core = 0 then SCHED_RR else SCHED_OTHER)"
  shows "create_threads k (int core) pols qs (int cur) (made m cur all)
    = Inr (int (cur + k), made m (cur + k) all)"
  using assms
proof (induction k arbitrary: cur)
  case (Suc k)
  have m: "cur div m = core"
  proof (rule div_nat_eqI)
    show "m * core \<le> cur" using Suc.prems(4) by (simp add: mult.commute)
    show "cur < m * Suc core" using Suc.prems(3) by (simp add: mult.commute)
  qed
  have "array_set (made m cur all) (int cur) (Some (nth_thread m cur)) = Inr (made m (Suc cur) all)"
    using Suc.prems(1) made_Suc [of cur all m] by (simp add: array_set_nat length_made)
  moreover have "int_add (int cur) 1 = Inr (int (Suc cur))"
    using Suc.prems(1,2) by (simp add: int_add_ok INT_MIN_def)
  moreover have "nth_thread m cur = \<lparr>st_queue = Some (int core), st_id = int cur, st_priority = 1000,
      st_policy = (if core = 0 then SCHED_RR else SCHED_OTHER), st_core = int core\<rparr>"
    by (simp add: nth_thread_def m)
  ultimately have "create_threads (Suc k) (int core) pols qs (int cur) (made m cur all)
      = create_threads k (int core) pols qs (int (Suc cur)) (made m (Suc cur) all)"
    using Suc.prems(5,6) by (simp del: of_nat_Suc)
  also have "\<dots> = Inr (int (Suc cur + k), made m (Suc cur + k) all)"
    using Suc.prems by (intro Suc.IH) simp_all
  finally show ?case by simp
qed simp

lemma array_get_queues: "i < n \<Longrightarrow> array_get (queues n) (int i) = Inr (Some (int i))"
  by (simp add: array_get_def queues_def nth_append)

lemma array_get_policies:
  "i < n \<Longrightarrow> array_get (policies n junk) (int i) = Inr (if i = 0 then SCHED_RR else SCHED_OTHER)"
  by (cases i) (auto simp: array_get_def policies_def nth_append nat_add_distrib)

lemma core_loop_ok:
  assumes "core + k = n" and "int (n * p) \<le> INT_MAX" and "int (n * c) \<le> INT_MAX"
    and "producers_per_core opts = int p" and "consumers_per_core opts = int c"
  shows "core_loop k (int core) opts (policies n junk) (queues n)
      (int (core * p), made p (core * p) (n * p)) (int (core * c), made c (core * c) (n * c))
    = Inr ((int (n * p), made p (n * p) (n * p)), (int (n * c), made c (n * c) (n * c)))"
  using assms
proof (induction k arbitrary: core)
  case (Suc k)
  have fits: "core * m + m \<le> n * m" for m
  proof -
    have "Suc core * m \<le> n * m" using Suc.prems(1) by (intro mult_le_mono1) simp
    then show ?thesis by simp
  qed
  have step: "create_threads m (int core) (policies n junk) (queues n) (int (core * m)) (made m (core * m) (n * m))
      = Inr (int (Suc core * m), made m (Suc core * m) (n * m))" if "int (n * m) \<le> INT_MAX" for m
  proof -
    have "create_threads m (int core) (policies n junk) (queues n) (int (core * m)) (made m (core * m) (n * m))
      = Inr (int (core * m + m), made m (core * m + m) (n * m))"
      using that fits [of m] Suc.prems(1)
      by (intro create_threads_ok array_get_queues array_get_policies) auto
    then show ?thesis by (simp add: add.commute)
  qed
  have "core_loop (Suc k) (int core) opts (policies n junk) (queues n)
      (int (core * p), made p (core * p) (n * p)) (int (core * c), made c (core * c) (n * c))
    = core_loop k (int (Suc core)) opts (policies n junk) (queues n)
      (int (Suc core * p), made p (Suc core * p) (n * p)) (int (Suc core * c), made c (Suc core * c) (n * c))"
    using Suc.prems(4,5) step [OF Suc.prems(2)] step [OF Suc.prems(3)]
    by (simp add: add.commute del: mult_Suc of_nat_mult)
  with Suc.IH [of "Suc core"] Suc.prems show ?case by simp
qed simp

text \<open>Every core gets its share of the objects.\<close>

lemma share_of_core:
  assumes "0 < m"
  shows "length (filter (\<lambda>k. k div m = core) [0..<n * m]) = (if core < n then m else 0)"
proof (induction n)
  case (Suc n)
  have "[0..<Suc n * m] = [0..<n * m] @ [n * m..<n * m + m]"
    using upt_add_eq_append [of 0 "n * m" m] by (simp add: add.commute)
  moreover have "k div m = n" if "k \<in> set [n * m..<n * m + m]" for k
    using that by (intro div_nat_eqI) (simp_all add: mult.commute)
  then have "filter (\<lambda>k. k div m = core) [n * m..<n * m + m] = (if core = n then [n * m..<n * m + m] else [])"
    by (auto intro!: filter_True simp: filter_empty_conv)
  ultimately show ?case using Suc by auto
qed simp

lemma threads_on_queue:
  "length (filter (\<lambda>t. st_queue t = Some (int core)) (map (nth_thread m) [0..<n * m])) = (if core < n then m else 0)"
proof (cases "m = 0")
  case False
  have "length (filter (\<lambda>t. st_queue t = Some (int core)) (map (nth_thread m) [0..<n * m]))
      = length (filter (\<lambda>k. k div m = core) [0..<n * m])"
    by (simp add: filter_map comp_def nth_thread_def)
  with share_of_core [of m] False show ?thesis by simp
qed simp

lemma made_all: "made m k k = map Some (map (nth_thread m) [0..<k])"
  by (simp add: made_def)

lemma sim_setup_eq:
  assumes "1 \<le> n" and "n \<le> 32" and "length junk = 32" and "0 \<le> queue_size opts"
    and "producers_per_core opts = int p" and "consumers_per_core opts = int c"
    and "int (n * p) \<le> INT_MAX" and "int (n * c) \<le> INT_MAX"
  shows "sim_setup junk (int n) opts =
    Inr ((int (n * p), map Some (map (nth_thread p) [0..<n * p])),
         (int (n * c), map Some (map (nth_thread c) [0..<n * c])))"
proof -
  have init: "init_cores n 0 (queue_size opts) junk (replicate 32 None)
      = Inr (replicate n SCHED_OTHER @ drop n junk, queues n)"
    using init_cores_ok [of 0 n junk "queue_size opts"] assms(2-4)
    by (simp add: queues_def MAX_SYSTEM_CORES_def)
  have pols: "array_set (replicate n SCHED_OTHER @ drop n junk) 0 SCHED_RR = Inr (policies n junk)"
    using assms(1) by (cases n) (simp_all add: array_set_def policies_def)
  have mul: "int_mul (int n) (int m) = Inr (int (n * m))" if "int (n * m) \<le> INT_MAX" for m
  proof -
    have "in_int (int (n * m))" unfolding in_int_def INT_MIN_def using that by linarith
    then show ?thesis by (simp add: int_mul_def checked_def)
  qed
  have new: "new_array (int k) = Inr (made m 0 k)" for k m
    by (simp add: new_array_def made_def)
  have "sim_setup junk (int n) opts = core_loop n (int 0) opts (policies n junk) (queues n)
      (int (0 * p), made p (0 * p) (n * p)) (int (0 * c), made c (0 * c) (n * c))"
    using init pols mul [OF assms(7)] mul [OF assms(8)] new [of "n * p" p] new [of "n * c" c] assms(5,6)
    by (simp add: sim_setup_def MAX_SYSTEM_CORES_def del: of_nat_mult)
  then show ?thesis
    using core_loop_ok [of 0 n n p c opts junk] assms(5-8) by (simp add: made_all)
qed

section \<open>Properties\<close>

text \<open>
  On a machine of 1 to 32 cores the simulator creates the asked number of producers and
  consumers for every queue, numbered in order, each bound to the core of its queue and
  real-time exactly on core 0; no array is overrun. So with the default options every queue is
  used by one producer and one consumer, as the properties of the queue need it.
\<close>

lemma sim_setup_assigns:
  assumes "1 \<le> n" and "n \<le> 32" and "length junk = 32" and "0 \<le> queue_size opts"
    and "producers_per_core opts = int p" and "consumers_per_core opts = int c"
    and "int (n * p) \<le> INT_MAX" and "int (n * c) \<le> INT_MAX"
  shows "\<exists>ps cs. sim_setup junk (int n) opts = Inr ((int (n * p), map Some ps), (int (n * c), map Some cs)) \<and>
    map st_id ps = map int [0..<n * p] \<and> map st_id cs = map int [0..<n * c] \<and>
    (\<forall>core < n. length (filter (\<lambda>t. st_queue t = Some (int core)) ps) = p \<and>
                length (filter (\<lambda>t. st_queue t = Some (int core)) cs) = c) \<and>
    (\<forall>t \<in> set ps \<union> set cs. st_queue t = Some (st_core t) \<and> 0 \<le> st_core t \<and> st_core t < int n \<and>
       (st_policy t = SCHED_RR \<longleftrightarrow> st_core t = 0))"
proof -
  have share: "st_queue t = Some (st_core t) \<and> 0 \<le> st_core t \<and> st_core t < int n \<and>
      (st_policy t = SCHED_RR \<longleftrightarrow> st_core t = 0)" if "t \<in> set (map (nth_thread m) [0..<n * m])" for t m
  proof -
    from that obtain k where k: "k < n * m" "t = nth_thread m k" by auto
    then have "0 < m" by (cases m) simp_all
    with k(1) have "k div m < n" by (simp add: div_less_iff_less_mult)
    with k(2) show ?thesis by (simp add: nth_thread_def)
  qed
  have ids: "map st_id (map (nth_thread m) ks) = map int ks" for m ks
    by (simp add: nth_thread_def)
  have "\<forall>core < n.
      length (filter (\<lambda>t. st_queue t = Some (int core)) (map (nth_thread p) [0..<n * p])) = p \<and>
      length (filter (\<lambda>t. st_queue t = Some (int core)) (map (nth_thread c) [0..<n * c])) = c"
    unfolding threads_on_queue by simp
  then show ?thesis
    using sim_setup_eq [OF assms] ids share by blast
qed

theorem sim_setup_assigns_witness:
  "\<exists>p0 p1 c0 c1. sim_setup (replicate 32 SCHED_FIFO) 2 default_options
       = Inr ((2, [Some p0, Some p1]), (2, [Some c0, Some c1])) \<and>
     st_id p0 = 0 \<and> st_id p1 = 1"
proof -
  have hyp: "(1::nat) \<le> 2" "(2::nat) \<le> 32" "length (replicate 32 SCHED_FIFO) = 32"
    "0 \<le> queue_size default_options" "producers_per_core default_options = int 1"
    "consumers_per_core default_options = int 1" "int (2 * 1) \<le> INT_MAX" "int (2 * 1) \<le> INT_MAX"
    by (simp_all add: default_options_def INT_MAX_def)
  obtain ps cs where s: "sim_setup (replicate 32 SCHED_FIFO) (int 2) default_options
      = Inr ((int (2 * 1), map Some ps), (int (2 * 1), map Some cs))"
    "map st_id ps = map int [0..<2 * 1]" "map st_id cs = map int [0..<2 * 1]"
    using sim_setup_assigns [OF hyp] by blast
  have "map int [0..<2 * 1] = [0, 1]" by (simp add: upt_rec)
  with s(2,3) obtain p0 p1 c0 c1 where "ps = [p0, p1]" "st_id p0 = 0" "st_id p1 = 1" "cs = [c0, c1]"
    by (auto simp: map_eq_Cons_conv)
  with s(1) show ?thesis by auto
qed

text \<open>
  On a machine of more than 32 cores the first loop writes past the end of the fixed arrays.
\<close>

lemma sim_setup_overruns:
  assumes "32 < n" and "length junk = 32" and "0 \<le> queue_size opts"
  shows "sim_setup junk (int n) opts = Inl Out_of_bounds"
  using init_cores_too_many [of 0 n junk "queue_size opts" "replicate 32 None"] assms
  by (simp add: sim_setup_def MAX_SYSTEM_CORES_def)

theorem sim_setup_overruns_witness:
  "sim_setup (replicate 32 SCHED_OTHER) 64 default_options = Inl Out_of_bounds"
  using sim_setup_overruns [of 64 "replicate 32 SCHED_OTHER" default_options]
  by (simp add: default_options_def)

end
