(* ===== verification/Sim_Life.thy ===== *)
theory Sim_Life
  imports Sim_Main Sched_Object
begin

text \<open>
  The whole run of the simulator of Chapter 12: what \<^verbatim>\<open>main\<close> does after reading its options, as a
  list of operations, interleaved with the steps of the threads it starts. Objects live as in
  \<open>Sched_Object\<close>; the arrays and the assignment of queues are those of \<open>Sim_Main\<close>. A use of an
  array or of a queue that is not allocated, a release of one, and a second destruction of an
  object are faults, and so is a call of the derived \<^verbatim>\<open>work\<close> before the derived constructor
  has set the queue. \<^verbatim>\<open>main\<close> releases the array of the consumers, which \<^verbatim>\<open>new[]\<close> gave it, with a plain \<^verbatim>\<open>delete\<close>. The C++ standard
  leaves that undefined, a fault; an implementation whose \<^verbatim>\<open>delete\<close> and \<^verbatim>\<open>delete[]\<close> release alike goes on. The run is
  modelled for both, by the parameter \<open>lax\<close>. Creation of a thread is taken to succeed.
\<close>

section \<open>The main thread as a list of operations\<close>

datatype role = Producer_role | Consumer_role

datatype obj = Object (role_of: role) (index_of: nat)

text \<open>
  \<open>Step_object\<close>: the next step in the life of an object, reached through its array. \<open>Delete_array\<close> is \<^verbatim>\<open>delete[]\<close> of
  an array and \<open>Delete_scalar\<close> is \<^verbatim>\<open>delete\<close> of one.
\<close>

datatype main_op =
    New_queue int
  | New_array role
  | Step_object obj
  | Sleep_for int
  | Delete_array role
  | Delete_scalar role
  | Delete_queue int

text \<open>\<^verbatim>\<open>new\<close>: the base constructor, the start of the derived one, its members.\<close>

definition new_object :: "obj \<Rightarrow> main_op list" where
  "new_object ob = [Step_object ob, Step_object ob, Step_object ob]"

text \<open>\<^verbatim>\<open>delete\<close>: the derived destructor, \<^verbatim>\<open>m_run = false\<close>, the join, the release.\<close>

definition delete_object :: "obj \<Rightarrow> main_op list" where
  "delete_object ob = [Step_object ob, Step_object ob, Step_object ob, Step_object ob]"

definition new_objects :: "role \<Rightarrow> nat \<Rightarrow> nat \<Rightarrow> main_op list" where
  "new_objects r cur k = concat (map (\<lambda>i. new_object (Object r i)) [cur..<cur + k])"

text \<open>The loop over the cores; \<open>pcur\<close> and \<open>ccur\<close> are the counters of the objects.\<close>

fun create_ops :: "nat \<Rightarrow> sim_options \<Rightarrow> nat \<Rightarrow> nat \<Rightarrow> main_op list" where
  "create_ops 0 opts pcur ccur = []"
| "create_ops (Suc k) opts pcur ccur =
     (let c = nat (consumers_per_core opts); p = nat (producers_per_core opts)
      in new_objects Consumer_role ccur c @ new_objects Producer_role pcur p @
         create_ops k opts (pcur + p) (ccur + c))"

definition delete_objects :: "role \<Rightarrow> nat \<Rightarrow> main_op list" where
  "delete_objects r cur = concat (map (\<lambda>i. delete_object (Object r i)) [0..<cur])"

text \<open>\<open>np\<close> and \<open>nc\<close>: \<^verbatim>\<open>cur_producer_id\<close> and \<^verbatim>\<open>cur_consumer_id\<close> after the loops.\<close>

definition main_ops :: "nat \<Rightarrow> sim_options \<Rightarrow> nat \<Rightarrow> nat \<Rightarrow> main_op list" where
  "main_ops cores opts np nc =
     map (\<lambda>i. New_queue (int i)) [0..<cores] @
     [New_array Producer_role, New_array Consumer_role] @
     create_ops cores opts 0 0 @
     [Sleep_for (run_seconds opts)] @
     delete_objects Producer_role np @ [Delete_array Producer_role] @
     [Sleep_for 10] @
     delete_objects Consumer_role nc @ [Delete_scalar Consumer_role] @
     map (\<lambda>i. Delete_queue (int i)) [0..<cores]"

section \<open>The threads and the main thread interleaved\<close>

record sim =
  todo :: "main_op list"
  lives :: "obj \<Rightarrow> life"
  live_queues :: "int set"
  live_arrays :: "role set"
  lax_delete :: bool

datatype sim_event = Main | Thr obj

text \<open>The threads that are inside the derived \<^verbatim>\<open>work\<close>, or about to enter it.\<close>

definition uses_queue :: "life \<Rightarrow> bool" where
  "uses_queue l \<longleftrightarrow>
     (thr l = Call_work \<and> vptr l = Derived_work) \<or>
     (thr l = In_work \<and> works l \<noteq> [] \<and> fst (last (works l)) = Derived_work)"

definition members_unset :: "life \<Rightarrow> bool" where
  "members_unset l \<longleftrightarrow> owner l = Base_built \<or> owner l = Derived_begun"

text \<open>The queue that an object was given by the set-up.\<close>

definition queue_of :: "(role \<Rightarrow> sim_thread option list) \<Rightarrow> obj \<Rightarrow> int option" where
  "queue_of arr ob =
     (case array_get (arr (role_of ob)) (int (index_of ob)) of
        Inr (Some t) \<Rightarrow> st_queue t
      | _ \<Rightarrow> None)"

fun main_step :: "main_op \<Rightarrow> sim \<Rightarrow> sim result option" where
  "main_step (New_queue q) s = Some (Inr (s\<lparr>live_queues := insert q (live_queues s)\<rparr>))"
| "main_step (New_array r) s = Some (Inr (s\<lparr>live_arrays := insert r (live_arrays s)\<rparr>))"
| "main_step (Step_object ob) s =
     (if role_of ob \<notin> live_arrays s then Some (Inl Out_of_bounds)
      else if owner (lives s ob) = Destroyed then Some (Inl Invalid_free)
      else map_option (\<lambda>l. Inr (s\<lparr>lives := (lives s)(ob := l)\<rparr>)) (owner_step (lives s ob)))"
| "main_step (Sleep_for t) s = Some (Inr s)"
| "main_step (Delete_array r) s =
     (if r \<notin> live_arrays s then Some (Inl Invalid_free)
      else Some (Inr (s\<lparr>live_arrays := live_arrays s - {r}\<rparr>)))"
| "main_step (Delete_scalar r) s =
     (if r \<notin> live_arrays s then Some (Inl Invalid_free)
      else if \<not> lax_delete s then Some (Inl Wrong_delete)
      else Some (Inr (s\<lparr>live_arrays := live_arrays s - {r}\<rparr>)))"
| "main_step (Delete_queue q) s =
     (if q \<notin> live_queues s then Some (Inl Invalid_free)
      else Some (Inr (s\<lparr>live_queues := live_queues s - {q}\<rparr>)))"

text \<open>\<^verbatim>\<open>None\<close>: the thread of the event cannot move.\<close>

fun sim_step :: "(obj \<Rightarrow> int option) \<Rightarrow> sim \<Rightarrow> sim_event \<Rightarrow> sim result option" where
  "sim_step qs s Main =
     (case todo s of [] \<Rightarrow> None | op # ops \<Rightarrow> main_step op (s\<lparr>todo := ops\<rparr>))"
| "sim_step qs s (Thr ob) =
     (case thread_step (lives s ob) of
        None \<Rightarrow> None
      | Some l \<Rightarrow>
          if uses_queue (lives s ob) \<and>
            (members_unset (lives s ob) \<or> (case qs ob of None \<Rightarrow> True | Some q \<Rightarrow> q \<notin> live_queues s))
          then Some (Inl Null_dereference)
          else Some (Inr (s\<lparr>lives := (lives s)(ob := l)\<rparr>)))"

fun sim_run :: "(obj \<Rightarrow> int option) \<Rightarrow> sim_event list \<Rightarrow> sim \<Rightarrow> sim result option" where
  "sim_run qs [] s = Some (Inr s)"
| "sim_run qs (e # es) s =
     (case sim_step qs s e of
        None \<Rightarrow> None
      | Some (Inl f) \<Rightarrow> Some (Inl f)
      | Some (Inr s') \<Rightarrow> sim_run qs es s')"

text \<open>\<open>lax\<close>: the implementation releases an array by \<^verbatim>\<open>delete\<close> as by \<^verbatim>\<open>delete[]\<close>.\<close>

definition sim_start :: "bool \<Rightarrow> nat \<Rightarrow> sim_options \<Rightarrow> nat \<Rightarrow> nat \<Rightarrow> sim" where
  "sim_start lax cores opts np nc =
     \<lparr>todo = main_ops cores opts np nc, lives = (\<lambda>_. unborn), live_queues = {}, live_arrays = {}, lax_delete = lax\<rparr>"

definition array_of :: "sim_thread option list \<Rightarrow> sim_thread option list \<Rightarrow> role \<Rightarrow> sim_thread option list" where
  "array_of ps cs r = (case r of Producer_role \<Rightarrow> ps | Consumer_role \<Rightarrow> cs)"

text \<open>From the set-up on, under the interleaving \<open>es\<close>.\<close>

definition simulate :: "bool \<Rightarrow> policy list \<Rightarrow> int \<Rightarrow> sim_options \<Rightarrow> sim_event list \<Rightarrow> sim result option" where
  "simulate lax junk num_cores opts es =
     (case sim_setup junk num_cores opts of
        Inl f \<Rightarrow> Some (Inl f)
      | Inr ((np, ps), (nc, cs)) \<Rightarrow>
          sim_run (queue_of (array_of ps cs)) es (sim_start lax (nat num_cores) opts (nat np) (nat nc)))"

section \<open>A plan that frees nothing in use\<close>

definition present :: "owner_pc \<Rightarrow> bool" where
  "present p \<longleftrightarrow> p \<noteq> Unborn \<and> p \<noteq> Destroyed"

text \<open>
  What is left to do, from a state in which the objects have come to \<open>own\<close> and the queues \<open>Q\<close>
  and arrays \<open>A\<close> are allocated: an object is only touched while its queue and its array are
  there, a queue only goes when no object of it is left, the wrong release is that of the last array, when all the
  objects \<open>obs\<close> are destroyed, and at the end nothing is left but they.
\<close>

fun plan_ok :: "(obj \<Rightarrow> int option) \<Rightarrow> (obj \<Rightarrow> bool) \<Rightarrow> main_op list \<Rightarrow> (obj \<Rightarrow> owner_pc)
    \<Rightarrow> int set \<Rightarrow> role set \<Rightarrow> bool" where
  "plan_ok qs obs [] own Q A \<longleftrightarrow>
     Q = {} \<and> A = {} \<and> (\<forall>ob. own ob = (if obs ob then Destroyed else Unborn))"
| "plan_ok qs obs (New_queue q # ops) own Q A \<longleftrightarrow> plan_ok qs obs ops own (insert q Q) A"
| "plan_ok qs obs (New_array r # ops) own Q A \<longleftrightarrow> plan_ok qs obs ops own Q (insert r A)"
| "plan_ok qs obs (Step_object ob # ops) own Q A \<longleftrightarrow>
     role_of ob \<in> A \<and> own ob \<noteq> Destroyed \<and> (\<exists>q. qs ob = Some q \<and> q \<in> Q) \<and>
     plan_ok qs obs ops (own(ob := next_owner (own ob))) Q A"
| "plan_ok qs obs (Sleep_for t # ops) own Q A \<longleftrightarrow> plan_ok qs obs ops own Q A"
| "plan_ok qs obs (Delete_array r # ops) own Q A \<longleftrightarrow> r \<in> A \<and> plan_ok qs obs ops own Q (A - {r})"
| "plan_ok qs obs (Delete_scalar r # ops) own Q A \<longleftrightarrow>
     r = Consumer_role \<and> A = {r} \<and> (\<forall>ob. own ob = (if obs ob then Destroyed else Unborn)) \<and> plan_ok qs obs ops own Q {}"
| "plan_ok qs obs (Delete_queue q # ops) own Q A \<longleftrightarrow>
     q \<in> Q \<and> (\<forall>ob. present (own ob) \<longrightarrow> qs ob \<noteq> Some q) \<and> plan_ok qs obs ops own (Q - {q}) A"

lemma plan_new_queues:
  "plan_ok qs obs (map (\<lambda>i. New_queue (int i)) is @ ops) own Q A
    = plan_ok qs obs ops own (int ` set is \<union> Q) A"
  by (induction "is" arbitrary: Q) simp_all

lemma plan_delete_queues:
  assumes "\<And>ob. \<not> present (own ob)" and "distinct is" and "int ` set is \<subseteq> Q"
  shows "plan_ok qs obs (map (\<lambda>i. Delete_queue (int i)) is) own Q A
    = plan_ok qs obs [] own (Q - int ` set is) A"
  using assms(2,3)
proof (induction "is" arbitrary: Q)
  case (Cons i "is")
  have "Q - {int i} - int ` set is = Q - int ` set (i # is)" by auto
  moreover have "int ` set is \<subseteq> Q - {int i}" using Cons.prems by auto
  ultimately show ?case using Cons.prems Cons.IH [of "Q - {int i}"] assms(1) by simp
qed simp

text \<open>Objects of one role, advanced together.\<close>

definition mark :: "role \<Rightarrow> nat set \<Rightarrow> owner_pc \<Rightarrow> (obj \<Rightarrow> owner_pc) \<Rightarrow> obj \<Rightarrow> owner_pc" where
  "mark r S v own ob = (if role_of ob = r \<and> index_of ob \<in> S then v else own ob)"

lemma mark_upd: "mark r S v (own((Object r i) := v)) = mark r (insert i S) v own"
  by (auto simp: mark_def fun_eq_iff obj.expand)

lemma mark_empty: "mark r {} v own = own"
  by (simp add: mark_def fun_eq_iff)

text \<open>A loop that takes each object of a list through the same steps.\<close>

lemma plan_objects:
  assumes step: "\<And>i own ops. own (Object r i) = v0 \<Longrightarrow> \<exists>q. qs (Object r i) = Some q \<and> q \<in> Q \<Longrightarrow>
      plan_ok qs obs (f (Object r i) @ ops) own Q A = plan_ok qs obs ops (own((Object r i) := v)) Q A"
    and "\<And>i. i \<in> set is \<Longrightarrow> own (Object r i) = v0" and "distinct is"
    and "\<And>i. i \<in> set is \<Longrightarrow> \<exists>q. qs (Object r i) = Some q \<and> q \<in> Q"
  shows "plan_ok qs obs (concat (map (\<lambda>i. f (Object r i)) is) @ ops) own Q A
    = plan_ok qs obs ops (mark r (set is) v own) Q A"
  using assms(2-4)
proof (induction "is" arbitrary: own)
  case (Cons i "is")
  have "plan_ok qs obs (f (Object r i) @ concat (map (\<lambda>i. f (Object r i)) is) @ ops) own Q A
      = plan_ok qs obs (concat (map (\<lambda>i. f (Object r i)) is) @ ops) (own((Object r i) := v)) Q A"
    using Cons.prems by (intro step) simp_all
  also have "\<dots> = plan_ok qs obs ops (mark r (set is) v (own((Object r i) := v))) Q A"
    using Cons.prems by (intro Cons.IH) auto
  finally show ?case by (simp add: mark_upd)
qed (simp add: mark_empty)

lemma plan_new_objects:
  assumes "r \<in> A" and "\<And>i. cur \<le> i \<Longrightarrow> i < cur + k \<Longrightarrow> own (Object r i) = Unborn"
    and "\<And>i. cur \<le> i \<Longrightarrow> i < cur + k \<Longrightarrow> \<exists>q. qs (Object r i) = Some q \<and> q \<in> Q"
  shows "plan_ok qs obs (new_objects r cur k @ ops) own Q A
    = plan_ok qs obs ops (mark r {cur..<cur + k} Alive own) Q A"
  unfolding new_objects_def
  using plan_objects [of r Unborn qs Q obs new_object A Alive "[cur..<cur + k]" own ops] assms
  by (simp add: new_object_def)

lemma plan_delete_objects:
  assumes "r \<in> A" and "\<And>i. i < n \<Longrightarrow> own (Object r i) = Alive"
    and "\<And>i. i < n \<Longrightarrow> \<exists>q. qs (Object r i) = Some q \<and> q \<in> Q"
  shows "plan_ok qs obs (delete_objects r n @ ops) own Q A
    = plan_ok qs obs ops (mark r {..<n} Destroyed own) Q A"
  unfolding delete_objects_def
  using plan_objects [of r Alive qs Q obs delete_object A Destroyed "[0..<n]" own ops] assms
  by (simp add: delete_object_def atLeast0LessThan)

definition count_of :: "nat \<Rightarrow> nat \<Rightarrow> role \<Rightarrow> nat" where
  "count_of np nc r = (case r of Producer_role \<Rightarrow> np | Consumer_role \<Rightarrow> nc)"

text \<open>The objects with the numbers below the counters have come to \<open>vp\<close> and \<open>vc\<close>.\<close>

definition stage :: "nat \<Rightarrow> nat \<Rightarrow> owner_pc \<Rightarrow> owner_pc \<Rightarrow> obj \<Rightarrow> owner_pc" where
  "stage np nc vp vc ob =
     (case role_of ob of
        Producer_role \<Rightarrow> if index_of ob < np then vp else Unborn
      | Consumer_role \<Rightarrow> if index_of ob < nc then vc else Unborn)"

lemma stage_simps [simp]:
  "stage np nc vp vc (Object Producer_role i) = (if i < np then vp else Unborn)"
  "stage np nc vp vc (Object Consumer_role i) = (if i < nc then vc else Unborn)"
  by (simp_all add: stage_def)

lemma mark_stage:
  "mark Consumer_role {nc..<nc + c} v (stage np nc vp v) = stage np (nc + c) vp v"
  "mark Producer_role {np..<np + p} v (stage np nc v vc) = stage (np + p) nc v vc"
  "mark Producer_role {..<np} w (stage np nc vp vc) = stage np nc w vc"
  "mark Consumer_role {..<nc} w (stage np nc vp vc) = stage np nc vp w"
  by (auto simp: mark_def stage_def fun_eq_iff split: role.splits)

lemma plan_create:
  assumes A: "Producer_role \<in> A" "Consumer_role \<in> A"
    and opts: "nat (producers_per_core opts) = p" "nat (consumers_per_core opts) = c"
    and "\<And>i. i < pcur + k * p \<Longrightarrow> \<exists>q. qs (Object Producer_role i) = Some q \<and> q \<in> Q"
    and "\<And>i. i < ccur + k * c \<Longrightarrow> \<exists>q. qs (Object Consumer_role i) = Some q \<and> q \<in> Q"
  shows "plan_ok qs obs (create_ops k opts pcur ccur @ ops) (stage pcur ccur Alive Alive) Q A
    = plan_ok qs obs ops (stage (pcur + k * p) (ccur + k * c) Alive Alive) Q A"
  using assms(5,6)
proof (induction k arbitrary: pcur ccur)
  case (Suc k)
  have "plan_ok qs obs (create_ops (Suc k) opts pcur ccur @ ops) (stage pcur ccur Alive Alive) Q A
      = plan_ok qs obs (new_objects Producer_role pcur p @ create_ops k opts (pcur + p) (ccur + c) @ ops)
          (stage pcur (ccur + c) Alive Alive) Q A"
    using A(2) Suc.prems(2) by (simp add: Let_def opts plan_new_objects mark_stage)
  also have "\<dots> = plan_ok qs obs (create_ops k opts (pcur + p) (ccur + c) @ ops)
      (stage (pcur + p) (ccur + c) Alive Alive) Q A"
    using A(1) Suc.prems(1) by (simp add: plan_new_objects mark_stage)
  also have "\<dots> = plan_ok qs obs ops (stage (pcur + p + k * p) (ccur + c + k * c) Alive Alive) Q A"
    using Suc.prems by (intro Suc.IH) (simp_all add: add.assoc)
  finally show ?case by (simp add: add.assoc)
qed simp

lemma plan_main:
  assumes "nat (producers_per_core opts) = p" "nat (consumers_per_core opts) = c"
    and qs: "\<And>ob. index_of ob < count_of (cores * p) (cores * c) (role_of ob) \<Longrightarrow> \<exists>i < cores. qs ob = Some (int i)"
  shows "plan_ok qs (\<lambda>ob. index_of ob < count_of (cores * p) (cores * c) (role_of ob))
    (main_ops cores opts (cores * p) (cores * c)) (\<lambda>_. Unborn) {} {}"
proof -
  have start: "(\<lambda>_. Unborn) = stage 0 0 Alive Alive"
    by (simp add: stage_def fun_eq_iff split: role.split)
  have q: "\<exists>q. qs (Object Producer_role i) = Some q \<and> q \<in> int ` {0..<cores}" if "i < cores * p" for i
    using qs [of "(Object Producer_role i)"] that by (auto simp: count_of_def)
  have q': "\<exists>q. qs (Object Consumer_role i) = Some q \<and> q \<in> int ` {0..<cores}" if "i < cores * c" for i
    using qs [of "(Object Consumer_role i)"] that by (auto simp: count_of_def)
  have gone: "\<not> present (stage np nc Destroyed Destroyed ob)" for np nc ob
    by (simp add: stage_def present_def split: role.split)
  have arrays: "insert Consumer_role {Producer_role} - {Producer_role} = {Consumer_role}" by auto
  show ?thesis
    unfolding main_ops_def
    by (simp add: plan_new_queues start plan_create [OF _ _ assms(1,2)] plan_delete_objects mark_stage q q'
        plan_delete_queues gone arrays)
      (simp add: stage_def count_of_def split: role.split)
qed

lemma main_releases_wrongly: "Delete_scalar Consumer_role \<in> set (main_ops cores opts np nc)"
  by (simp add: main_ops_def)

section \<open>Invariant\<close>

definition sim_inv :: "(obj \<Rightarrow> int option) \<Rightarrow> (obj \<Rightarrow> bool) \<Rightarrow> sim \<Rightarrow> bool" where
  "sim_inv qs obs s \<longleftrightarrow>
     (\<forall>ob. life_inv (lives s ob)) \<and>
     plan_ok qs obs (todo s) (\<lambda>ob. owner (lives s ob)) (live_queues s) (live_arrays s) \<and>
     (\<forall>ob. present (owner (lives s ob)) \<longrightarrow> (\<exists>q. qs ob = Some q \<and> q \<in> live_queues s)) \<and>
     (lax_delete s \<or> Delete_scalar Consumer_role \<in> set (todo s))"

lemma sim_invD:
  assumes "sim_inv qs obs s"
  shows "life_inv (lives s ob)"
    and "plan_ok qs obs (todo s) (\<lambda>ob. owner (lives s ob)) (live_queues s) (live_arrays s)"
    and "present (owner (lives s ob)) \<Longrightarrow> \<exists>q. qs ob = Some q \<and> q \<in> live_queues s"
    and "lax_delete s \<or> Delete_scalar Consumer_role \<in> set (todo s)"
  using assms by (simp_all add: sim_inv_def)

lemma thread_step_present: "thread_step l = Some l' \<Longrightarrow> life_inv l \<Longrightarrow> present (owner l)"
  by (cases "owner l") (auto simp: thread_step_def present_def life_inv_def thread_ok_def)

lemma main_step_inv:
  assumes inv: "sim_inv qs obs s" and "todo s = op # ops"
    and step: "main_step op (s\<lparr>todo := ops\<rparr>) = Some r"
  shows "(\<exists>s'. r = Inr s' \<and> sim_inv qs obs s' \<and> todo s' = ops) \<or>
    (r = Inl Wrong_delete \<and> op = Delete_scalar Consumer_role \<and> \<not> lax_delete s)"
proof (cases op)
  case (Step_object ob)
  note I = sim_invD [OF inv]
  have plan: "role_of ob \<in> live_arrays s" "owner (lives s ob) \<noteq> Destroyed" "\<exists>q. qs ob = Some q \<and> q \<in> live_queues s"
    "plan_ok qs obs ops ((\<lambda>ob. owner (lives s ob))(ob := next_owner (owner (lives s ob)))) (live_queues s) (live_arrays s)"
    using I(2) assms(2) Step_object by simp_all
  with step Step_object obtain l where l: "owner_step (lives s ob) = Some l"
    "r = Inr (s\<lparr>todo := ops, lives := (lives s)(ob := l)\<rparr>)" by auto
  have own: "(\<lambda>x. owner (((lives s)(ob := l)) x))
      = (\<lambda>ob. owner (lives s ob))(ob := next_owner (owner (lives s ob)))"
    using owner_step_next [OF l(1)] by (simp add: fun_eq_iff)
  have "life_inv l" using owner_step_inv [OF l(1) I(1)] .
  then have "sim_inv qs obs (s\<lparr>todo := ops, lives := (lives s)(ob := l)\<rparr>)"
    using I(1,3,4) plan own assms(2) Step_object by (simp add: sim_inv_def)
  with l(2) show ?thesis by simp
next
  case (Delete_queue q)
  note I = sim_invD [OF inv]
  have plan: "q \<in> live_queues s" "\<And>ob. present (owner (lives s ob)) \<Longrightarrow> qs ob \<noteq> Some q"
    "plan_ok qs obs ops (\<lambda>ob. owner (lives s ob)) (live_queues s - {q}) (live_arrays s)"
    using I(2) assms(2) Delete_queue by simp_all
  have "\<exists>q'. qs ob = Some q' \<and> q' \<in> live_queues s - {q}" if p: "present (owner (lives s ob))" for ob
    using I(3) [OF p] plan(2) [OF p] by blast
  then have "sim_inv qs obs (s\<lparr>todo := ops, live_queues := live_queues s - {q}\<rparr>)"
    using I(1,4) plan(3) assms(2) Delete_queue by (simp add: sim_inv_def)
  with step plan(1) Delete_queue show ?thesis by auto
next
  case (Delete_scalar ro)
  note I = sim_invD [OF inv]
  have plan: "ro = Consumer_role" "live_arrays s = {ro}"
    "plan_ok qs obs ops (\<lambda>ob. owner (lives s ob)) (live_queues s) {}"
    using I(2) unfolding assms(2) Delete_scalar plan_ok.simps by blast+
  show ?thesis
  proof (cases "lax_delete s")
    case True
    then have "sim_inv qs obs (s\<lparr>todo := ops, live_arrays := {}\<rparr>)" using I(1,3) plan(3) by (simp add: sim_inv_def)
    with True step plan(2) Delete_scalar show ?thesis by auto
  qed (use step plan Delete_scalar in simp)
qed (use assms in \<open>fastforce simp: sim_inv_def split: if_splits\<close>)+

text \<open>The threads' first sleep outlasts the construction of their object.\<close>

definition asleep_until_built :: "life \<Rightarrow> bool" where
  "asleep_until_built l \<longleftrightarrow> (members_unset l \<longrightarrow> thr l = Set_scheduler \<or> thr l = Sleeping)"

definition settled :: "sim \<Rightarrow> bool" where
  "settled s \<longleftrightarrow> (\<forall>ob. asleep_until_built (lives s ob))"

fun in_time :: "sim \<Rightarrow> sim_event \<Rightarrow> bool" where
  "in_time s Main = True"
| "in_time s (Thr ob) = (thr (lives s ob) = Sleeping \<longrightarrow> \<not> members_unset (lives s ob))"

fun sleeps_long :: "(obj \<Rightarrow> int option) \<Rightarrow> sim_event list \<Rightarrow> sim \<Rightarrow> bool" where
  "sleeps_long qs [] s = True"
| "sleeps_long qs (e # es) s =
     (in_time s e \<and> (case sim_step qs s e of Some (Inr s') \<Rightarrow> sleeps_long qs es s' | _ \<Rightarrow> True))"

lemma uses_queue_moving: "uses_queue l \<Longrightarrow> thr l \<in> {Call_work, In_work}"
  by (auto simp: uses_queue_def)

lemma thread_event_inv:
  assumes inv: "sim_inv qs obs s" and "settled s" and step: "sim_step qs s (Thr ob) = Some r"
  shows "\<exists>s'. r = Inr s' \<and> sim_inv qs obs s' \<and> todo s' = todo s"
proof -
  note I = sim_invD [OF inv]
  from step obtain l where l: "thread_step (lives s ob) = Some l" by (auto split: option.splits)
  note own = thread_step_owner [OF l]
  obtain q where q: "qs ob = Some q" "q \<in> live_queues s"
    using I(3) [OF thread_step_present [OF l I(1)]] by blast
  have "\<not> members_unset (lives s ob)" if "uses_queue (lives s ob)"
    using uses_queue_moving [OF that] assms(2) by (auto simp: settled_def asleep_until_built_def)
  with step l q have r: "r = Inr (s\<lparr>lives := (lives s)(ob := l)\<rparr>)" by (auto split: if_splits)
  have "(\<lambda>x. owner (((lives s)(ob := l)) x)) = (\<lambda>ob. owner (lives s ob))"
    using own by (simp add: fun_eq_iff)
  moreover have "life_inv l" using thread_step_inv [OF l I(1)] .
  ultimately have "sim_inv qs obs (s\<lparr>lives := (lives s)(ob := l)\<rparr>)"
    using I own by (simp add: sim_inv_def)
  with r show ?thesis by simp
qed

text \<open>The parameter of a run does not change.\<close>

lemma main_step_lax: "main_step op s = Some (Inr s') \<Longrightarrow> lax_delete s' = lax_delete s"
  by (cases op) (auto split: if_splits)

lemma sim_step_lax: "sim_step qs s e = Some (Inr s') \<Longrightarrow> lax_delete s' = lax_delete s"
  by (cases e) (auto dest: main_step_lax split: list.splits option.splits if_splits)

lemma sim_run_lax: "sim_run qs es s = Some (Inr s') \<Longrightarrow> lax_delete s' = lax_delete s"
proof (induction es arbitrary: s)
  case (Cons e es)
  then show ?case by (auto dest: sim_step_lax split: option.splits sum.splits)
qed simp

lemma owner_step_asleep: "owner_step l = Some l' \<Longrightarrow> asleep_until_built l \<Longrightarrow> asleep_until_built l'"
  by (cases "owner l") (auto simp: owner_step_def members_unset_def asleep_until_built_def split: if_splits)

lemma thread_step_asleep:
  assumes "thread_step l = Some l'" and "asleep_until_built l" and "thr l = Sleeping \<longrightarrow> \<not> members_unset l"
  shows "asleep_until_built l'"
  using assms thread_step_owner [OF assms(1)]
  by (cases "thr l") (auto simp: thread_step_def members_unset_def asleep_until_built_def split: if_splits)

lemma step_settled:
  assumes "settled s" and "in_time s e" and "sim_step qs s e = Some (Inr s')"
  shows "settled s'"
proof (cases e)
  case Main
  with assms(3) obtain op ops where op: "todo s = op # ops" "main_step op (s\<lparr>todo := ops\<rparr>) = Some (Inr s')"
    by (auto split: list.splits)
  then show ?thesis
    using assms(1) by (cases op) (auto simp: settled_def dest: owner_step_asleep split: if_splits)
next
  case (Thr ob)
  with assms(3) obtain l where l: "thread_step (lives s ob) = Some l" "s' = s\<lparr>lives := (lives s)(ob := l)\<rparr>"
    by (auto split: option.splits if_splits)
  then show ?thesis
    using assms(1,2) Thr thread_step_asleep [OF l(1)] by (simp add: settled_def)
qed

text \<open>The only fault is the wrong release, of a state in which it is next.\<close>

definition released_wrongly :: "sim \<Rightarrow> bool" where
  "released_wrongly s \<longleftrightarrow> \<not> lax_delete s \<and> (\<exists>ops. todo s = Delete_scalar Consumer_role # ops)"

lemma step_inv:
  assumes "sim_inv qs obs s" and "settled s" and "sim_step qs s e = Some r"
  shows "(\<exists>s'. r = Inr s' \<and> sim_inv qs obs s') \<or> (r = Inl Wrong_delete \<and> e = Main \<and> released_wrongly s)"
proof (cases e)
  case Main
  with assms(3) obtain op ops where "todo s = op # ops" "main_step op (s\<lparr>todo := ops\<rparr>) = Some r"
    by (auto split: list.splits)
  with main_step_inv [OF assms(1)] Main show ?thesis unfolding released_wrongly_def by blast
next
  case (Thr ob)
  with thread_event_inv [OF assms(1,2)] assms(3) show ?thesis by blast
qed

lemma sim_run_inv:
  assumes "sim_inv qs obs s" and "settled s" and "sleeps_long qs es s" and "sim_run qs es s = Some r"
  shows "(\<exists>s'. r = Inr s' \<and> sim_inv qs obs s' \<and> settled s') \<or>
    (r = Inl Wrong_delete \<and> (\<exists>es0 es1 s0. es = es0 @ Main # es1 \<and> sim_run qs es0 s = Some (Inr s0) \<and>
      sim_inv qs obs s0 \<and> released_wrongly s0))"
  using assms
proof (induction es arbitrary: s)
  case (Cons e es)
  from Cons.prems(4) obtain r1 where r1: "sim_step qs s e = Some r1" by (auto split: option.splits)
  from step_inv [OF Cons.prems(1,2) r1] show ?case
  proof (elim disjE exE conjE)
    fix s1 assume s1: "r1 = Inr s1" "sim_inv qs obs s1"
    have "settled s1"
      using step_settled [OF Cons.prems(2), of e qs s1] Cons.prems(3) r1 s1(1) by simp
    from Cons.IH [OF s1(2) this] Cons.prems(3,4) r1 s1(1)
    consider s' where "r = Inr s'" "sim_inv qs obs s'" "settled s'"
      | es0 es1 s0 where "r = Inl Wrong_delete" "es = es0 @ Main # es1" "sim_run qs es0 s1 = Some (Inr s0)"
          "sim_inv qs obs s0" "released_wrongly s0"
      by auto
    then show ?thesis
    proof cases
      case 2
      then have "e # es = (e # es0) @ Main # es1" "sim_run qs (e # es0) s = Some (Inr s0)" using r1 s1(1) by simp_all
      with 2 show ?thesis by blast
    qed blast
  next
    assume wrong: "r1 = Inl Wrong_delete" "e = Main" "released_wrongly s"
    then have "e # es = [] @ Main # es" "sim_run qs [] s = Some (Inr s)" "r = Inl Wrong_delete"
      using r1 Cons.prems(4) by simp_all
    with wrong Cons.prems(1) show ?thesis by blast
  qed
qed auto

section \<open>The join\<close>

text \<open>The steps a thread can still take once \<^verbatim>\<open>m_run\<close> is cleared.\<close>

fun steps_left :: "thread_pc \<Rightarrow> nat" where
  "steps_left Set_scheduler = 3"
| "steps_left Sleeping = 2"
| "steps_left Test_run = 1"
| "steps_left Call_work = 3"
| "steps_left In_work = 2"
| "steps_left _ = 0"

lemma steps_left_le: "steps_left t \<le> 3"
  by (cases t) simp_all

lemma stopping_thread:
  assumes "life_inv l" and "owner l = Stopping"
  shows "thread_step l = Some l' \<Longrightarrow> steps_left (thr l') < steps_left (thr l)"
    and "thr l \<noteq> Exited \<Longrightarrow> thread_step l \<noteq> None"
  using assms by (cases "thr l"; auto simp: thread_step_def life_inv_def thread_ok_def runs_def)+

definition count_thread :: "obj \<Rightarrow> sim_event list \<Rightarrow> nat" where
  "count_thread ob es = length (filter (\<lambda>e. e = Thr ob) es)"

text \<open>While the main thread waits, its thread can always move and comes closer to its end.\<close>

lemma waiting_run:
  assumes "sim_run qs es s = Some (Inr s')" and "Main \<notin> set es"
    and "life_inv (lives s ob)" and "owner (lives s ob) = Stopping"
  shows "count_thread ob es + steps_left (thr (lives s' ob)) \<le> steps_left (thr (lives s ob)) \<and>
    life_inv (lives s' ob) \<and> owner (lives s' ob) = Stopping \<and> todo s' = todo s"
  using assms
proof (induction es arbitrary: s)
  case (Cons e es)
  then obtain x where e: "e = Thr x" by (cases e) auto
  with Cons.prems(1) obtain l where l: "thread_step (lives s x) = Some l"
    "sim_run qs es (s\<lparr>lives := (lives s)(x := l)\<rparr>) = Some (Inr s')"
    by (auto split: option.splits if_splits)
  let ?s = "s\<lparr>lives := (lives s)(x := l)\<rparr>"
  have s1: "life_inv (lives ?s ob)" "owner (lives ?s ob) = Stopping"
    using Cons.prems(3,4) thread_step_inv [OF l(1)] thread_step_owner [OF l(1)] by auto
  have "steps_left (thr (lives ?s ob)) + (if e = Thr ob then 1 else 0) \<le> steps_left (thr (lives s ob))"
    using stopping_thread(1) [of "lives s ob" l] Cons.prems(3,4) l(1) e by auto
  moreover have "Main \<notin> set es" using Cons.prems(2) by simp
  ultimately show ?case
    using Cons.IH [OF l(2) _ s1] by (auto simp: count_thread_def)
qed (simp add: count_thread_def)

lemma waiting_arrays:
  "Main \<notin> set es \<Longrightarrow> sim_run qs es s = Some (Inr s') \<Longrightarrow> live_arrays s' = live_arrays s"
proof (induction es arbitrary: s)
  case (Cons e es)
  then show ?case by (cases e) (auto split: option.splits if_splits dest: Cons.IH)
qed simp

section \<open>From the set-up to the end\<close>

text \<open>The settings with which the set-up succeeds on a machine of \<open>n\<close> cores.\<close>

definition fair_settings :: "nat \<Rightarrow> sim_options \<Rightarrow> bool" where
  "fair_settings n opts \<longleftrightarrow>
     1 \<le> n \<and> n \<le> 32 \<and> 0 \<le> queue_size opts \<and>
     0 \<le> producers_per_core opts \<and> 0 \<le> consumers_per_core opts \<and>
     int n * producers_per_core opts \<le> INT_MAX \<and> int n * consumers_per_core opts \<le> INT_MAX"

lemma queue_of_set_up:
  assumes "index_of ob < count_of (n * p) (n * c) (role_of ob)"
  shows "\<exists>i < n. queue_of (array_of (map Some (map (nth_thread p) [0..<n * p]))
      (map Some (map (nth_thread c) [0..<n * c]))) ob = Some (int i)"
proof -
  have "\<exists>i < n. st_queue (nth_thread m k) = Some (int i)" if "k < n * m" for m k
    using that by (cases m) (auto simp: nth_thread_def div_less_iff_less_mult)
  then show ?thesis
    using assms by (cases "role_of ob")
      (auto simp: queue_of_def array_of_def array_get_def count_of_def simp del: of_nat_mult)
qed

text \<open>The run starts in the invariant.\<close>

definition set_up_queues :: "nat \<Rightarrow> nat \<Rightarrow> nat \<Rightarrow> obj \<Rightarrow> int option" where
  "set_up_queues n p c = queue_of (array_of (map Some (map (nth_thread p) [0..<n * p]))
     (map Some (map (nth_thread c) [0..<n * c])))"

lemma simulate_start:
  assumes "fair_settings n opts" and "length junk = 32"
    and "p = nat (producers_per_core opts)" and "c = nat (consumers_per_core opts)"
  shows "simulate lax junk (int n) opts es
      = sim_run (set_up_queues n p c) es (sim_start lax n opts (n * p) (n * c))"
    and "sim_inv (set_up_queues n p c) (\<lambda>ob. index_of ob < count_of (n * p) (n * c) (role_of ob))
      (sim_start lax n opts (n * p) (n * c))"
    and "settled (sim_start lax n opts (n * p) (n * c))"
proof -
  have "sim_setup junk (int n) opts =
    Inr ((int (n * p), map Some (map (nth_thread p) [0..<n * p])),
         (int (n * c), map Some (map (nth_thread c) [0..<n * c])))"
    using assms unfolding fair_settings_def by (intro sim_setup_eq) auto
  then show "simulate lax junk (int n) opts es
      = sim_run (set_up_queues n p c) es (sim_start lax n opts (n * p) (n * c))"
    by (simp add: simulate_def set_up_queues_def nat_mult_distrib)
  show "sim_inv (set_up_queues n p c) (\<lambda>ob. index_of ob < count_of (n * p) (n * c) (role_of ob))
      (sim_start lax n opts (n * p) (n * c))"
    using plan_main [of opts p c n "set_up_queues n p c"] queue_of_set_up assms(3,4) life_inv_unborn
      main_releases_wrongly
    by (simp add: sim_inv_def sim_start_def set_up_queues_def present_def unborn_def)
  show "settled (sim_start lax n opts (n * p) (n * c))"
    by (simp add: settled_def sim_start_def asleep_until_built_def members_unset_def unborn_def)
qed

definition in_time_run :: "bool \<Rightarrow> nat \<Rightarrow> sim_options \<Rightarrow> sim_event list \<Rightarrow> bool" where
  "in_time_run lax n opts es =
     (let p = nat (producers_per_core opts); c = nat (consumers_per_core opts)
      in sleeps_long (set_up_queues n p c) es (sim_start lax n opts (n * p) (n * c)))"

lemma simulate_inv:
  assumes "fair_settings n opts" and "length junk = 32" and "in_time_run lax n opts es"
    and "simulate lax junk (int n) opts es = Some r"
    and "p = nat (producers_per_core opts)" and "c = nat (consumers_per_core opts)"
    and "obs = (\<lambda>ob. index_of ob < count_of (n * p) (n * c) (role_of ob))"
  shows "(\<exists>s. r = Inr s \<and> sim_inv (set_up_queues n p c) obs s \<and> settled s \<and> lax_delete s = lax) \<or>
    (r = Inl Wrong_delete \<and> (\<exists>es0 es1 s0. es = es0 @ Main # es1 \<and> simulate lax junk (int n) opts es0 = Some (Inr s0) \<and>
      sim_inv (set_up_queues n p c) obs s0 \<and> released_wrongly s0 \<and> lax_delete s0 = lax))"
proof -
  note start = simulate_start [OF assms(1,2,5,6)]
  have same: "lax_delete s = lax"
    if "sim_run (set_up_queues n p c) es' (sim_start lax n opts (n * p) (n * c)) = Some (Inr s)" for es' s
    using sim_run_lax [OF that] by (simp add: sim_start_def)
  have "sleeps_long (set_up_queues n p c) es (sim_start lax n opts (n * p) (n * c))"
    using assms(3) by (simp add: in_time_run_def assms(5,6) Let_def)
  from sim_run_inv [OF start(2,3) this] assms(4) show ?thesis
    unfolding start(1) assms(7) using same by blast
qed

section \<open>Properties\<close>

text \<open>
  C23: How the simulation of Chapter 12 ends, on a machine of 1 to 32 cores with settings that \<^verbatim>\<open>main\<close> can set up, and provided
  the threads' first sleep outlasts the construction of their objects. No interleaving of \<^verbatim>\<open>main\<close> with the threads it
  started uses a queue or an array that is not allocated, or releases one twice: as long as a thread has not left
  \<^verbatim>\<open>run\<close>, the queue it was given is allocated. The one fault is the plain \<^verbatim>\<open>delete\<close> of the consumers' array, where the
  implementation does not take it for \<^verbatim>\<open>delete[]\<close>: it comes when the threads are gone and the objects destroyed, exactly those
  the settings ask for, with only the queues left to release. Where the implementation goes on, \<^verbatim>\<open>main\<close> comes to its
  end with all queues and arrays released, and only there.
\<close>

theorem simulation_ends_clean:
  assumes "fair_settings n opts" and "length junk = 32" and "in_time_run lax n opts es"
    and "simulate lax junk (int n) opts es = Some r"
    and "p = nat (producers_per_core opts)" and "c = nat (consumers_per_core opts)"
  shows "(\<exists>s. r = Inr s \<and>
      (\<forall>ob. thr (lives s ob) \<notin> {No_thread, Exited} \<longrightarrow>
         (\<exists>q. set_up_queues n p c ob = Some q \<and> q \<in> live_queues s)) \<and>
      (todo s = [] \<longrightarrow> lax \<and> live_queues s = {} \<and> live_arrays s = {} \<and>
         (\<forall>ob. if index_of ob < count_of (n * p) (n * c) (role_of ob)
               then owner (lives s ob) = Destroyed \<and> thr (lives s ob) = Exited
               else owner (lives s ob) = Unborn \<and> thr (lives s ob) = No_thread))) \<or>
    (r = Inl Wrong_delete \<and> \<not> lax \<and>
      (\<exists>es0 es1 s0. es = es0 @ Main # es1 \<and> simulate lax junk (int n) opts es0 = Some (Inr s0) \<and>
         (\<exists>ops. todo s0 = Delete_scalar Consumer_role # ops) \<and> live_arrays s0 = {Consumer_role} \<and>
         (\<forall>ob. if index_of ob < count_of (n * p) (n * c) (role_of ob)
               then owner (lives s0 ob) = Destroyed \<and> thr (lives s0 ob) = Exited
               else owner (lives s0 ob) = Unborn \<and> thr (lives s0 ob) = No_thread)))"
proof -
  let ?obs = "\<lambda>ob. index_of ob < count_of (n * p) (n * c) (role_of ob)"
  have T: "thread_ok (owner (lives s ob)) (thr (lives s ob))" if "sim_inv (set_up_queues n p c) ?obs s" for s ob
    using sim_invD(1) [OF that, of ob] by (simp add: life_inv_def)
  have gone: "if ?obs ob then owner (lives s ob) = Destroyed \<and> thr (lives s ob) = Exited
      else owner (lives s ob) = Unborn \<and> thr (lives s ob) = No_thread"
    if "sim_inv (set_up_queues n p c) ?obs s" "owner (lives s ob) = (if ?obs ob then Destroyed else Unborn)" for s ob
    using T [OF that(1), of ob] that(2) by (simp add: thread_ok_def)
  from simulate_inv [OF assms refl] show ?thesis
  proof (elim disjE exE conjE)
    fix s assume s: "r = Inr s" "sim_inv (set_up_queues n p c) ?obs s" "lax_delete s = lax"
    note I = sim_invD [OF s(2)]
    have "present (owner (lives s ob))" if "thr (lives s ob) \<notin> {No_thread, Exited}" for ob
      using T [OF s(2), of ob] that by (auto simp: present_def thread_ok_def)
    moreover have "lax \<and> live_queues s = {} \<and> live_arrays s = {} \<and>
        (\<forall>ob. owner (lives s ob) = (if ?obs ob then Destroyed else Unborn))"
      if "todo s = []" using I(2,4) s(3) that by simp
    ultimately show ?thesis using s(1) I(3) gone [OF s(2)] by simp
  next
    fix es0 es1 s0 assume wrong: "r = Inl Wrong_delete" "es = es0 @ Main # es1"
      "simulate lax junk (int n) opts es0 = Some (Inr s0)" "sim_inv (set_up_queues n p c) ?obs s0"
      "released_wrongly s0" "lax_delete s0 = lax"
    from wrong(5,6) obtain ops where todo: "todo s0 = Delete_scalar Consumer_role # ops" "\<not> lax"
      by (auto simp: released_wrongly_def)
    from sim_invD(2) [OF wrong(4)] todo(1) have "live_arrays s0 = {Consumer_role}"
      "\<And>ob. owner (lives s0 ob) = (if ?obs ob then Destroyed else Unborn)" by simp_all
    with wrong todo gone [OF wrong(4)] show ?thesis by blast
  qed
qed

text \<open>
  One core: both threads run. Where \<^verbatim>\<open>delete\<close> takes the array, \<^verbatim>\<open>main\<close> comes to its end; where it does not, the same run
  ends at that release.
\<close>

definition one_core_events :: "sim_event list" where
  "one_core_events =
     (let c = Thr (Object Consumer_role 0); p = Thr (Object Producer_role 0)
      in replicate 9 Main @ [c, c, p, p, Main, c, c, Main, Main, p] @ replicate 6 Main @ [c, c] @ replicate 4 Main)"

lemmas sim_eval = sim_start_def main_ops_def new_objects_def delete_objects_def new_object_def
  delete_object_def default_options_def life_step_defs uses_queue_def members_unset_def
  set_up_queues_def queue_of_def array_of_def array_get_def nth_thread_def

lemma demo_settings:
  "fair_settings 1 default_options" "length (replicate 32 SCHED_OTHER) = 32"
  "1 = nat (producers_per_core default_options)" "1 = nat (consumers_per_core default_options)"
  by (simp_all add: fair_settings_def default_options_def INT_MAX_def)

lemma one_core_in_time: "in_time_run lax 1 default_options one_core_events"
  by (cases lax) (simp_all add: in_time_run_def one_core_events_def Let_def sim_eval eval_nat_numeral)

theorem simulation_ends_clean_witness:
  "(\<exists>s. simulate True (replicate 32 SCHED_OTHER) 1 default_options one_core_events = Some (Inr s) \<and>
     todo s = [] \<and> live_queues s = {} \<and>
     owner (lives s (Object Consumer_role 0)) = Destroyed \<and>
     works (lives s (Object Consumer_role 0)) = [(Derived_work, Alive)]) \<and>
   simulate False (replicate 32 SCHED_OTHER) 1 default_options one_core_events = Some (Inl Wrong_delete) \<and>
   (\<exists>es0 s0. simulate False (replicate 32 SCHED_OTHER) 1 default_options es0 = Some (Inr s0) \<and>
     owner (lives s0 (Object Consumer_role 0)) = Destroyed \<and> live_arrays s0 = {Consumer_role})"
proof -
  note start = simulate_start(1) [OF demo_settings]
  have run: "\<exists>s. sim_run (set_up_queues 1 1 1) one_core_events (sim_start True 1 default_options (1 * 1) (1 * 1)) = Some (Inr s) \<and>
      todo s = [] \<and> works (lives s (Object Consumer_role 0)) = [(Derived_work, Alive)]"
    by (simp add: one_core_events_def Let_def sim_eval eval_nat_numeral)
  from run obtain s where s: "simulate True (replicate 32 SCHED_OTHER) (int 1) default_options one_core_events = Some (Inr s)"
    "todo s = []" "works (lives s (Object Consumer_role 0)) = [(Derived_work, Alive)]"
    unfolding start by blast
  from simulation_ends_clean [OF demo_settings(1,2) one_core_in_time s(1) refl refl] s(2)
  have lax: "live_queues s = {} \<and> owner (lives s (Object Consumer_role 0)) = Destroyed"
    by (auto simp: count_of_def default_options_def dest!: spec [of _ "Object Consumer_role 0"])
  have strict: "simulate False (replicate 32 SCHED_OTHER) (int 1) default_options one_core_events = Some (Inl Wrong_delete)"
    unfolding start by (simp add: one_core_events_def Let_def sim_eval eval_nat_numeral)
  from simulation_ends_clean [OF demo_settings(1,2) one_core_in_time strict refl refl]
  obtain es0 s0 where "simulate False (replicate 32 SCHED_OTHER) (int 1) default_options es0 = Some (Inr s0)"
    "owner (lives s0 (Object Consumer_role 0)) = Destroyed" "live_arrays s0 = {Consumer_role}"
    by (auto simp: count_of_def default_options_def dest!: spec [of _ "Object Consumer_role 0"])
  with s lax strict show ?thesis by auto
qed

text \<open>
  C24: \<^verbatim>\<open>main\<close> never hangs, with settings that it can set up and the threads' first sleep outlasting the construction of their objects.
  Whatever has happened so far, it can go on with its next operation, unless it is
  joining a thread; then, in every continuation, that thread can always move until it has
  left \<^verbatim>\<open>run\<close>, it does so within three of its steps, and then \<^verbatim>\<open>main\<close> can go on. So under a scheduler that starves no thread
  the program ends, or comes to the plain \<^verbatim>\<open>delete\<close> of the consumers' array, where the implementation is not lax.
\<close>

theorem simulation_never_hangs:
  assumes "fair_settings n opts" and "length junk = 32" and "in_time_run lax n opts es"
    and "simulate lax junk (int n) opts es = Some (Inr s)"
    and "qs = set_up_queues n (nat (producers_per_core opts)) (nat (consumers_per_core opts))"
  shows "todo s = [] \<or> (\<exists>s'. sim_step qs s Main = Some (Inr s') \<and> todo s' = tl (todo s)) \<or>
    (\<exists>ob ops. todo s = Step_object ob # ops \<and> owner (lives s ob) = Stopping \<and>
      (\<forall>es' s'. Main \<notin> set es' \<longrightarrow> sim_run qs es' s = Some (Inr s') \<longrightarrow>
         count_thread ob es' \<le> 3 \<and>
         (if thr (lives s' ob) = Exited then \<exists>s''. sim_step qs s' Main = Some (Inr s'') \<and> todo s'' = ops
          else thread_step (lives s' ob) \<noteq> None))) \<or>
    (\<not> lax \<and> hd (todo s) = Delete_scalar Consumer_role \<and> sim_step qs s Main = Some (Inl Wrong_delete))"
proof (cases "todo s")
  case (Cons op ops)
  obtain obs where inv: "sim_inv qs obs s" "lax_delete s = lax"
    using simulate_inv [OF assms(1-4) refl refl refl] assms(5) by auto
  show ?thesis
  proof (cases "main_step op (s\<lparr>todo := ops\<rparr>)")
    case (Some r)
    from main_step_inv [OF inv(1) Cons Some] Some Cons inv(2) show ?thesis by fastforce
  next
    case None
    then obtain ob where op: "op = Step_object ob" "role_of ob \<in> live_arrays s" "owner_step (lives s ob) = None"
      "owner (lives s ob) \<noteq> Destroyed"
      by (cases op) (auto split: if_splits)
    then have own: "owner (lives s ob) = Stopping"
      by (cases "owner (lives s ob)") (simp_all add: owner_step_def)
    have "count_thread ob es' \<le> 3 \<and>
        (if thr (lives s' ob) = Exited then \<exists>s''. sim_step qs s' Main = Some (Inr s'') \<and> todo s'' = ops
         else thread_step (lives s' ob) \<noteq> None)"
      if es': "Main \<notin> set es'" "sim_run qs es' s = Some (Inr s')" for es' s'
    proof -
      from waiting_run [OF es'(2,1) sim_invD(1) [OF inv(1)] own] steps_left_le [of "thr (lives s ob)"]
      have w: "count_thread ob es' \<le> 3" "life_inv (lives s' ob)" "owner (lives s' ob) = Stopping" "todo s' = todo s"
        by auto
      have "live_arrays s' = live_arrays s" using es' by (rule waiting_arrays)
      then show ?thesis
        using w stopping_thread(2) [OF w(2,3)] Cons op(1,2) by (auto simp: owner_step_def)
    qed
    then show ?thesis using Cons op(1) own by blast
  qed
qed simp

text \<open>Up to the join of the producer's thread, which sleeps.\<close>

definition joining_events :: "sim_event list" where
  "joining_events =
     (let c = Thr (Object Consumer_role 0); p = Thr (Object Producer_role 0)
      in replicate 9 Main @ [c, c, p, Main, Main, Main])"

theorem simulation_never_hangs_witness:
  "\<exists>s. simulate False (replicate 32 SCHED_OTHER) 1 default_options joining_events = Some (Inr s) \<and>
     sim_step (set_up_queues 1 1 1) s Main = None \<and>
     (\<forall>es' s'. Main \<notin> set es' \<longrightarrow> sim_run (set_up_queues 1 1 1) es' s = Some (Inr s') \<longrightarrow>
        count_thread (Object Producer_role 0) es' \<le> 3)"
proof -
  note start = simulate_start(1) [OF demo_settings]
  have "\<exists>s. sim_run (set_up_queues 1 1 1) joining_events (sim_start False 1 default_options (1 * 1) (1 * 1)) = Some (Inr s) \<and>
      sim_step (set_up_queues 1 1 1) s Main = None \<and> (\<exists>ops. todo s = Step_object (Object Producer_role 0) # ops)"
    by (simp add: joining_events_def Let_def sim_eval eval_nat_numeral)
  then obtain s ops where s: "simulate False (replicate 32 SCHED_OTHER) (int 1) default_options joining_events = Some (Inr s)"
    "sim_step (set_up_queues 1 1 1) s Main = None" "todo s = Step_object (Object Producer_role 0) # ops"
    unfolding start by blast
  have time: "in_time_run False 1 default_options joining_events"
    by (simp add: in_time_run_def joining_events_def Let_def sim_eval eval_nat_numeral)
  from simulation_never_hangs [OF demo_settings(1,2) time s(1) refl] s(2,3) demo_settings(3,4)
  have "\<forall>es' s'. Main \<notin> set es' \<longrightarrow> sim_run (set_up_queues 1 1 1) es' s = Some (Inr s') \<longrightarrow>
      count_thread (Object Producer_role 0) es' \<le> 3"
    by auto
  with s(1,2) show ?thesis by auto
qed

text \<open>
  The sleep in \<^verbatim>\<open>run\<close> is the only thing that keeps a new thread from its object's unset members:
  a thread that is awake before the derived constructor has stored the queue works on whatever
  the member holds.
\<close>

lemma early_thread_uses_unset_queue:
  "simulate lax (replicate 32 SCHED_OTHER) 1 default_options
     (replicate 4 Main @ replicate 3 (Thr (Object Consumer_role 0)) @ [Main, Thr (Object Consumer_role 0)])
   = Some (Inl Null_dereference)"
proof -
  note start = simulate_start(1) [OF demo_settings, simplified]
  show ?thesis
    unfolding start by (simp add: Let_def sim_eval eval_nat_numeral)
qed

end
