(* ===== verification/Sim_Args.thy ===== *)
theory Sim_Args
  imports C_Text Posix
begin

text \<open>
  What the simulations of Chapter 14 make of their arguments. The parent names the shared
  object after its id (\<^verbatim>\<open>sprintf\<close> into 30 bytes), turns its three numbers into text with
  \<^verbatim>\<open>itoa\<close> and passes them to the two child programs, which read them with the C library's
  \<^verbatim>\<open>atoi\<close>, make the name again and choose the scheduling policy.
\<close>

section \<open>Names\<close>

definition shm_name :: "byte list \<Rightarrow> int \<Rightarrow> byte list result" where
  "shm_name buf oid = sprintf_int buf ''PC_SHM_NAME_'' oid"

definition mq_name :: "byte list \<Rightarrow> int \<Rightarrow> byte list result" where
  "mq_name buf oid = sprintf_int buf ''/PC_MESSAGE_Q_NAME_'' oid"

section \<open>The arguments of the child programs\<close>

definition word_of :: "int \<Rightarrow> 32 word" where
  "word_of x = word_of_int x"

text \<open>
  The parent: \<^verbatim>\<open>core_str[4]\<close>, \<^verbatim>\<open>id_str[12]\<close> and \<^verbatim>\<open>time_str[12]\<close>, filled by \<^verbatim>\<open>itoa\<close> (an int argument
  becomes unsigned).
\<close>

definition parent_args :: "int \<Rightarrow> int \<Rightarrow> int \<Rightarrow> (byte list \<times> byte list \<times> byte list) result" where
  "parent_args target_core oid seconds_to_run =
     bind_result (itoa (word_of target_core) (replicate 4 0) 10) (\<lambda>core_str.
     bind_result (itoa (word_of oid) (replicate 12 0) 10) (\<lambda>id_str.
     bind_result (itoa (word_of seconds_to_run) (replicate 12 0) 10) (\<lambda>time_str.
       Inr (core_str, id_str, time_str))))"

text \<open>The options a program of Chapter 14 understands, and its loop over them.\<close>

datatype sim_option = Opt_c "byte list" | Opt_n "byte list" | Opt_t "byte list" | Opt_h | Opt_unknown

record sim_settings =
  target_core :: int
  sim_id :: int
  seconds_to_run :: int

definition default_settings :: sim_settings where
  "default_settings = \<lparr>target_core = 0, sim_id = 0, seconds_to_run = 10\<rparr>"

text \<open>\<^verbatim>\<open>None\<close> as settings: the help was shown and the program left.\<close>

fun read_options :: "sim_option list \<Rightarrow> sim_settings \<Rightarrow> sim_settings option result" where
  "read_options [] s = Inr (Some s)"
| "read_options (opt # opts) s =
     (case opt of
        Opt_h \<Rightarrow> Inr None
      | Opt_c t \<Rightarrow> bind_result (c_atoi t) (\<lambda>x. read_options opts (s\<lparr>target_core := x\<rparr>))
      | Opt_n t \<Rightarrow> bind_result (c_atoi t) (\<lambda>x. read_options opts (s\<lparr>sim_id := x\<rparr>))
      | Opt_t t \<Rightarrow> bind_result (c_atoi t) (\<lambda>x. read_options opts (s\<lparr>seconds_to_run := x\<rparr>))
      | Opt_unknown \<Rightarrow> read_options opts s)"

text \<open>The object a child creates: \<^verbatim>\<open>new Producer(queue, id, 1000, policy, core)\<close>.\<close>

record child_thread =
  child_id :: int
  child_priority :: int
  child_policy :: policy
  child_core :: int

definition child_object :: "sim_settings \<Rightarrow> child_thread" where
  "child_object s =
     \<lparr>child_id = sim_id s, child_priority = 1000,
      child_policy = (if target_core s = 0 then SCHED_RR else SCHED_OTHER), child_core = target_core s\<rparr>"

lemma unat_word_of: "0 \<le> x \<Longrightarrow> x \<le> INT_MAX \<Longrightarrow> unat (word_of x) = nat x"
  by (simp add: word_of_def INT_MAX_def unat_eq_nat_uint take_bit_eq_mod uint_word_of_int)

lemma word_of_neg: "INT_MIN \<le> x \<Longrightarrow> x < 0 \<Longrightarrow> 2147483648 \<le> unat (word_of x)"
proof -
  assume x: "INT_MIN \<le> x" "x < 0"
  then have "uint (word_of x) = x + 4294967296"
    by (simp add: word_of_def INT_MIN_def uint_word_of_int mod_pos_pos_trivial
        mod_add_self2 [of x, symmetric] del: mod_add_self2)
  with x show ?thesis by (simp add: unat_eq_nat_uint INT_MIN_def)
qed

lemma itoa_decimal:
  "itoa n str 10 =
    (let t = numeral_text 10 (unat n)
     in if length t < length str then Inr (t @ 0 # drop (Suc (length t)) str) else Inl Out_of_bounds)"
  using itoa_exact [of 10 n str] by simp

lemma itoa_c_atoi:
  assumes "0 \<le> x" and "x \<le> INT_MAX" and "itoa (word_of x) str 10 = Inr d"
  shows "c_atoi d = Inr x"
proof -
  from assms obtain rest where "d = numeral_text 10 (nat x) @ 0 # rest"
    by (auto simp: itoa_decimal Let_def unat_word_of split: if_splits)
  with c_atoi_numeral [of "nat x" rest] assms(1,2) show ?thesis by simp
qed

lemma itoa_wide_ok: "\<exists>d. itoa (word_of x) (replicate 12 0) 10 = Inr d"
proof -
  have "unat (word_of x) < 2 ^ LENGTH(32)" by (rule unsigned_less)
  then have "unat (word_of x) < 10 ^ Suc 9" by simp
  with numeral_text_length_le [of 10 "unat (word_of x)" 9] show ?thesis
    by (simp add: itoa_decimal Let_def)
qed

lemma itoa_core:
  assumes "in_int x"
  shows "itoa (word_of x) (replicate 4 0) 10 = Inl Out_of_bounds \<longleftrightarrow> \<not> (0 \<le> x \<and> x < 1000)"
    and "0 \<le> x \<Longrightarrow> x < 1000 \<Longrightarrow> \<exists>d. itoa (word_of x) (replicate 4 0) 10 = Inr d"
proof -
  have len: "length (numeral_text 10 (unat (word_of x))) < 4 \<longleftrightarrow> 0 \<le> x \<and> x < 1000"
  proof (cases "0 \<le> x \<and> x < 1000")
    case True
    then have "unat (word_of x) < 10 ^ Suc 2" by (simp add: unat_word_of INT_MAX_def nat_less_iff)
    with numeral_text_length_le [of 10 "unat (word_of x)" 2] True show ?thesis by simp
  next
    case False
    then have "10 ^ 3 \<le> unat (word_of x)"
      using assms word_of_neg [of x] unat_word_of [of x] by (cases "x < 0") (auto simp: in_int_def)
    with numeral_text_length_gt [of 10 3 "unat (word_of x)"] False show ?thesis by simp
  qed
  show "itoa (word_of x) (replicate 4 0) 10 = Inl Out_of_bounds \<longleftrightarrow> \<not> (0 \<le> x \<and> x < 1000)"
    unfolding itoa_decimal Let_def using len by simp
  show "0 \<le> x \<Longrightarrow> x < 1000 \<Longrightarrow> \<exists>d. itoa (word_of x) (replicate 4 0) 10 = Inr d"
    unfolding itoa_decimal Let_def using len by simp
qed

section \<open>Properties\<close>

text \<open>
  For every base from 2 on, \<^verbatim>\<open>itoa\<close> ends. It writes the number's digits, highest first, and the
  terminator, and leaves the rest of the array alone, when the array is long enough; otherwise
  it writes past the array's end.
\<close>

lemma itoa_writes_numeral:
  assumes "2 \<le> unat base"
  shows "itoa n str base =
    (let t = numeral_text (unat base) (unat n)
     in if length t < length str then Inr (t @ 0 # drop (Suc (length t)) str) else Inl Out_of_bounds)"
  using assms by (rule itoa_exact)

theorem itoa_writes_numeral_witness:
  "itoa 300 (replicate 5 7) 16 = Inr [49, 50, 67, 0, 7] \<and> itoa 300 (replicate 3 7) 16 = Inl Out_of_bounds"
proof -
  have "numeral_text 16 300 = [49, 50, 67]"
    by (simp add: numeral_text_def low_digits_step digit_char_def)
  moreover have "unat (16 :: 32 word) = 16" "unat (300 :: 32 word) = 300" by simp_all
  moreover have "replicate 5 (7 :: byte) = [7, 7, 7, 7, 7]" "replicate 3 (7 :: byte) = [7, 7, 7]"
    by (simp_all add: numeral_eq_Suc)
  ultimately show ?thesis
    using itoa_writes_numeral [of 16 300 "replicate 5 7"] itoa_writes_numeral [of 16 300 "replicate 3 7"]
    by simp
qed

text \<open>
  The children of a simulation get the settings of their parent: the texts that \<^verbatim>\<open>itoa\<close> makes of
  a core below 1000, a non-negative id and a non-negative time fit their arrays and are read
  back as the same numbers, and the thread a child creates is real-time exactly on core 0. Any
  other core, negative or from 1000 on, overruns the four bytes of \<^verbatim>\<open>core_str\<close>.
\<close>

lemma children_get_settings:
  assumes "in_int core" and "0 \<le> oid" and "oid \<le> INT_MAX" and "0 \<le> secs" and "secs \<le> INT_MAX"
  shows "if 0 \<le> core \<and> core < 1000
    then (\<exists>c n t. parent_args core oid secs = Inr (c, n, t) \<and>
      read_options [Opt_c c, Opt_n n, Opt_t t] default_settings
        = Inr (Some \<lparr>target_core = core, sim_id = oid, seconds_to_run = secs\<rparr>) \<and>
      (child_policy (child_object \<lparr>target_core = core, sim_id = oid, seconds_to_run = secs\<rparr>) = SCHED_RR
        \<longleftrightarrow> core = 0))
    else parent_args core oid secs = Inl Out_of_bounds"
proof (cases "0 \<le> core \<and> core < 1000")
  case True
  from itoa_core(2) [OF assms(1)] True obtain c where
    c: "itoa (word_of core) (replicate 4 0) 10 = Inr c" by blast
  obtain n t where n: "itoa (word_of oid) (replicate 12 0) 10 = Inr n"
    and t: "itoa (word_of secs) (replicate 12 0) 10 = Inr t"
    using itoa_wide_ok by meson
  have "core \<le> INT_MAX" using assms(1) by (simp add: in_int_def)
  then have "c_atoi c = Inr core" using itoa_c_atoi c True by blast
  moreover have "c_atoi n = Inr oid" "c_atoi t = Inr secs"
    using itoa_c_atoi n t assms(2-5) by blast+
  ultimately show ?thesis
    using True by (simp add: parent_args_def c n t default_settings_def child_object_def)
next
  case False
  with itoa_core(1) [OF assms(1)] show ?thesis by (simp add: parent_args_def)
qed

theorem children_get_settings_witness:
  "(\<exists>c n t. parent_args 3 12 30 = Inr (c, n, t) \<and>
      read_options [Opt_c c, Opt_n n, Opt_t t] default_settings
        = Inr (Some \<lparr>target_core = 3, sim_id = 12, seconds_to_run = 30\<rparr>)) \<and>
   parent_args 1000 12 30 = Inl Out_of_bounds"
  using children_get_settings [of 3 12 30] children_get_settings [of 1000 12 30]
  by (auto simp: in_int_def INT_MAX_def INT_MIN_def)

text \<open>
  The name of the shared memory fits its 30 bytes for every id; the name of the message queue
  fits for every id but those below -999999999, whose eleven characters overrun the array by
  one byte. Different ids have different names.
\<close>

lemma object_names:
  assumes "in_int x" and "length buf = 30"
  shows "(\<exists>d. shm_name buf x = Inr d \<and> c_string d = bytes ''PC_SHM_NAME_'' @ decimal_text x) \<and>
    (mq_name buf x = Inl Out_of_bounds \<longleftrightarrow> x \<le> - 1000000000) \<and>
    (shm_name buf x = shm_name buf y \<longrightarrow> x = y) \<and>
    (mq_name buf x = mq_name buf y \<longrightarrow> x = y \<or> x \<le> - 1000000000)"
proof -
  have len: "length (decimal_text x) \<le> 11" "length (decimal_text x) = 11 \<longleftrightarrow> x \<le> - 1000000000"
    using decimal_text_length [OF assms(1)] by blast+
  have nz: "c \<noteq> 0" if "c \<in> set (bytes ''PC_SHM_NAME_'') \<or> c \<in> set (bytes ''/PC_MESSAGE_Q_NAME_'')" for c
    using that by (auto simp: bytes_def)
  obtain d where d: "shm_name buf x = Inr d"
    using len(1) assms(2) by (simp add: shm_name_def sprintf_int_def Let_def)
  then have named: "c_string d = bytes ''PC_SHM_NAME_'' @ decimal_text x"
    unfolding shm_name_def by (rule sprintf_int_string) (use nz in blast)
  have "x = y" if "shm_name buf x = shm_name buf y"
  proof -
    from that d have "shm_name buf y = Inr d" by simp
    then have "c_string d = bytes ''PC_SHM_NAME_'' @ decimal_text y"
      unfolding shm_name_def by (rule sprintf_int_string) (use nz in blast)
    with named show ?thesis by (auto dest: decimal_text_inj)
  qed
  moreover have fits: "mq_name buf x = Inl Out_of_bounds \<longleftrightarrow> x \<le> - 1000000000"
    using len assms(2) by (auto simp: mq_name_def sprintf_int_def Let_def)
  moreover have "x = y" if "mq_name buf x = mq_name buf y" "\<not> x \<le> - 1000000000"
  proof -
    from that(2) fits obtain e where e: "mq_name buf x = Inr e"
      by (auto simp: mq_name_def sprintf_int_def Let_def split: if_splits)
    with that(1) have "mq_name buf y = Inr e" by simp
    then have "c_string e = bytes ''/PC_MESSAGE_Q_NAME_'' @ decimal_text y"
      unfolding mq_name_def by (rule sprintf_int_string) (use nz in blast)
    moreover from e have "c_string e = bytes ''/PC_MESSAGE_Q_NAME_'' @ decimal_text x"
      unfolding mq_name_def by (rule sprintf_int_string) (use nz in blast)
    ultimately show ?thesis by (auto dest: decimal_text_inj)
  qed
  ultimately show ?thesis using d named by blast
qed

theorem object_names_witness:
  "mq_name (replicate 30 0) (- 1000000000) = Inl Out_of_bounds \<and>
   mq_name (replicate 30 0) (- 999999999) \<noteq> Inl Out_of_bounds \<and>
   (\<exists>d. shm_name (replicate 30 0) 7 = Inr d)"
  using object_names [of "- 1000000000" "replicate 30 0" 0] object_names [of "- 999999999" "replicate 30 0" 0]
    object_names [of 7 "replicate 30 0" 0]
  by (simp add: in_int_def INT_MAX_def INT_MIN_def) blast

end
