(* ===== verification/Getopt.thy ===== *)
theory Getopt
  imports C_Text
begin

text \<open>
  The C library's \<^verbatim>\<open>getopt\<close> for short options, as the programs use it: an option's value may
  follow its letter in the same argument or be the next one, letters without values may share an
  argument, arguments that are no options are passed over, and \<^verbatim>\<open>--\<close> ends the options. Arguments
  are strings without their terminators.
\<close>

text \<open>What an option letter is to an option string: unknown, a flag, or an option with a value.\<close>

fun letter_kind :: "byte list \<Rightarrow> byte \<Rightarrow> bool option" where
  "letter_kind [] c = None"
| "letter_kind (x # xs) c =
     (if x = c \<and> c \<noteq> 58 then Some (xs \<noteq> [] \<and> hd xs = 58) else letter_kind xs c)"

text \<open>\<open>Bad\<close>: \<^verbatim>\<open>getopt\<close> returns \<^verbatim>\<open>'?'\<close>.\<close>

datatype option_read = Flag byte | Valued byte "byte list" | Bad byte

text \<open>The letters of one argument; the rest are the arguments not used up by a value.\<close>

fun read_letters :: "byte list \<Rightarrow> byte list \<Rightarrow> byte list list \<Rightarrow> option_read list \<times> byte list list" where
  "read_letters spec [] args = ([], args)"
| "read_letters spec (c # cs) args =
     (case letter_kind spec c of
        None \<Rightarrow> (let (os, r) = read_letters spec cs args in (Bad c # os, r))
      | Some False \<Rightarrow> (let (os, r) = read_letters spec cs args in (Flag c # os, r))
      | Some True \<Rightarrow>
          if cs \<noteq> [] then ([Valued c cs], args)
          else (case args of [] \<Rightarrow> ([Bad c], []) | a # as \<Rightarrow> ([Valued c a], as)))"

lemma read_letters_rest: "length (snd (read_letters spec cs args)) \<le> length args"
  by (induction spec cs args rule: read_letters.induct)
    (auto simp: Let_def split: option.split bool.split list.split prod.split)

function getopt :: "byte list \<Rightarrow> byte list list \<Rightarrow> option_read list" where
  "getopt spec [] = []"
| "getopt spec (a # as) =
     (if a = [45, 45] then []
      else if length a < 2 \<or> hd a \<noteq> 45 then getopt spec as
      else fst (read_letters spec (tl a) as) @ getopt spec (snd (read_letters spec (tl a) as)))"
  by pat_completeness auto
termination
  by (relation "measure (\<lambda>(spec, as). length as)")
    (auto simp: less_Suc_eq_le intro: read_letters_rest)

declare getopt.simps(2) [simp del]

text \<open>Both ways to write an option with its value are read alike.\<close>

lemma getopt_value_next:
  assumes "letter_kind spec c = Some True" and "c \<noteq> 45"
  shows "getopt spec ([45, c] # v # as) = Valued c v # getopt spec as"
  using assms by (simp add: getopt.simps(2))

lemma getopt_value_joined:
  assumes "letter_kind spec c = Some True" and "c \<noteq> 45" and "v \<noteq> []"
  shows "getopt spec ((45 # c # v) # as) = getopt spec ([45, c] # v # as)"
  using assms by (simp add: getopt.simps(2))

end
