(* ===== verification/Sim_Start.thy ===== *)
theory Sim_Start
  imports Sim_Args Sim_Main Getopt
begin

text \<open>
  How the simulators start, from the arguments on the command line to the settings. Each program's
  start is the code of its \<^verbatim>\<open>main\<close> up to its first system call, and for the parents of Chapter 14
  also the arguments they hand to \<^verbatim>\<open>execl\<close>.
\<close>

section \<open>The programs of Chapter 14\<close>

text \<open>\<^verbatim>\<open>"hc:n:t:"\<close>\<close>

definition child_letters :: "byte list" where
  "child_letters = bytes ''hc:n:t:''"

fun sim_option_of :: "option_read \<Rightarrow> sim_option" where
  "sim_option_of (Flag c) = (if c = 104 then Opt_h else Opt_unknown)"
| "sim_option_of (Valued c v) =
     (if c = 99 then Opt_c (v @ [0]) else if c = 110 then Opt_n (v @ [0])
      else if c = 116 then Opt_t (v @ [0]) else Opt_unknown)"
| "sim_option_of (Bad c) = Opt_unknown"

definition settings_of :: "byte list list \<Rightarrow> sim_settings option result" where
  "settings_of args = read_options (map sim_option_of (getopt child_letters args)) default_settings"

text \<open>
  A started child: the name of the object it will open, the thread it will make and how long it
  sleeps. \<^verbatim>\<open>None\<close>: the help was shown.
\<close>

record child_start =
  cs_name :: "byte list"
  cs_thread :: child_thread
  cs_sleep :: int

definition start_child :: "(byte list \<Rightarrow> int \<Rightarrow> byte list result) \<Rightarrow> byte list \<Rightarrow> byte list list \<Rightarrow> child_start option result" where
  "start_child naming junk args =
     bind_result (settings_of args) (\<lambda>st.
       case st of
         None \<Rightarrow> Inr None
       | Some s \<Rightarrow>
           bind_result (naming junk (sim_id s)) (\<lambda>name.
             Inr (Some \<lparr>cs_name = c_string name, cs_thread = child_object s, cs_sleep = seconds_to_run s\<rparr>)))"

definition shm_producer_start :: "byte list \<Rightarrow> byte list list \<Rightarrow> child_start option result" where
  "shm_producer_start = start_child shm_name"

definition shm_consumer_start :: "byte list \<Rightarrow> byte list list \<Rightarrow> child_start option result" where
  "shm_consumer_start = start_child shm_name"

definition mq_producer_start :: "byte list \<Rightarrow> byte list list \<Rightarrow> child_start option result" where
  "mq_producer_start = start_child mq_name"

definition mq_consumer_start :: "byte list \<Rightarrow> byte list list \<Rightarrow> child_start option result" where
  "mq_consumer_start = start_child mq_name"

text \<open>A started parent: the object's name and the arguments of both children.\<close>

record parent_start =
  ps_name :: "byte list"
  ps_id :: int
  ps_argv :: "byte list list"

definition exec_argv :: "byte list \<Rightarrow> byte list \<Rightarrow> byte list \<Rightarrow> byte list list" where
  "exec_argv core_str id_str time_str =
     [bytes ''-c'', c_string core_str, bytes ''-n'', c_string id_str, bytes ''-t'', c_string time_str]"

definition start_parent :: "(byte list \<Rightarrow> int \<Rightarrow> byte list result) \<Rightarrow> byte list \<Rightarrow> byte list list \<Rightarrow> parent_start option result" where
  "start_parent naming junk args =
     bind_result (settings_of args) (\<lambda>st.
       case st of
         None \<Rightarrow> Inr None
       | Some s \<Rightarrow>
           bind_result (naming junk (sim_id s)) (\<lambda>name.
           bind_result (parent_args (target_core s) (sim_id s) (seconds_to_run s)) (\<lambda>(core_str, id_str, time_str).
             Inr (Some \<lparr>ps_name = c_string name, ps_id = sim_id s, ps_argv = exec_argv core_str id_str time_str\<rparr>))))"

definition shm_parent_start :: "byte list \<Rightarrow> byte list list \<Rightarrow> parent_start option result" where
  "shm_parent_start = start_parent shm_name"

definition mq_parent_start :: "byte list \<Rightarrow> byte list list \<Rightarrow> parent_start option result" where
  "mq_parent_start = start_parent mq_name"

section \<open>The program of Chapter 12\<close>

text \<open>\<^verbatim>\<open>"ht:p:c:s:"\<close>\<close>

definition main_letters :: "byte list" where
  "main_letters = bytes ''ht:p:c:s:''"

fun main_option_of :: "option_read \<Rightarrow> main_option" where
  "main_option_of (Flag c) = (if c = 104 then Opt_help else Opt_invalid)"
| "main_option_of (Valued c v) =
     (if c = 116 then Opt_seconds (v @ [0]) else if c = 112 then Opt_producers (v @ [0])
      else if c = 99 then Opt_consumers (v @ [0]) else if c = 115 then Opt_size (v @ [0]) else Opt_invalid)"
| "main_option_of (Bad c) = Opt_invalid"

definition main_settings :: "byte list list \<Rightarrow> sim_options option result" where
  "main_settings args = main_options (map main_option_of (getopt main_letters args)) default_options"

section \<open>The settings reach the children\<close>

lemma letter_kinds:
  "letter_kind child_letters 99 = Some True" "letter_kind child_letters 110 = Some True"
  "letter_kind child_letters 116 = Some True" "letter_kind child_letters 104 = Some False"
  by (simp_all add: child_letters_def bytes_def)

lemma getopt_exec_argv:
  "map sim_option_of (getopt child_letters (exec_argv c n t))
    = [Opt_c (c_string c @ [0]), Opt_n (c_string n @ [0]), Opt_t (c_string t @ [0])]"
proof -
  have "bytes ''-c'' = [45, 99]" "bytes ''-n'' = [45, 110]" "bytes ''-t'' = [45, 116]"
    by (simp_all add: bytes_def)
  then show ?thesis
    by (simp add: exec_argv_def getopt_value_next letter_kinds)
qed

lemma c_atoi_text:
  assumes "0 \<le> x" and "x \<le> INT_MAX" and "itoa (word_of x) str 10 = Inr d"
  shows "c_atoi (c_string d @ [0]) = Inr x"
proof -
  obtain rest where d: "d = numeral_text 10 (nat x) @ 0 # rest"
    using assms by (auto simp: itoa_decimal Let_def unat_word_of split: if_splits)
  have zero: "\<not> is_digit 0" by (simp add: is_digit_def)
  moreover have "is_digit c" if "c \<in> set (numeral_text 10 (nat x))" for c
    using numeral_text_digits [of "nat x"] that by (simp add: list_all_iff)
  ultimately have "c_string d = numeral_text 10 (nat x)"
    unfolding d by (intro c_string_text) (use zero in metis)
  with c_atoi_numeral [of "nat x" "[]"] assms(1,2) show ?thesis by simp
qed

lemma settings_of_exec_argv:
  assumes "in_int core" and "0 \<le> core" and "core < 1000" and "0 \<le> oid" and "oid \<le> INT_MAX" and "0 \<le> secs" and "secs \<le> INT_MAX"
  shows "\<exists>c n t. parent_args core oid secs = Inr (c, n, t) \<and>
    settings_of (exec_argv c n t) = Inr (Some \<lparr>target_core = core, sim_id = oid, seconds_to_run = secs\<rparr>)"
proof -
  obtain c where c: "itoa (word_of core) (replicate 4 0) 10 = Inr c" using itoa_core(2) assms(1-3) by blast
  obtain n t where n: "itoa (word_of oid) (replicate 12 0) 10 = Inr n"
    and t: "itoa (word_of secs) (replicate 12 0) 10 = Inr t"
    using itoa_wide_ok by meson
  have "core \<le> INT_MAX" using assms(1) by (simp add: in_int_def)
  then show ?thesis
    using c_atoi_text [OF assms(2) _ c] c_atoi_text [OF assms(4,5) n] c_atoi_text [OF assms(6,7) t]
    by (simp add: parent_args_def c n t settings_of_def getopt_exec_argv default_settings_def)
qed

text \<open>The names fit their arrays, whatever these held before.\<close>

lemma names_fit:
  assumes "in_int x" and "- 1000000000 < x" and "length b = 30" and "length b' = 30"
  shows "\<exists>d d'. shm_name b x = Inr d \<and> shm_name b' x = Inr d' \<and> c_string d = c_string d'"
    and "\<exists>d d'. mq_name b x = Inr d \<and> mq_name b' x = Inr d' \<and> c_string d = c_string d'"
proof -
  have len: "length (decimal_text x) \<le> 10" using decimal_text_length [OF assms(1)] assms(2) by linarith
  have nz: "c \<noteq> 0" if "c \<in> set (bytes ''PC_SHM_NAME_'') \<or> c \<in> set (bytes ''/PC_MESSAGE_Q_NAME_'')" for c
    using that by (auto simp: bytes_def)
  obtain d d' where d: "shm_name b x = Inr d" "shm_name b' x = Inr d'"
    using len assms(3,4) by (simp add: shm_name_def sprintf_int_def Let_def)
  then have "c_string d = bytes ''PC_SHM_NAME_'' @ decimal_text x" "c_string d' = bytes ''PC_SHM_NAME_'' @ decimal_text x"
    unfolding shm_name_def using sprintf_int_string nz by blast+
  with d show "\<exists>d d'. shm_name b x = Inr d \<and> shm_name b' x = Inr d' \<and> c_string d = c_string d'" by simp
  obtain e e' where e: "mq_name b x = Inr e" "mq_name b' x = Inr e'"
    using len assms(3,4) by (simp add: mq_name_def sprintf_int_def Let_def)
  then have "c_string e = bytes ''/PC_MESSAGE_Q_NAME_'' @ decimal_text x" "c_string e' = bytes ''/PC_MESSAGE_Q_NAME_'' @ decimal_text x"
    unfolding mq_name_def using sprintf_int_string nz by blast+
  with e show "\<exists>d d'. mq_name b x = Inr d \<and> mq_name b' x = Inr d' \<and> c_string d = c_string d'" by simp
qed

lemma start_alike:
  assumes names: "\<And>b'. length b' = 30 \<Longrightarrow> \<exists>d d'. naming b (sim_id s) = Inr d \<and> naming b' (sim_id s) = Inr d' \<and> c_string d = c_string d'"
    and s: "settings_of args = Inr (Some s)" and len: "length b = 30" "length b1 = 30"
    and core: "in_int (target_core s)" "0 \<le> target_core s" "target_core s < 1000"
    and rest: "0 \<le> sim_id s" "sim_id s \<le> INT_MAX" "0 \<le> seconds_to_run s" "seconds_to_run s \<le> INT_MAX"
  shows "\<exists>l. start_parent naming b args = Inr (Some l) \<and>
    start_child naming b1 (ps_argv l)
      = Inr (Some \<lparr>cs_name = ps_name l, cs_thread = child_object s, cs_sleep = seconds_to_run s\<rparr>)"
proof -
  obtain c n t where cnt: "parent_args (target_core s) (sim_id s) (seconds_to_run s) = Inr (c, n, t)"
    "settings_of (exec_argv c n t) = Inr (Some \<lparr>target_core = target_core s, sim_id = sim_id s, seconds_to_run = seconds_to_run s\<rparr>)"
    using settings_of_exec_argv [OF core rest] by blast
  have "\<lparr>target_core = target_core s, sim_id = sim_id s, seconds_to_run = seconds_to_run s\<rparr> = s" by simp
  then have child: "settings_of (exec_argv c n t) = Inr (Some s)" using cnt(2) by simp
  obtain d d' where "naming b (sim_id s) = Inr d" "naming b1 (sim_id s) = Inr d'" "c_string d = c_string d'"
    using names [OF len(2)] by blast
  then show ?thesis
    using s cnt(1) child by (simp add: start_parent_def start_child_def)
qed

text \<open>
  From the command line to the children. Whatever arguments give a parent of Chapter 14 a core
  from 0 to 999, a non-negative id and a non-negative time, in any order, spelling and
  repetition, it starts, and the arguments it hands to \<^verbatim>\<open>execl\<close> make both children open the very object the
  parent has made, sleep for the parent's time and make a thread with its id on its core. The
  four programs over shared memory and over the message queue are alike in this.
\<close>

lemma children_start_alike:
  assumes "settings_of args = Inr (Some s)" and "in_int (target_core s)" and "0 \<le> target_core s" and "target_core s < 1000"
    and "0 \<le> sim_id s" and "sim_id s \<le> INT_MAX" and "0 \<le> seconds_to_run s" and "seconds_to_run s \<le> INT_MAX"
    and "length b = 30" and "length b1 = 30"
  shows "(\<exists>l. shm_parent_start b args = Inr (Some l) \<and>
      shm_producer_start b1 (ps_argv l) = Inr (Some \<lparr>cs_name = ps_name l, cs_thread = child_object s, cs_sleep = seconds_to_run s\<rparr>) \<and>
      shm_consumer_start b1 (ps_argv l) = shm_producer_start b1 (ps_argv l)) \<and>
    (\<exists>l. mq_parent_start b args = Inr (Some l) \<and>
      mq_producer_start b1 (ps_argv l) = Inr (Some \<lparr>cs_name = ps_name l, cs_thread = child_object s, cs_sleep = seconds_to_run s\<rparr>) \<and>
      mq_consumer_start b1 (ps_argv l) = mq_producer_start b1 (ps_argv l))"
proof -
  have id: "in_int (sim_id s)" "- 1000000000 < sim_id s" using assms(5,6) by (simp_all add: in_int_def INT_MIN_def)
  note alike = start_alike [OF _ assms(1,9,10) assms(2-8)]
  from alike [of shm_name, OF names_fit(1) [OF id assms(9)]]
  have "\<exists>l. start_parent shm_name b args = Inr (Some l) \<and>
    start_child shm_name b1 (ps_argv l)
      = Inr (Some \<lparr>cs_name = ps_name l, cs_thread = child_object s, cs_sleep = seconds_to_run s\<rparr>)" .
  moreover from alike [of mq_name, OF names_fit(2) [OF id assms(9)]]
  have "\<exists>l. start_parent mq_name b args = Inr (Some l) \<and>
    start_child mq_name b1 (ps_argv l)
      = Inr (Some \<lparr>cs_name = ps_name l, cs_thread = child_object s, cs_sleep = seconds_to_run s\<rparr>)" .
  ultimately show ?thesis
    by (simp add: shm_parent_start_def mq_parent_start_def shm_producer_start_def shm_consumer_start_def
        mq_producer_start_def mq_consumer_start_def)
qed

text \<open>\<^verbatim>\<open>ProducerConsumerSim -n7 -c 3 -x\<close>\<close>

definition sample_args :: "byte list list" where
  "sample_args = [bytes ''-n7'', bytes ''-c'', bytes ''3'', bytes ''-x'']"

lemma sample_settings:
  "settings_of sample_args = Inr (Some \<lparr>target_core = 3, sim_id = 7, seconds_to_run = 10\<rparr>)"
proof -
  have "map sim_option_of (getopt child_letters sample_args) = [Opt_n [55, 0], Opt_c [51, 0], Opt_unknown]"
    by (simp add: sample_args_def child_letters_def bytes_def getopt.simps(2))
  moreover have "c_atoi [55, 0] = Inr 7" "c_atoi [51, 0] = Inr 3"
    by (simp_all add: c_atoi_def is_space_def is_digit_def shift_in_def digit_of_def int_mul_def int_add_def int_sub_def
        checked_def in_int_def INT_MAX_def INT_MIN_def)
  ultimately show ?thesis by (simp add: settings_of_def default_settings_def)
qed

theorem children_start_alike_witness:
  "\<exists>l. shm_parent_start (replicate 30 0) sample_args = Inr (Some l) \<and>
    shm_consumer_start (replicate 30 1) (ps_argv l) =
      Inr (Some \<lparr>cs_name = ps_name l,
        cs_thread = \<lparr>child_id = 7, child_priority = 1000, child_policy = SCHED_OTHER, child_core = 3\<rparr>, cs_sleep = 10\<rparr>)"
proof -
  have "length (replicate 30 (0::byte)) = 30" "length (replicate 30 (1::byte)) = 30" by simp_all
  then show ?thesis
    using children_start_alike [OF sample_settings, of "replicate 30 0" "replicate 30 1"]
    by (auto simp: in_int_def INT_MAX_def INT_MIN_def child_object_def)
qed

text \<open>Without options, the simulator of Chapter 12 has its default settings.\<close>

lemma main_settings_default: "main_settings [] = Inr (Some default_options)"
  by (simp add: main_settings_def)

text \<open>\<^verbatim>\<open>-h\<close> makes each of the programs show the help and leave, whatever follows.\<close>

lemma help_leaves:
  "settings_of ([45, 104] # as) = Inr None" "main_settings ([45, 104] # as) = Inr None"
  by (simp_all add: settings_of_def main_settings_def getopt.simps(2) child_letters_def main_letters_def bytes_def)

end
