(* ===== verification/Sim_Threads.thy ===== *)
theory Sim_Threads
  imports Sim_Start Sched_Object
begin

text \<open>
  From the command line of a simulator of Chapter 14 to the scheduler settings that the threads of its
  children ask for: the start of the parent, the arguments of the children, the object a child makes
  and the \<^verbatim>\<open>set_scheduler\<close> of its thread. Both programs of Chapter 14 have the same \<^verbatim>\<open>Schedule/ScheduledObject.cpp\<close>.
\<close>

text \<open>The constructor stores what \<^verbatim>\<open>new Producer(queue, id, 1000, policy, core)\<close> passes on.\<close>

definition shm_scheduled :: "child_thread \<Rightarrow> scheduled_object" where
  "shm_scheduled ct =
     \<lparr>m_thread_policy = child_policy ct, m_thread_priority = child_priority ct, m_which_core = child_core ct\<rparr>"

definition mq_scheduled :: "child_thread \<Rightarrow> scheduled_object" where
  "mq_scheduled ct =
     \<lparr>m_thread_policy = child_policy ct, m_thread_priority = child_priority ct, m_which_core = child_core ct\<rparr>"

text \<open>
  What the new thread asks of the system before it sleeps: the priority cut to the policy's range, the policy
  unless it needs root, and the one core, unless that is 255.
\<close>

definition shm_set_scheduler ::
    "(policy \<Rightarrow> int) \<Rightarrow> (policy \<Rightarrow> int) \<Rightarrow> int \<Rightarrow> child_thread \<Rightarrow> sched_call list" where
  "shm_set_scheduler pmin pmax uid ct = set_scheduler pmin pmax uid (shm_scheduled ct)"

definition mq_set_scheduler ::
    "(policy \<Rightarrow> int) \<Rightarrow> (policy \<Rightarrow> int) \<Rightarrow> int \<Rightarrow> child_thread \<Rightarrow> sched_call list" where
  "mq_set_scheduler pmin pmax uid ct = set_scheduler pmin pmax uid (mq_scheduled ct)"

text \<open>
  The settings a user gets for a core. The priority 1000 that the simulators ask for is above every range, so
  it becomes the highest of the policy.
\<close>

definition core_settings :: "(policy \<Rightarrow> int) \<Rightarrow> int \<Rightarrow> int \<Rightarrow> sched_call list" where
  "core_settings pmax uid core =
     (if core \<noteq> 0 then [Set_schedparam SCHED_OTHER (pmax SCHED_OTHER)]
      else if uid = 0 then [Set_schedparam SCHED_RR (pmax SCHED_RR)] else [Sorry_non_root]) @
     (if core = 255 then [] else [Set_affinity {nat core}])"

lemma clamp_high: "pmin \<le> pmax \<Longrightarrow> pmax \<le> p \<Longrightarrow> clamp_priority pmin pmax p = pmax"
  by (simp add: clamp_priority_def Let_def)

lemma child_settings:
  assumes "\<And>pol. pmin pol \<le> pmax pol \<and> pmax pol \<le> 1000" and "0 \<le> target_core s" and "target_core s < 1000"
  shows "shm_set_scheduler pmin pmax uid (child_object s) = core_settings pmax uid (target_core s)"
    and "mq_set_scheduler pmin pmax uid (child_object s) = core_settings pmax uid (target_core s)"
  using assms
  by (simp_all add: shm_set_scheduler_def mq_set_scheduler_def shm_scheduled_def mq_scheduled_def set_scheduler_def
      child_object_def core_settings_def clamp_high cpu_set_add_def CPU_SETSIZE_def)

text \<open>
  C29: From the command line to the scheduler. Whatever arguments give a parent of Chapter 14 a core
  from 0 to 999, a non-negative id and a non-negative time, in any order, spelling and
  repetition, it starts, and the arguments it hands to \<^verbatim>\<open>execl\<close> make both children open the very object the
  parent has made, sleep for the parent's time and make a thread with its id, whose settings are those of the core
  (\<open>core_settings\<close>): on core 0 round robin with the highest real-time priority, if the user is root, and none but
  the affinity otherwise; on any other core the default policy; bound to that core, except that core 255 binds to none.
  The programs over shared memory and over the message queue are alike in this.
\<close>

theorem threads_scheduled_alike:
  assumes "settings_of args = Inr (Some s)" and "in_int (target_core s)" and "0 \<le> target_core s" and "target_core s < 1000"
    and "0 \<le> sim_id s" and "sim_id s \<le> INT_MAX" and "0 \<le> seconds_to_run s" and "seconds_to_run s \<le> INT_MAX"
    and "length b = 30" and "length b1 = 30" and "\<And>pol. pmin pol \<le> pmax pol \<and> pmax pol \<le> 1000"
  shows "(\<exists>l cs. shm_parent_start b args = Inr (Some l) \<and>
      shm_producer_start b1 (ps_argv l) = Inr (Some cs) \<and> shm_consumer_start b1 (ps_argv l) = Inr (Some cs) \<and>
      cs_name cs = ps_name l \<and> cs_sleep cs = seconds_to_run s \<and> child_id (cs_thread cs) = sim_id s \<and>
      shm_set_scheduler pmin pmax uid (cs_thread cs) = core_settings pmax uid (target_core s)) \<and>
    (\<exists>l cs. mq_parent_start b args = Inr (Some l) \<and>
      mq_producer_start b1 (ps_argv l) = Inr (Some cs) \<and> mq_consumer_start b1 (ps_argv l) = Inr (Some cs) \<and>
      cs_name cs = ps_name l \<and> cs_sleep cs = seconds_to_run s \<and> child_id (cs_thread cs) = sim_id s \<and>
      mq_set_scheduler pmin pmax uid (cs_thread cs) = core_settings pmax uid (target_core s))"
  using children_start_alike [OF assms(1-10)] child_settings [where pmin = pmin and pmax = pmax and uid = uid, OF assms(11,3,4)]
  by (auto simp: child_object_def)

text \<open>Core 3 for an ordinary user, with Linux's ranges of priorities.\<close>

theorem threads_scheduled_alike_witness:
  "\<exists>l cs. shm_parent_start (replicate 30 0) sample_args = Inr (Some l) \<and>
     shm_producer_start (replicate 30 1) (ps_argv l) = Inr (Some cs) \<and> child_id (cs_thread cs) = 7 \<and>
     shm_set_scheduler (\<lambda>pol. if pol = SCHED_OTHER then 0 else 1) (\<lambda>pol. if pol = SCHED_OTHER then 0 else 99) 1000 (cs_thread cs)
       = [Set_schedparam SCHED_OTHER 0, Set_affinity {3}]"
proof -
  let ?lo = "\<lambda>pol. if pol = SCHED_OTHER then 0 else 1" and ?hi = "\<lambda>pol. if pol = SCHED_OTHER then 0 else (99::int)"
  have "length (replicate 30 (0::byte)) = 30" "length (replicate 30 (1::byte)) = 30" by simp_all
  moreover have "?lo pol \<le> ?hi pol \<and> ?hi pol \<le> 1000" for pol by simp
  ultimately show ?thesis
    using threads_scheduled_alike [OF sample_settings, of "replicate 30 0" "replicate 30 1" ?lo ?hi 1000]
    by (auto simp: in_int_def INT_MAX_def INT_MIN_def core_settings_def)
qed

end
