(* ===== verification/Codec.thy ===== *)
theory Codec
  imports Work_Item C_Text
begin

text \<open>
  Objects as bytes. The programs of Chapters 14 and 15 copy whole structures into shared memory,
  into messages and into a socket. The interface \<open>fixed_codec\<close> states what such a
  representation promises (a fixed width and a round trip); what follows for arrays of objects
  in memory and for streams of objects is proved in it once.
\<close>

section \<open>Memory\<close>

definition mem_read :: "byte list \<Rightarrow> int \<Rightarrow> nat \<Rightarrow> byte list result" where
  "mem_read m off n =
     (if 0 \<le> off \<and> off + int n \<le> int (length m) then Inr (take n (drop (nat off) m))
      else Inl Out_of_bounds)"

definition mem_write :: "byte list \<Rightarrow> int \<Rightarrow> byte list \<Rightarrow> byte list result" where
  "mem_write m off bs =
     (if 0 \<le> off \<and> off + int (length bs) \<le> int (length m)
      then Inr (take (nat off) m @ bs @ drop (nat off + length bs) m) else Inl Out_of_bounds)"

lemma mem_write_nat:
  "mem_write m (int off) bs =
    (if off + length bs \<le> length m then Inr (take off m @ bs @ drop (off + length bs) m)
     else Inl Out_of_bounds)"
  by (simp add: mem_write_def flip: of_nat_add)

text \<open>The object of \<open>w\<close> bytes in place \<open>k\<close> of an array that starts at \<open>base\<close>.\<close>

definition cell :: "nat \<Rightarrow> nat \<Rightarrow> nat \<Rightarrow> byte list \<Rightarrow> byte list" where
  "cell w base k m = take w (drop (base + w * k) m)"

lemma mem_read_cell:
  assumes "base + w * n \<le> length m" and "0 \<le> i" and "i < int n"
  shows "mem_read m (int base + int w * i) w = Inr (cell w base (nat i) m)"
proof -
  have "w * Suc (nat i) \<le> w * n" using assms(2,3) by (intro mult_le_mono2) linarith
  then have "base + w * nat i + w \<le> length m" using assms(1) by simp
  moreover have off: "int base + int w * i = int (base + w * nat i)" using assms(2) by simp
  ultimately show ?thesis unfolding off by (simp add: mem_read_def cell_def del: of_nat_add of_nat_mult)
qed

lemma mem_write_cell:
  assumes "base + w * n \<le> length m" and "0 \<le> i" and "i < int n" and "length bs = w"
  shows "\<exists>m'. mem_write m (int base + int w * i) bs = Inr m' \<and> length m' = length m \<and>
    (\<forall>k < n. cell w base k m' = (if k = nat i then bs else cell w base k m))"
proof -
  let ?off = "base + w * nat i"
  let ?m' = "take ?off m @ bs @ drop (?off + w) m"
  have below: "w * Suc k \<le> w * j" if "k < j" for k j using that by (intro mult_le_mono2) simp
  have "nat i < n" using assms(2,3) by linarith
  from below [OF this] have fits: "?off + w \<le> length m" using assms(1) by simp
  have off: "int base + int w * i = int ?off" using assms(2) by simp
  have "mem_write m (int base + int w * i) bs = Inr ?m'"
    unfolding off mem_write_nat using fits assms(4) by simp
  moreover have "length ?m' = length m" using fits assms(4) by simp
  moreover have "cell w base k ?m' = (if k = nat i then bs else cell w base k m)" if "k < n" for k
  proof -
    consider "k = nat i" | "k < nat i" | "nat i < k" by linarith
    then show ?thesis
    proof cases
      case 1
      then show ?thesis using fits assms(4) by (simp add: cell_def)
    next
      case 2
      then have "base + w * k + w \<le> ?off" using below [of k "nat i"] by simp
      then show ?thesis
        using 2 fits by (simp add: cell_def take_drop [of w] min_def add.commute)
    next
      case 3
      then have "?off + w \<le> base + w * k" using below [of "nat i" k] by simp
      then obtain e where e: "base + w * k = ?off + w + e" using le_Suc_ex by blast
      have min_off: "min (length m) ?off = ?off" using fits by simp
      show ?thesis
        unfolding cell_def e using 3 assms(4) by (simp add: min_off add.commute)
    qed
  qed
  ultimately show ?thesis by blast
qed

section \<open>Streams\<close>

text \<open>A stream of bytes cut into pieces of \<open>w\<close> bytes, and what is left over.\<close>

function pieces :: "nat \<Rightarrow> byte list \<Rightarrow> byte list list \<times> byte list" where
  "pieces w bs =
     (if w = 0 \<or> length bs < w then ([], bs)
      else let (ps, rest) = pieces w (drop w bs) in (take w bs # ps, rest))"
  by pat_completeness auto
termination by (relation "measure (\<lambda>(w, bs). length bs)") auto

declare pieces.simps [simp del]

section \<open>The interface\<close>

locale fixed_codec =
  fixes enc :: "'a \<Rightarrow> byte list"
    and dec :: "byte list \<Rightarrow> 'a"
    and width :: nat
    and ok :: "'a \<Rightarrow> bool"
  assumes width_pos: "0 < width"
    and enc_length: "ok x \<Longrightarrow> length (enc x) = width"
    and dec_enc: "ok x \<Longrightarrow> dec (enc x) = x"
begin

lemma enc_inj: "ok x \<Longrightarrow> ok y \<Longrightarrow> enc x = enc y \<Longrightarrow> x = y"
  using dec_enc by metis

text \<open>An array of objects: what is stored in a place is read from it, and only from it.\<close>

lemma store_object:
  assumes "base + width * n \<le> length m" and "0 \<le> i" and "i < int n" and "ok x"
  shows "\<exists>m'. mem_write m (int base + int width * i) (enc x) = Inr m' \<and> length m' = length m \<and>
    map (\<lambda>k. dec (cell width base k m')) [0..<n]
      = (map (\<lambda>k. dec (cell width base k m)) [0..<n])[nat i := x]"
proof -
  from mem_write_cell [OF assms(1-3) enc_length [OF assms(4)]] obtain m' where
    m': "mem_write m (int base + int width * i) (enc x) = Inr m'" "length m' = length m"
    "\<forall>k < n. cell width base k m' = (if k = nat i then enc x else cell width base k m)"
    by blast
  then show ?thesis
    using assms(2-4) by (auto intro!: nth_equalityI simp: nth_list_update dec_enc)
qed

lemma pieces_of_stream:
  "\<forall>x \<in> set xs. ok x \<Longrightarrow> length rest < width \<Longrightarrow>
   pieces width (concat (map enc xs) @ rest) = (map enc xs, rest)"
proof (induction xs)
  case Nil
  then show ?case by (subst pieces.simps) simp
next
  case (Cons x xs)
  then show ?case using width_pos by (subst pieces.simps) (simp add: enc_length)
qed

text \<open>Objects sent one after the other are received one after the other.\<close>

lemma stream_roundtrip:
  assumes "\<forall>x \<in> set xs. ok x" and "length rest < width"
  shows "map dec (fst (pieces width (concat (map enc xs) @ rest))) = xs"
  using pieces_of_stream [OF assms] assms(1) by (auto simp: dec_enc intro: map_idI)

end

section \<open>Numbers as bytes\<close>

text \<open>The processor's order: the lowest byte first.\<close>

fun le_bytes :: "nat \<Rightarrow> nat \<Rightarrow> byte list" where
  "le_bytes 0 x = []"
| "le_bytes (Suc k) x = of_nat (x mod 256) # le_bytes k (x div 256)"

definition le_value :: "byte list \<Rightarrow> nat" where
  "le_value bs = foldr (\<lambda>b a. unat b + 256 * a) bs 0"

lemma length_le_bytes [simp]: "length (le_bytes k x) = k"
  by (induction k arbitrary: x) simp_all

lemma le_value_simps [simp]:
  "le_value [] = 0" "le_value (b # bs) = unat b + 256 * le_value bs"
  by (simp_all add: le_value_def)

lemma le_value_bytes: "x < 256 ^ k \<Longrightarrow> le_value (le_bytes k x) = x"
proof (induction k arbitrary: x)
  case (Suc k)
  then have "x div 256 < 256 ^ k" by (intro less_mult_imp_div_less) (simp add: mult.commute)
  moreover have "unat (of_nat (x mod 256) :: byte) = x mod 256" by (intro unat_of_nat_small) simp
  ultimately show ?case using Suc.IH by simp
qed simp

section \<open>The work item of Chapters 12 and 14 as bytes\<close>

definition ITEM_SIZE :: nat where "ITEM_SIZE = 516"

definition item_bytes :: "work_item \<Rightarrow> byte list" where
  "item_bytes x = le_bytes 4 (unat (item_id x)) @ item_data x"

definition item_of_bytes :: "byte list \<Rightarrow> work_item" where
  "item_of_bytes bs = \<lparr>item_id = of_nat (le_value (take 4 bs)), item_data = drop 4 bs\<rparr>"

interpretation item_codec: fixed_codec item_bytes item_of_bytes ITEM_SIZE wf_item
proof unfold_locales
  show "0 < ITEM_SIZE" by (simp add: ITEM_SIZE_def)
  show "wf_item x \<Longrightarrow> length (item_bytes x) = ITEM_SIZE" for x
    by (simp add: item_bytes_def wf_item_def MAX_WORK_ITEM_LEN_def ITEM_SIZE_def)
  show "item_of_bytes (item_bytes x) = x" for x
  proof -
    have "unat (item_id x) < 2 ^ LENGTH(32)" by (rule unsigned_less)
    then have "le_value (le_bytes 4 (unat (item_id x))) = unat (item_id x)"
      by (intro le_value_bytes) simp
    then show ?thesis by (simp add: item_of_bytes_def item_bytes_def)
  qed
qed

end
