(* ===== verification/Shm_Queue.thy ===== *)
theory Shm_Queue
  imports Codec Producer_Consumer
begin

text \<open>
  The queue of Chapter 14, which lies in shared memory: the object at the start of the region
  and its items in the bytes behind it. The fields are the record's, the region is a list of
  bytes whose first \<open>hdr\<close> bytes belong to the object; an item is stored as its bytes. The
  operations on a region large enough refine those of the queue of Chapter 12 (\<open>ring_of\<close>),
  and so keep the contract of the interface of channels.
\<close>

record shm_queue =
  q_id :: int
  q_front :: int
  q_cur_count :: int
  q_size :: int
  q_pushed_count :: int
  q_popped_count :: int
  q_lock :: sem_t
  q_pop_sem :: sem_t
  q_push_sem :: sem_t
  region :: "byte list"

text \<open>
  The constructor, run in the fresh region; the items' bytes keep what the region held (zeros,
  after \<^verbatim>\<open>ftruncate\<close>).
\<close>

definition shm_new :: "byte list \<Rightarrow> int \<Rightarrow> int \<Rightarrow> shm_queue result" where
  "shm_new mem sz qid =
     (if sz < 0 then Inl Bad_alloc
      else Inr \<lparr>q_id = qid, q_front = 0, q_cur_count = 0, q_size = sz, q_pushed_count = 0,
                q_popped_count = 0, q_lock = 1, q_pop_sem = 0, q_push_sem = nat sz, region = mem\<rparr>)"

text \<open>\<^verbatim>\<open>transform_data_addr\<close>, as an offset in the region.\<close>

definition transform_data_addr :: "nat \<Rightarrow> int" where
  "transform_data_addr hdr = int hdr"

definition data_write :: "nat \<Rightarrow> int \<Rightarrow> work_item \<Rightarrow> byte list \<Rightarrow> byte list result" where
  "data_write hdr slot t mem =
     mem_write mem (transform_data_addr hdr + int ITEM_SIZE * slot) (item_bytes t)"

definition data_read :: "nat \<Rightarrow> int \<Rightarrow> byte list \<Rightarrow> work_item result" where
  "data_read hdr slot mem =
     bind_result (mem_read mem (transform_data_addr hdr + int ITEM_SIZE * slot) ITEM_SIZE)
       (\<lambda>bs. Inr (item_of_bytes bs))"

definition shm_push :: "nat \<Rightarrow> work_item \<Rightarrow> shm_queue \<Rightarrow> (bool \<times> shm_queue) result" where
  "shm_push hdr t q =
     (case sem_take (q_push_sem q) of
        None \<Rightarrow> Inr (False, q)
      | Some u \<Rightarrow>
          (case sem_take (q_lock q) of
             None \<Rightarrow> Inl Blocked_forever
           | Some l \<Rightarrow>
               bind_result (int_add (q_front q) (q_cur_count q)) (\<lambda>s.
               bind_result (int_rem s (q_size q)) (\<lambda>slot.
               bind_result (int_add (q_cur_count q) 1) (\<lambda>c.
               bind_result (int_add (q_pushed_count q) 1) (\<lambda>p.
               bind_result (data_write hdr slot t (region q)) (\<lambda>mem.
                 Inr (True, q\<lparr>q_push_sem := u, q_cur_count := c, q_pushed_count := p,
                   q_lock := sem_post l, region := mem, q_pop_sem := sem_post (q_pop_sem q)\<rparr>))))))))"

definition shm_pop :: "nat \<Rightarrow> shm_queue \<Rightarrow> (work_item option \<times> shm_queue) result" where
  "shm_pop hdr q =
     (case sem_take (q_pop_sem q) of
        None \<Rightarrow> Inr (None, q)
      | Some u \<Rightarrow>
          (case sem_take (q_lock q) of
             None \<Rightarrow> Inl Blocked_forever
           | Some l \<Rightarrow>
               bind_result (int_add (q_front q) 1) (\<lambda>f.
               bind_result (int_rem f (q_size q)) (\<lambda>front.
               bind_result (int_sub (q_cur_count q) 1) (\<lambda>c.
               bind_result (int_add (q_popped_count q) 1) (\<lambda>p.
               bind_result (data_read hdr (q_front q) (region q)) (\<lambda>t.
                 Inr (Some t, q\<lparr>q_pop_sem := u, q_front := front, q_cur_count := c,
                   q_popped_count := p, q_lock := sem_post l, q_push_sem := sem_post (q_push_sem q)\<rparr>))))))))"

definition shm_report :: "shm_queue \<Rightarrow> int \<times> int \<times> int" where
  "shm_report q = (q_id q, q_pushed_count q, q_popped_count q)"

section \<open>The queue of Chapter 12 that it is\<close>

definition region_items :: "nat \<Rightarrow> shm_queue \<Rightarrow> work_item list" where
  "region_items hdr q = map (\<lambda>k. item_of_bytes (cell ITEM_SIZE hdr k (region q))) [0..<nat (q_size q)]"

definition ring_of :: "nat \<Rightarrow> shm_queue \<Rightarrow> work_item queue" where
  "ring_of hdr q =
     \<lparr>m_arr = region_items hdr q, m_id = q_id q, m_front = q_front q, m_cur_count = q_cur_count q,
      m_size = q_size q, m_pushed_count = q_pushed_count q, m_popped_count = q_popped_count q,
      m_lock = q_lock q, m_pop_sem = q_pop_sem q, m_push_sem = q_push_sem q\<rparr>"

text \<open>The region has room for the object and its items.\<close>

definition region_fits :: "nat \<Rightarrow> shm_queue \<Rightarrow> bool" where
  "region_fits hdr q \<longleftrightarrow> hdr + ITEM_SIZE * nat (q_size q) \<le> length (region q)"

definition shm_wf :: "nat \<Rightarrow> shm_queue \<Rightarrow> bool" where
  "shm_wf hdr q \<longleftrightarrow> region_fits hdr q \<and> queue_wf (ring_of hdr q)"

lemmas ring_of_simps =
  ring_of_def region_items_def

lemma shm_facts:
  assumes "shm_wf hdr q"
  shows "q_lock q = 1" "0 < q_size q" "q_size q \<le> MAX_QUEUE_SIZE" "0 \<le> q_front q" "q_front q < q_size q"
    "0 \<le> q_cur_count q" "q_cur_count q \<le> q_size q" "q_pushed_count q \<le> INT_MAX"
    "0 \<le> q_popped_count q" "q_cur_count q = q_pushed_count q - q_popped_count q"
    "int (q_pop_sem q) = q_cur_count q" "int (q_push_sem q) = q_size q - q_cur_count q"
    "region_fits hdr q"
  using assms by (simp_all add: shm_wf_def queue_wf_def ring_wf_def ring_of_def)

text \<open>Writing an item in a slot and reading it, seen in the queue of Chapter 12.\<close>

lemma data_write_items:
  assumes "region_fits hdr q" and "0 \<le> slot" and "slot < q_size q" and "wf_item t"
  shows "\<exists>mem. data_write hdr slot t (region q) = Inr mem \<and> length mem = length (region q) \<and>
    region_items hdr (q\<lparr>region := mem\<rparr>) = (region_items hdr q)[nat slot := t]"
proof -
  have "slot < int (nat (q_size q))" using assms(2,3) by simp
  from item_codec.store_object [OF assms(1) [unfolded region_fits_def] assms(2) this assms(4)]
  show ?thesis by (simp add: data_write_def transform_data_addr_def region_items_def)
qed

lemma data_read_items:
  assumes "region_fits hdr q" and "0 \<le> slot" and "slot < q_size q"
  shows "data_read hdr slot (region q) = Inr (region_items hdr q ! nat slot)"
proof -
  have "slot < int (nat (q_size q))" using assms(2,3) by simp
  from mem_read_cell [OF assms(1) [unfolded region_fits_def] assms(2) this] show ?thesis
    using assms(2,3) by (simp add: data_read_def transform_data_addr_def region_items_def)
qed

text \<open>
  Each operation on the region is the operation of Chapter 12 on the queue it represents, as
  long as that one does not fault.
\<close>

lemma shm_push_refines:
  assumes wf: "shm_wf hdr q" and item: "wf_item t" and push: "push t (ring_of hdr q) = Inr (b, r)"
  shows "\<exists>q'. shm_push hdr t q = Inr (b, q') \<and> ring_of hdr q' = r \<and> region_fits hdr q'"
proof (cases "q_push_sem q")
  case 0
  then show ?thesis
    using push shm_facts [OF wf] by (simp add: shm_push_def push_def push_take_def ring_of_def)
next
  case (Suc u)
  note F = shm_facts [OF wf]
  let ?slot = "(q_front q + q_cur_count q) mod q_size q"
  have slot: "0 \<le> ?slot" "?slot < q_size q" using F(2) by simp_all
  from data_write_items [OF F(13) slot item] obtain mem where
    mem: "data_write hdr ?slot t (region q) = Inr mem" "length mem = length (region q)"
      "region_items hdr (q\<lparr>region := mem\<rparr>) = (region_items hdr q)[nat ?slot := t]"
    by blast
  have len: "length (region_items hdr q) = nat (q_size q)" by (simp add: region_items_def)
  have room: "q_cur_count q < q_size q" using F(12) Suc by linarith
  have rem: "int_rem (q_front q + q_cur_count q) (q_size q) = Inr ?slot"
    using F(2,4,6) by (simp add: int_rem_nonneg)
  have add: "int_add (q_front q) (q_cur_count q) = Inr (q_front q + q_cur_count q)"
    "int_add (q_cur_count q) 1 = Inr (q_cur_count q + 1)"
    using F(3,4,5,6) room by (simp_all add: int_add_ok MAX_QUEUE_SIZE_def INT_MAX_def INT_MIN_def)
  have arr: "array_set (region_items hdr q) ?slot t = Inr ((region_items hdr q)[nat ?slot := t])"
    using slot len F(2) by (simp add: array_set_ok)
  from push Suc F(1) obtain p where
    p: "int_add (q_pushed_count q) 1 = Inr p" and b: "b = True"
    and r: "r = ring_of hdr q\<lparr>m_push_sem := u, m_cur_count := q_cur_count q + 1, m_pushed_count := p,
        m_lock := 1, m_arr := (region_items hdr q)[nat ?slot := t], m_pop_sem := Suc (q_pop_sem q)\<rparr>"
    by (auto simp: push_def queue_action_defs ring_of_def add rem arr)
  have "shm_push hdr t q = Inr (True, q\<lparr>q_push_sem := u, q_cur_count := q_cur_count q + 1,
      q_pushed_count := p, q_lock := 1, region := mem, q_pop_sem := Suc (q_pop_sem q)\<rparr>)"
    using Suc F(1) by (simp add: shm_push_def add rem p mem(1) sem_post_def)
  moreover have "region_items hdr (q\<lparr>q_push_sem := u, q_cur_count := q_cur_count q + 1,
      q_pushed_count := p, q_lock := 1, region := mem, q_pop_sem := Suc (q_pop_sem q)\<rparr>)
      = (region_items hdr q)[nat ?slot := t]"
    using mem(3) by (simp add: region_items_def)
  ultimately show ?thesis
    using b r mem(2) F(13) by (simp add: ring_of_def region_fits_def)
qed

lemma shm_pop_refines:
  assumes wf: "shm_wf hdr q" and pop: "pop (ring_of hdr q) = Inr (x, r)"
  shows "\<exists>q'. shm_pop hdr q = Inr (x, q') \<and> ring_of hdr q' = r \<and> region_fits hdr q'"
proof (cases "q_pop_sem q")
  case 0
  then show ?thesis
    using pop shm_facts [OF wf] by (simp add: shm_pop_def pop_def pop_take_def ring_of_def)
next
  case (Suc u)
  note F = shm_facts [OF wf]
  have rem: "int_rem (q_front q + 1) (q_size q) = Inr ((q_front q + 1) mod q_size q)"
    using F(2,4) by (simp add: int_rem_nonneg)
  have add: "int_add (q_front q) 1 = Inr (q_front q + 1)"
    using F(3,4,5) by (simp add: int_add_ok MAX_QUEUE_SIZE_def INT_MAX_def INT_MIN_def)
  have get: "array_get (region_items hdr q) (q_front q) = Inr (region_items hdr q ! nat (q_front q))"
    using F(2,4,5) by (simp add: array_get_ok region_items_def)
  note data = data_read_items [OF F(13,4,5)]
  from pop Suc F(1) obtain c p where
    cp: "int_sub (q_cur_count q) 1 = Inr c" "int_add (q_popped_count q) 1 = Inr p"
    and x: "x = Some (region_items hdr q ! nat (q_front q))"
    and r: "r = ring_of hdr q\<lparr>m_pop_sem := u, m_front := (q_front q + 1) mod q_size q, m_cur_count := c,
        m_popped_count := p, m_lock := 1, m_push_sem := Suc (q_push_sem q)\<rparr>"
    by (auto simp: pop_def queue_action_defs ring_of_def add rem get)
  have "shm_pop hdr q = Inr (x, q\<lparr>q_pop_sem := u, q_front := (q_front q + 1) mod q_size q,
      q_cur_count := c, q_popped_count := p, q_lock := 1, q_push_sem := Suc (q_push_sem q)\<rparr>)"
    using Suc F(1) by (simp add: shm_pop_def add rem cp data x sem_post_def)
  then show ?thesis
    using r F(13) by (simp add: ring_of_def region_items_def region_fits_def)
qed

section \<open>The contract of channels\<close>

interpretation shm_items: item_channel "shm_push hdr" "shm_pop hdr" "\<lambda>q. contents (ring_of hdr q)"
    "\<lambda>q. capacity (ring_of hdr q)" "\<lambda>q. pushes_left (ring_of hdr q)" "shm_wf hdr" wf_item
  for hdr :: nat
proof unfold_locales
  fix q x y ys
  assume wf: "shm_wf hdr q"
  then have ring: "queue_wf (ring_of hdr q)" by (simp add: shm_wf_def)
  show "length (contents (ring_of hdr q)) \<le> capacity (ring_of hdr q)"
    using ring by (rule ring_q.stored_bounded)
  show "\<exists>q'. shm_push hdr x q = Inr (True, q') \<and> shm_wf hdr q' \<and>
      contents (ring_of hdr q') = contents (ring_of hdr q) @ [x] \<and>
      capacity (ring_of hdr q') = capacity (ring_of hdr q) \<and>
      pushes_left (ring_of hdr q) \<le> Suc (pushes_left (ring_of hdr q'))"
    if "wf_item x" "length (contents (ring_of hdr q)) < capacity (ring_of hdr q)" "0 < pushes_left (ring_of hdr q)"
    using push_room [OF ring that(2,3), of x] shm_push_refines [OF wf that(1)] by (auto simp: shm_wf_def)
  show "shm_push hdr x q = Inr (False, q)"
    if "length (contents (ring_of hdr q)) = capacity (ring_of hdr q)"
  proof -
    have "q_push_sem q = 0"
      using shm_facts [OF wf] that by (simp add: capacity_def ring_of_def)
    then show ?thesis by (simp add: shm_push_def)
  qed
  show "\<exists>q'. shm_pop hdr q = Inr (Some y, q') \<and> shm_wf hdr q' \<and> contents (ring_of hdr q') = ys \<and>
      capacity (ring_of hdr q') = capacity (ring_of hdr q) \<and>
      pushes_left (ring_of hdr q) \<le> pushes_left (ring_of hdr q')"
    if "contents (ring_of hdr q) = y # ys"
    using pop_some [OF ring that] shm_pop_refines [OF wf] by (auto simp: shm_wf_def)
  show "shm_pop hdr q = Inr (None, q)" if "contents (ring_of hdr q) = []"
  proof -
    have "q_cur_count q = 0"
      using shm_facts(6) [OF wf] arg_cong [OF that, of length] by (simp add: ring_of_def)
    then have "q_pop_sem q = 0" using shm_facts(11) [OF wf] by simp
    then show ?thesis by (simp add: shm_pop_def)
  qed
qed simp

text \<open>The simulation's region of 32768 bytes and queue of five items.\<close>

definition SHARED_MEM_SIZE :: nat where "SHARED_MEM_SIZE = 32768"
definition QUEUE_SIZE :: int where "QUEUE_SIZE = 5"

lemma shm_new_wf:
  assumes "hdr \<le> SHARED_MEM_SIZE - 5 * ITEM_SIZE" and "length mem = SHARED_MEM_SIZE"
  shows "\<exists>q. shm_new mem QUEUE_SIZE qid = Inr q \<and> shm_wf hdr q \<and> contents (ring_of hdr q) = [] \<and>
    capacity (ring_of hdr q) = 5 \<and> pushes_left (ring_of hdr q) = nat INT_MAX"
  using assms
  by (simp add: shm_new_def QUEUE_SIZE_def shm_wf_def region_fits_def SHARED_MEM_SIZE_def ITEM_SIZE_def
      ring_of_def region_items_def queue_wf_def ring_wf_def contents_def capacity_def pushes_left_def
      MAX_QUEUE_SIZE_def INT_MAX_def)

text \<open>
  C17: On a well-formed queue in shared memory, \<^verbatim>\<open>push\<close> and \<^verbatim>\<open>pop\<close> do to the bytes behind the object
  what the operations of Chapter 12 do to their array: the same outcome and, read back as
  items, the same queue; no byte outside the region is touched.
\<close>

theorem shm_queue_refines_ring:
  assumes "shm_wf hdr q" and "wf_item t"
  shows "(\<forall>b r. push t (ring_of hdr q) = Inr (b, r) \<longrightarrow>
            (\<exists>q'. shm_push hdr t q = Inr (b, q') \<and> ring_of hdr q' = r \<and> region_fits hdr q')) \<and>
         (\<forall>x r. pop (ring_of hdr q) = Inr (x, r) \<longrightarrow>
            (\<exists>q'. shm_pop hdr q = Inr (x, q') \<and> ring_of hdr q' = r \<and> region_fits hdr q'))"
  using shm_push_refines [OF assms] shm_pop_refines [OF assms(1)] by blast

theorem shm_queue_refines_ring_witness:
  "\<exists>q q' r. shm_new (replicate 32768 0) QUEUE_SIZE 1 = Inr q \<and> push blank_item (ring_of 120 q) = Inr (True, r) \<and>
     shm_push 120 blank_item q = Inr (True, q') \<and> ring_of 120 q' = r"
proof -
  have "(120::nat) \<le> SHARED_MEM_SIZE - 5 * ITEM_SIZE" "length (replicate 32768 (0::byte)) = SHARED_MEM_SIZE"
    by (simp_all add: SHARED_MEM_SIZE_def ITEM_SIZE_def)
  from shm_new_wf [OF this, of 1] obtain q where
    q: "shm_new (replicate 32768 0) QUEUE_SIZE 1 = Inr q" "shm_wf 120 q" "contents (ring_of 120 q) = []"
      "capacity (ring_of 120 q) = 5" "pushes_left (ring_of 120 q) = nat INT_MAX"
    by blast
  have "queue_wf (ring_of 120 q)" using q(2) by (simp add: shm_wf_def)
  moreover have "length (contents (ring_of 120 q)) < capacity (ring_of 120 q)" unfolding q(3,4) by simp
  moreover have "0 < pushes_left (ring_of 120 q)" unfolding q(5) by (simp add: INT_MAX_def)
  ultimately obtain r where r: "push blank_item (ring_of 120 q) = Inr (True, r)"
    using push_room [of "ring_of 120 q" blank_item] by blast
  with shm_queue_refines_ring [OF q(2) wf_blank_item] q(1) show ?thesis by blast
qed

text \<open>
  The simulation in shared memory: with its region and its queue of five items, for an object
  of up to 30188 bytes (it has 120), any schedule of producers and consumers runs without a
  fault and loses, repeats and reorders no item.
\<close>

lemma shm_simulation_exactly_once:
  assumes "hdr \<le> SHARED_MEM_SIZE - 5 * ITEM_SIZE" and "length mem = SHARED_MEM_SIZE"
    and "wf_item junk" and "length ts \<le> nat INT_MAX" and "shm_new mem QUEUE_SIZE qid = Inr q0"
  shows "\<exists>s. take_turns (shm_push hdr) (shm_pop hdr) ts (start_state junk n r q0) = Inr s \<and>
     map snd (pushed_log s) = consumed_log s @ contents (ring_of hdr (workq s)) \<and>
     length (contents (ring_of hdr (workq s))) \<le> 5"
proof -
  from shm_new_wf [OF assms(1,2), of qid] assms(5) have
    q: "shm_wf hdr q0" "contents (ring_of hdr q0) = []" "capacity (ring_of hdr q0) = 5"
      "pushes_left (ring_of hdr q0) = nat INT_MAX"
    by simp_all
  have "run_ok (\<lambda>q. contents (ring_of hdr q)) n (start_state junk n r q0)"
    using assms(3) q(2) by (rule start_run_ok)
  from shm_items.take_turns_ok [OF this, of ts] q assms(4) obtain s where
    s: "take_turns (shm_push hdr) (shm_pop hdr) ts (start_state junk n r q0) = Inr s"
      "run_ok (\<lambda>q. contents (ring_of hdr q)) n s" "shm_wf hdr (workq s)"
      "capacity (ring_of hdr (workq s)) = 5"
    by (auto simp: start_state_def)
  from shm_items.stored_bounded [OF s(3)] s(2,4) have
    "length (contents (ring_of hdr (workq s))) \<le> 5"
    "map snd (pushed_log s) = consumed_log s @ contents (ring_of hdr (workq s))"
    by (simp_all add: run_ok_def)
  with s(1) show ?thesis by blast
qed

theorem shm_simulation_exactly_once_witness:
  "\<exists>q0 s. shm_new (replicate 32768 0) QUEUE_SIZE 3 = Inr q0 \<and>
     take_turns (shm_push 120) (shm_pop 120) [Produce 0, Consume, Consume]
       (start_state blank_item 1 (\<lambda>i. i) q0) = Inr s \<and>
     map snd (pushed_log s) = consumed_log s @ contents (ring_of 120 (workq s))"
proof -
  have h: "(120::nat) \<le> SHARED_MEM_SIZE - 5 * ITEM_SIZE" "length (replicate 32768 (0::byte)) = SHARED_MEM_SIZE"
    by (simp_all add: SHARED_MEM_SIZE_def ITEM_SIZE_def)
  obtain q0 where q0: "shm_new (replicate 32768 0) QUEUE_SIZE 3 = Inr q0"
    using shm_new_wf [OF h, of 3] by blast
  have "length [Produce 0, Consume, Consume] \<le> nat INT_MAX" by (simp add: INT_MAX_def)
  from shm_simulation_exactly_once [OF h wf_blank_item this q0] q0 show ?thesis by blast
qed

end
