(* ===== verification/Shm_Threads.thy ===== *)
theory Shm_Threads
  imports Shm_Queue Queue_Spsc
begin

text \<open>
  The queue of Chapter 14 as its two processes use it: both have the region mapped, one calls
  \<^verbatim>\<open>push\<close>, the other \<^verbatim>\<open>pop\<close>, and their atomic actions interleave. An item is no single value here:
  the assignment of a \<^verbatim>\<open>WorkItem\<close> moves its bytes one at a time, in any order, and each such move is a
  step of its own. A forward simulation shows that the region nevertheless behaves as the queue
  of \<open>Queue_Spsc\<close>, in which an element is copied at once: no item is ever torn.
\<close>

section \<open>The atomic actions on the object in the region\<close>

definition shm_push_take :: "shm_queue \<Rightarrow> shm_queue option" where
  "shm_push_take q = map_option (\<lambda>s. q\<lparr>q_push_sem := s\<rparr>) (sem_take (q_push_sem q))"

definition shm_lock_take :: "shm_queue \<Rightarrow> shm_queue option" where
  "shm_lock_take q = map_option (\<lambda>s. q\<lparr>q_lock := s\<rparr>) (sem_take (q_lock q))"

definition shm_push_reserve :: "shm_queue \<Rightarrow> (int \<times> shm_queue) result" where
  "shm_push_reserve q =
     bind_result (int_add (q_front q) (q_cur_count q)) (\<lambda>s.
     bind_result (int_rem s (q_size q)) (\<lambda>slot.
     bind_result (int_add (q_cur_count q) 1) (\<lambda>c.
     bind_result (int_add (q_pushed_count q) 1) (\<lambda>p.
       Inr (slot, q\<lparr>q_cur_count := c, q_pushed_count := p\<rparr>)))))"

definition shm_lock_release :: "shm_queue \<Rightarrow> shm_queue" where
  "shm_lock_release q = q\<lparr>q_lock := sem_post (q_lock q)\<rparr>"

definition shm_push_publish :: "shm_queue \<Rightarrow> shm_queue" where
  "shm_push_publish q = q\<lparr>q_pop_sem := sem_post (q_pop_sem q)\<rparr>"

definition shm_pop_take :: "shm_queue \<Rightarrow> shm_queue option" where
  "shm_pop_take q = map_option (\<lambda>s. q\<lparr>q_pop_sem := s\<rparr>) (sem_take (q_pop_sem q))"

definition shm_pop_reserve :: "shm_queue \<Rightarrow> (int \<times> shm_queue) result" where
  "shm_pop_reserve q =
     bind_result (int_add (q_front q) 1) (\<lambda>f.
     bind_result (int_rem f (q_size q)) (\<lambda>front.
     bind_result (int_sub (q_cur_count q) 1) (\<lambda>c.
     bind_result (int_add (q_popped_count q) 1) (\<lambda>p.
       Inr (q_front q, q\<lparr>q_front := front, q_cur_count := c, q_popped_count := p\<rparr>)))))"

definition shm_pop_free :: "shm_queue \<Rightarrow> shm_queue" where
  "shm_pop_free q = q\<lparr>q_push_sem := sem_post (q_push_sem q)\<rparr>"

text \<open>The move of byte \<open>j\<close> of an item into its slot, and out of it.\<close>

definition byte_in :: "nat \<Rightarrow> work_item \<Rightarrow> int \<Rightarrow> nat \<Rightarrow> shm_queue \<Rightarrow> shm_queue result" where
  "byte_in hdr t slot j q =
     bind_result (array_set (region q) (transform_data_addr hdr + int ITEM_SIZE * slot + int j) (item_bytes t ! j))
       (\<lambda>m. Inr (q\<lparr>region := m\<rparr>))"

definition byte_out :: "nat \<Rightarrow> int \<Rightarrow> nat \<Rightarrow> shm_queue \<Rightarrow> byte result" where
  "byte_out hdr slot j q = array_get (region q) (transform_data_addr hdr + int ITEM_SIZE * slot + int j)"

lemmas shm_action_defs =
  shm_push_take_def shm_lock_take_def shm_push_reserve_def shm_lock_release_def shm_push_publish_def
  shm_pop_take_def shm_pop_reserve_def shm_pop_free_def

section \<open>Two processes on the region\<close>

text \<open>
  A thread is where \<open>Queue_Threads\<close> has it, but for the copies: \<open>todo\<close> are the bytes that are still to be
  moved in, \<open>got\<close> those that have been moved out.
\<close>

datatype shm_pc =
    At "work_item pc"
  | Copy_in work_item int "nat set"
  | Copy_out int "nat \<Rightarrow> byte option"

fun shm_run :: "nat \<Rightarrow> nat \<Rightarrow> shm_queue \<Rightarrow> shm_pc \<Rightarrow> (shm_queue \<times> shm_pc) option" where
  "shm_run hdr j q (At (Push_wait t d)) = map_option (\<lambda>q'. (q', At (Push_lock t))) (shm_push_take q)"
| "shm_run hdr j q (At (Push_lock t)) = map_option (\<lambda>q'. (q', At (Push_crit t))) (shm_lock_take q)"
| "shm_run hdr j q (At (Push_crit t)) =
     Some (case shm_push_reserve q of
             Inl f \<Rightarrow> (q, At (Faulted f))
           | Inr (slot, q') \<Rightarrow> (q', At (Push_unlock t slot)))"
| "shm_run hdr j q (At (Push_unlock t slot)) = Some (shm_lock_release q, Copy_in t slot {..<ITEM_SIZE})"
| "shm_run hdr j q (Copy_in t slot todo) =
     (if todo = {} then Some (q, At Push_post)
      else if j \<notin> todo then None
      else Some (case byte_in hdr t slot j q of
             Inl f \<Rightarrow> (q, At (Faulted f))
           | Inr q' \<Rightarrow> (q', Copy_in t slot (todo - {j}))))"
| "shm_run hdr j q (At Push_post) = Some (shm_push_publish q, At Idle)"
| "shm_run hdr j q (At (Pop_wait d)) = map_option (\<lambda>q'. (q', At Pop_lock)) (shm_pop_take q)"
| "shm_run hdr j q (At Pop_lock) = map_option (\<lambda>q'. (q', At Pop_crit)) (shm_lock_take q)"
| "shm_run hdr j q (At Pop_crit) =
     Some (case shm_pop_reserve q of
             Inl f \<Rightarrow> (q, At (Faulted f))
           | Inr (slot, q') \<Rightarrow> (q', At (Pop_unlock slot)))"
| "shm_run hdr j q (At (Pop_unlock slot)) = Some (shm_lock_release q, Copy_out slot (\<lambda>_. None))"
| "shm_run hdr j q (Copy_out slot got) =
     (if list_all (\<lambda>i. got i \<noteq> None) [0..<ITEM_SIZE]
      then Some (q, At (Pop_post (item_of_bytes (map (\<lambda>i. the (got i)) [0..<ITEM_SIZE]))))
      else if \<not> (j < ITEM_SIZE \<and> got j = None) then None
      else Some (case byte_out hdr slot j q of
             Inl f \<Rightarrow> (q, At (Faulted f))
           | Inr b \<Rightarrow> (q, Copy_out slot (got(j := Some b)))))"
| "shm_run hdr j q (At (Pop_post t)) = Some (shm_pop_free q, At Idle)"
| "shm_run hdr j q (At _) = None"

fun shm_entering :: "shm_pc \<Rightarrow> shm_pc \<Rightarrow> work_item list" where
  "shm_entering (At (Push_crit t)) (At (Push_unlock t' slot)) = [t]"
| "shm_entering _ _ = []"

fun shm_leaving :: "shm_pc \<Rightarrow> shm_pc \<Rightarrow> work_item list" where
  "shm_leaving (Copy_out slot got) (At (Pop_post t)) = [t]"
| "shm_leaving _ _ = []"

record shm_sys =
  mem_queue :: shm_queue
  threads :: "shm_pc list"
  shm_clock :: timespec
  shm_entered :: "work_item list"
  shm_returned :: "work_item list"

datatype shm_event =
    Call_push work_item
  | Call_pop
  | Act nat nat
  | Deadline nat
  | Clock timespec

text \<open>Thread 0 is the producer's, thread 1 the consumer's. \<open>Act i j\<close>: thread \<open>i\<close> acts; if it copies, on byte \<open>j\<close>.\<close>

inductive shm_step :: "nat \<Rightarrow> shm_sys \<Rightarrow> shm_event \<Rightarrow> shm_sys \<Rightarrow> bool" for hdr where
  call_push:
    "wf_item t \<Longrightarrow> 0 < length (threads b) \<Longrightarrow> threads b ! 0 = At Idle \<Longrightarrow>
     shm_step hdr b (Call_push t)
       (b\<lparr>threads := (threads b)[0 := At (Push_wait t (get_expire_time (shm_clock b)))]\<rparr>)"
| call_pop:
    "1 < length (threads b) \<Longrightarrow> threads b ! 1 = At Idle \<Longrightarrow>
     shm_step hdr b Call_pop
       (b\<lparr>threads := (threads b)[1 := At (Pop_wait (get_expire_time (shm_clock b)))]\<rparr>)"
| act:
    "i < length (threads b) \<Longrightarrow> shm_run hdr j (mem_queue b) (threads b ! i) = Some (q', pc') \<Longrightarrow>
     shm_step hdr b (Act i j)
       (b\<lparr>mem_queue := q', threads := (threads b)[i := pc'],
          shm_entered := shm_entered b @ shm_entering (threads b ! i) pc',
          shm_returned := shm_returned b @ shm_leaving (threads b ! i) pc'\<rparr>)"
| deadline_push:
    "i < length (threads b) \<Longrightarrow> threads b ! i = At (Push_wait t d) \<Longrightarrow> d \<le> shm_clock b \<Longrightarrow>
     q_push_sem (mem_queue b) = 0 \<Longrightarrow> shm_step hdr b (Deadline i) (b\<lparr>threads := (threads b)[i := At Idle]\<rparr>)"
| deadline_pop:
    "i < length (threads b) \<Longrightarrow> threads b ! i = At (Pop_wait d) \<Longrightarrow> d \<le> shm_clock b \<Longrightarrow>
     q_pop_sem (mem_queue b) = 0 \<Longrightarrow> shm_step hdr b (Deadline i) (b\<lparr>threads := (threads b)[i := At Idle]\<rparr>)"
| clock:
    "shm_clock b \<le> now \<Longrightarrow> shm_step hdr b (Clock now) (b\<lparr>shm_clock := now\<rparr>)"

inductive_simps shm_step_act: "shm_step hdr b (Act i j) b'"

text \<open>The parent builds the queue in the region before it creates the two processes.\<close>

definition shm_start :: "byte list \<Rightarrow> int \<Rightarrow> int \<Rightarrow> timespec \<Rightarrow> shm_sys result" where
  "shm_start mem sz qid now =
     bind_result (shm_new mem sz qid) (\<lambda>q.
       Inr \<lparr>mem_queue = q, threads = [At Idle, At Idle], shm_clock = now, shm_entered = [], shm_returned = []\<rparr>)"

inductive shm_reachable :: "nat \<Rightarrow> shm_sys \<Rightarrow> shm_sys \<Rightarrow> bool" for hdr b0 where
  start: "shm_reachable hdr b0 b0"
| step: "shm_reachable hdr b0 b \<Longrightarrow> shm_step hdr b e b' \<Longrightarrow> shm_reachable hdr b0 b'"

section \<open>One byte of the region\<close>

lemma cell_update:
  assumes "j < w"
  shows "cell w base k (m[base + w * i + j := v]) = (if k = i then (cell w base i m)[j := v] else cell w base k m)"
proof -
  have below: "w * Suc k \<le> w * l" if "k < l" for k l using that by (intro mult_le_mono2) simp
  consider "k = i" | "i < k" | "k < i" by linarith
  then show ?thesis
  proof cases
    case 1
    then show ?thesis by (simp add: cell_def drop_update_swap take_update_swap)
  next
    case 2
    with below [OF 2] assms have "base + w * i + j < base + w * k" by simp
    with 2 show ?thesis by (simp add: cell_def drop_update_cancel)
  next
    case 3
    then have off: "base + w * k \<le> base + w * i + j" "w \<le> base + w * i + j - (base + w * k)"
      using below [OF 3] by simp_all
    with 3 show ?thesis by (simp add: cell_def drop_update_swap take_update_cancel del: add_diff_cancel_left)
  qed
qed

text \<open>A byte of an item is inside the region.\<close>

lemma byte_offset:
  assumes "region_fits hdr q" and "0 \<le> x" and "x < q_size q" and "j < ITEM_SIZE"
  shows "transform_data_addr hdr + int ITEM_SIZE * x + int j = int (hdr + ITEM_SIZE * nat x + j)"
    and "hdr + ITEM_SIZE * nat x + j < length (region q)"
    and "length (cell ITEM_SIZE hdr (nat x) (region q)) = ITEM_SIZE"
proof -
  show "transform_data_addr hdr + int ITEM_SIZE * x + int j = int (hdr + ITEM_SIZE * nat x + j)"
    using assms(2) by (simp add: transform_data_addr_def)
  have "ITEM_SIZE * Suc (nat x) \<le> ITEM_SIZE * nat (q_size q)"
    using assms(2,3) by (intro mult_le_mono2) linarith
  then have "hdr + ITEM_SIZE * nat x + ITEM_SIZE \<le> length (region q)"
    using assms(1) by (simp add: region_fits_def)
  then show "hdr + ITEM_SIZE * nat x + j < length (region q)"
    "length (cell ITEM_SIZE hdr (nat x) (region q)) = ITEM_SIZE"
    using assms(4) by (simp_all add: cell_def)
qed

lemma byte_in_ok:
  assumes "region_fits hdr q" and "0 \<le> x" and "x < q_size q" and "j < ITEM_SIZE"
  shows "\<exists>m. byte_in hdr t x j q = Inr (q\<lparr>region := m\<rparr>) \<and> length m = length (region q) \<and>
    (\<forall>k. cell ITEM_SIZE hdr k m =
       (if k = nat x then (cell ITEM_SIZE hdr (nat x) (region q))[j := item_bytes t ! j]
        else cell ITEM_SIZE hdr k (region q)))"
proof (intro exI conjI allI)
  let ?m = "(region q)[hdr + ITEM_SIZE * nat x + j := item_bytes t ! j]"
  show "byte_in hdr t x j q = Inr (q\<lparr>region := ?m\<rparr>)"
    unfolding byte_in_def byte_offset(1) [OF assms] array_set_nat using byte_offset(2) [OF assms] by simp
  show "cell ITEM_SIZE hdr k ?m =
      (if k = nat x then (cell ITEM_SIZE hdr (nat x) (region q))[j := item_bytes t ! j]
       else cell ITEM_SIZE hdr k (region q))" for k
    by (rule cell_update [OF assms(4)])
qed simp

lemma byte_out_ok:
  assumes "region_fits hdr q" and "0 \<le> x" and "x < q_size q" and "j < ITEM_SIZE"
  shows "byte_out hdr x j q = Inr (cell ITEM_SIZE hdr (nat x) (region q) ! j)"
proof -
  have "cell ITEM_SIZE hdr (nat x) (region q) ! j = region q ! (hdr + ITEM_SIZE * nat x + j)"
    using byte_offset(2) [OF assms] assms(4) by (simp add: cell_def)
  with byte_offset(2) [OF assms] show ?thesis
    unfolding byte_out_def byte_offset(1) [OF assms] by (simp add: array_get_def del: of_nat_add of_nat_mult)
qed

section \<open>The queue of Chapter 12 behind the region\<close>

text \<open>The object's fields with the array \<open>a\<close>; the id plays no part.\<close>

definition view :: "work_item list \<Rightarrow> shm_queue \<Rightarrow> work_item queue" where
  "view a q =
     \<lparr>m_arr = a, m_id = 0, m_front = q_front q, m_cur_count = q_cur_count q, m_size = q_size q,
      m_pushed_count = q_pushed_count q, m_popped_count = q_popped_count q,
      m_lock = q_lock q, m_pop_sem = q_pop_sem q, m_push_sem = q_push_sem q\<rparr>"

definition same_queue :: "work_item queue \<Rightarrow> shm_queue \<Rightarrow> bool" where
  "same_queue r q \<longleftrightarrow> r = view (m_arr r) q"

lemma m_arr_view [simp]: "m_arr (view a q) = a"
  by (simp add: view_def)

lemma same_queue_view [simp]: "same_queue (view a q) q"
  by (simp add: same_queue_def view_def)

lemma same_queue_region [simp]: "same_queue r (q\<lparr>region := m\<rparr>) = same_queue r q"
  by (simp add: same_queue_def view_def)

fun abs_pc :: "shm_pc \<Rightarrow> work_item pc" where
  "abs_pc (At p) = p"
| "abs_pc (Copy_in t x todo) = Push_copy t x"
| "abs_pc (Copy_out x got) = Pop_copy x"

text \<open>Items under way are well formed, and copies are spelled out.\<close>

fun plain :: "work_item pc \<Rightarrow> bool" where
  "plain (Push_wait t d) = wf_item t"
| "plain (Push_lock t) = wf_item t"
| "plain (Push_crit t) = wf_item t"
| "plain (Push_unlock t x) = wf_item t"
| "plain (Push_copy t x) = False"
| "plain (Pop_copy x) = False"
| "plain _ = True"

text \<open>What has been moved of an item agrees with its slot.\<close>

fun pc_ok :: "nat \<Rightarrow> byte list \<Rightarrow> shm_pc \<Rightarrow> bool" where
  "pc_ok hdr m (At p) \<longleftrightarrow> plain p"
| "pc_ok hdr m (Copy_in t x todo) \<longleftrightarrow> wf_item t \<and> todo \<subseteq> {..<ITEM_SIZE} \<and>
     (\<forall>j < ITEM_SIZE. j \<notin> todo \<longrightarrow> cell ITEM_SIZE hdr (nat x) m ! j = item_bytes t ! j)"
| "pc_ok hdr m (Copy_out x got) \<longleftrightarrow>
     (\<forall>j v. got j = Some v \<longrightarrow> j < ITEM_SIZE \<and> v = cell ITEM_SIZE hdr (nat x) m ! j)"

fun writing :: "shm_pc \<Rightarrow> int \<Rightarrow> bool" where
  "writing (Copy_in t x todo) y = (x = y)"
| "writing _ y = False"

definition shm_rel :: "nat \<Rightarrow> shm_sys \<Rightarrow> work_item sys \<Rightarrow> bool" where
  "shm_rel hdr b s \<longleftrightarrow>
     same_queue (shared s) (mem_queue b) \<and> pcs s = map abs_pc (threads b) \<and>
     clock s = shm_clock b \<and> entered s = shm_entered b \<and> returned s = shm_returned b \<and>
     length (threads b) = 2 \<and> region_fits hdr (mem_queue b) \<and> list_all wf_item (shm_entered b) \<and>
     (\<forall>pc \<in> set (threads b). pc_ok hdr (region (mem_queue b)) pc) \<and>
     (\<forall>k < nat (q_size (mem_queue b)). \<not> writing (threads b ! 0) (int k) \<longrightarrow>
        item_of_bytes (cell ITEM_SIZE hdr k (region (mem_queue b))) = m_arr (shared s) ! k)"

lemma shm_relD:
  assumes "shm_rel hdr b s"
  shows "same_queue (shared s) (mem_queue b)" "pcs s = map abs_pc (threads b)"
    "clock s = shm_clock b" "entered s = shm_entered b" "returned s = shm_returned b"
    "length (threads b) = 2" "region_fits hdr (mem_queue b)" "list_all wf_item (shm_entered b)"
    "\<And>i. i < length (threads b) \<Longrightarrow> pc_ok hdr (region (mem_queue b)) (threads b ! i)"
    "\<And>k. k < nat (q_size (mem_queue b)) \<Longrightarrow> \<not> writing (threads b ! 0) (int k) \<Longrightarrow>
       item_of_bytes (cell ITEM_SIZE hdr k (region (mem_queue b))) = m_arr (shared s) ! k"
  using assms by (simp_all add: shm_rel_def)

lemma shm_rel_two:
  "threads b = [P, C] \<Longrightarrow> shm_rel hdr b s \<longleftrightarrow>
     same_queue (shared s) (mem_queue b) \<and> pcs s = [abs_pc P, abs_pc C] \<and>
     clock s = shm_clock b \<and> entered s = shm_entered b \<and> returned s = shm_returned b \<and>
     region_fits hdr (mem_queue b) \<and> list_all wf_item (shm_entered b) \<and>
     pc_ok hdr (region (mem_queue b)) P \<and> pc_ok hdr (region (mem_queue b)) C \<and>
     (\<forall>k < nat (q_size (mem_queue b)). \<not> writing P (int k) \<longrightarrow>
        item_of_bytes (cell ITEM_SIZE hdr k (region (mem_queue b))) = m_arr (shared s) ! k)"
  by (simp add: shm_rel_def)

text \<open>The actions outside the copies are those of Chapter 12, and leave the items' bytes alone.\<close>

lemma view_actions:
  "push_take (view a q) = map_option (view a) (shm_push_take q)"
  "lock_take (view a q) = map_option (view a) (shm_lock_take q)"
  "lock_release (view a q) = view a (shm_lock_release q)"
  "push_publish (view a q) = view a (shm_push_publish q)"
  "pop_take (view a q) = map_option (view a) (shm_pop_take q)"
  "pop_free (view a q) = view a (shm_pop_free q)"
  by (auto simp: view_def queue_action_defs shm_action_defs option.map_comp comp_def intro: option.map_cong)

lemma view_reserve:
  "push_reserve (view a q) = (case shm_push_reserve q of Inl f \<Rightarrow> Inl f | Inr (x, q') \<Rightarrow> Inr (x, view a q'))"
  "pop_reserve (view a q) = (case shm_pop_reserve q of Inl f \<Rightarrow> Inl f | Inr (x, q') \<Rightarrow> Inr (x, view a q'))"
  by (simp_all add: view_def push_reserve_def shm_push_reserve_def pop_reserve_def shm_pop_reserve_def
      bind_result_def split: sum.split)

lemma takes_keep_region:
  "shm_push_take q = Some q' \<Longrightarrow> region q' = region q \<and> q_size q' = q_size q"
  "shm_lock_take q = Some q' \<Longrightarrow> region q' = region q \<and> q_size q' = q_size q"
  "shm_pop_take q = Some q' \<Longrightarrow> region q' = region q \<and> q_size q' = q_size q"
  "shm_push_reserve q = Inr (x, q') \<Longrightarrow> region q' = region q \<and> q_size q' = q_size q"
  "shm_pop_reserve q = Inr (x, q') \<Longrightarrow> region q' = region q \<and> q_size q' = q_size q"
  by (auto simp: shm_action_defs)

lemma posts_keep_region [simp]:
  "region (shm_lock_release q) = region q \<and> q_size (shm_lock_release q) = q_size q"
  "region (shm_push_publish q) = region q \<and> q_size (shm_push_publish q) = q_size q"
  "region (shm_pop_free q) = region q \<and> q_size (shm_pop_free q) = q_size q"
  by (auto simp: shm_action_defs)

lemma plain_run:
  assumes "shm_run hdr j q (At p) = Some (q', pc')" and "plain p"
  shows "thread_run (view a q) p = Some (view a q', abs_pc pc')"
    and "region q' = region q" "q_size q' = q_size q"
    and "pc_ok hdr m pc'"
    and "entering p (abs_pc pc') = shm_entering (At p) pc'" "leaving p (abs_pc pc') = []" "shm_leaving (At p) pc' = []"
    and "list_all wf_item (shm_entering (At p) pc')"
  using assms
  by (cases p; force simp: view_actions view_reserve
      split: sum.splits dest: takes_keep_region)+

section \<open>The simulation\<close>

lemma spsc_copies_apart:
  assumes "spsc_inv sz s" and "pcs s ! 0 = Push_copy t x" and "pcs s ! 1 = Pop_copy y"
  shows "x \<noteq> y"
proof
  assume "x = y"
  note F = spsc_facts [OF assms(1)]
  from F(1,2) assms(2,3) have "x = (int (length (entered s)) - 1) mod sz"
    and "y = int (length (returned s)) mod sz"
    by (auto simp: ring_ok_def)
  with \<open>x = y\<close> have "(int (length (entered s)) - 1) mod sz = int (length (returned s)) mod sz"
    by simp
  then have "int (length (entered s)) - 1 = int (length (returned s))"
    by (rule mod_window_inj) (use F(3-5) assms(2,3) in simp)
  with F(3) assms(2,3) show False by simp
qed

text \<open>A thread that copies has a slot of the ring, and the sides are the two threads'.\<close>

lemma rel_slots:
  assumes "shm_rel hdr b s" and "spsc_inv sz s"
  shows "i < 2 \<Longrightarrow> threads b ! i = Copy_in t x todo \<Longrightarrow> i = 0 \<and> 0 \<le> x \<and> x < q_size (mem_queue b)"
    and "i < 2 \<Longrightarrow> threads b ! i = Copy_out y got \<Longrightarrow> i = 1 \<and> 0 \<le> y \<and> y < q_size (mem_queue b)"
    and "q_size (mem_queue b) = sz" and "length (m_arr (shared s)) = nat sz"
    and "\<not> (threads b ! 0 = Copy_in t x todo \<and> threads b ! 1 = Copy_out x got)"
proof -
  note R = shm_relD [OF assms(1)]
  from assms(2) have si: "sys_inv sz s" and ok: "ring_ok sz (shared s) (pcs s ! 0) (pcs s ! 1) (entered s) (returned s)"
    by (simp_all add: spsc_inv_def)
  then have sides: "push_side (pcs s ! 0)" "pop_side (pcs s ! 1)" by (simp_all add: ring_ok_def)
  have "m_size (shared s) = q_size (mem_queue b)"
    using arg_cong [OF R(1) [unfolded same_queue_def], of m_size] by (simp add: view_def)
  then show size: "q_size (mem_queue b) = sz" using sys_invD(2) [OF si] by simp
  show "length (m_arr (shared s)) = nat sz"
    using ring_bounds(6) [OF sys_invD(1) [OF si]] sys_invD(2) [OF si] by linarith
  have slot: "slot_ok sz (abs_pc (threads b ! i))" if "i < 2" for i
    using sys_invD(7) [OF si] that R(2,6) by simp
  have two: "i = 0 \<or> i = 1" if "i < 2" for i :: nat using that by auto
  show "i = 0 \<and> 0 \<le> x \<and> x < q_size (mem_queue b)" if "i < 2" "threads b ! i = Copy_in t x todo"
    using slot [OF that(1)] two [OF that(1)] that sides R(2,6) size by (auto simp: slot_ok_def)
  show "i = 1 \<and> 0 \<le> y \<and> y < q_size (mem_queue b)" if "i < 2" "threads b ! i = Copy_out y got"
    using slot [OF that(1)] two [OF that(1)] that sides R(2,6) size by (auto simp: slot_ok_def)
  show "\<not> (threads b ! 0 = Copy_in t x todo \<and> threads b ! 1 = Copy_out x got)"
    using spsc_copies_apart [OF assms(2), of t x x] R(2,6) by auto
qed

lemma act_plain:
  assumes rel: "shm_rel hdr b s" and i: "i < length (threads b)" and p: "threads b ! i = At p"
    and run: "shm_run hdr j (mem_queue b) (At p) = Some (q', pc')"
    and b': "b' = b\<lparr>mem_queue := q', threads := (threads b)[i := pc'],
          shm_entered := shm_entered b @ shm_entering (At p) pc',
          shm_returned := shm_returned b @ shm_leaving (At p) pc'\<rparr>"
  shows "\<exists>s'. sys_step 1 s (Run i) s' \<and> shm_rel hdr b' s'"
proof -
  note R = shm_relD [OF rel]
  have plain: "plain p" using R(9) [OF i] p by simp
  note A = plain_run [OF run plain]
  let ?a = "m_arr (shared s)"
  let ?s = "s\<lparr>shared := view ?a q', pcs := (pcs s)[i := abs_pc pc'],
      entered := entered s @ entering (pcs s ! i) (abs_pc pc'),
      returned := returned s @ leaving (pcs s ! i) (abs_pc pc')\<rparr>"
  have pc: "pcs s ! i = p" using R(2) i p by simp
  have "thread_run (shared s) (pcs s ! i) = Some (view ?a q', abs_pc pc')"
    using A(1) R(1) pc unfolding same_queue_def by metis
  then have step: "sys_step 1 s (Run i) ?s"
    using i R(2) by (intro sys_step.run) simp_all
  have pcs_ok: "pc_ok hdr (region q') pc" if "pc \<in> set ((threads b)[i := pc'])" for pc
    using that set_update_subset_insert [of "threads b" i pc'] A(2,4) rel unfolding shm_rel_def by auto
  have cells: "item_of_bytes (cell ITEM_SIZE hdr k (region q')) = ?a ! k"
    if "k < nat (q_size q')" "\<not> writing ((threads b)[i := pc'] ! 0) (int k)" for k
  proof -
    have "\<not> writing (threads b ! 0) (int k)" using that(2) p by (cases "i = 0") auto
    with R(10) that(1) A(2,3) show ?thesis by simp
  qed
  have "shm_rel hdr b' ?s"
    using R A pc pcs_ok cells unfolding shm_rel_def b'
    by (simp add: map_update region_fits_def p)
  with step show ?thesis by blast
qed

text \<open>A byte moved in or out is no step of the queue of Chapter 12.\<close>

lemma act_byte_in:
  assumes rel: "shm_rel hdr b s" and inv: "spsc_inv sz s" and i: "i < length (threads b)"
    and p: "threads b ! i = Copy_in t x todo" and j: "j \<in> todo"
    and run: "shm_run hdr j (mem_queue b) (Copy_in t x todo) = Some (q', pc')"
  shows "shm_rel hdr (b\<lparr>mem_queue := q', threads := (threads b)[i := pc']\<rparr>) s \<and> (\<exists>todo'. pc' = Copy_in t x todo')"
proof -
  note R = shm_relD [OF rel] and slots = rel_slots [OF rel inv]
  have x: "i = 0" "0 \<le> x" "x < q_size (mem_queue b)" using slots(1) [OF _ p] i R(6) by auto
  have ok: "pc_ok hdr (region (mem_queue b)) (Copy_in t x todo)" using R(9) [OF i] p by simp
  then have jlt: "j < ITEM_SIZE" using j by auto
  from byte_in_ok [OF R(7) x(2,3) jlt, of t] obtain m where m:
    "byte_in hdr t x j (mem_queue b) = Inr ((mem_queue b)\<lparr>region := m\<rparr>)" "length m = length (region (mem_queue b))"
    "\<And>k. cell ITEM_SIZE hdr k m = (if k = nat x then (cell ITEM_SIZE hdr (nat x) (region (mem_queue b)))[j := item_bytes t ! j]
        else cell ITEM_SIZE hdr k (region (mem_queue b)))" by blast
  from run j m(1) have q': "q' = (mem_queue b)\<lparr>region := m\<rparr>" "pc' = Copy_in t x (todo - {j})"
    by (auto split: if_splits)
  note len = byte_offset(3) [OF R(7) x(2,3) jlt]
  have new: "pc_ok hdr m pc'"
    using ok len j by (auto simp: q'(2) m(3) nth_list_update)
  obtain C where C: "threads b = [Copy_in t x todo, C]"
    using two_threads [OF R(6)] p x(1) by metis
  have C_ok: "pc_ok hdr (region (mem_queue b)) C" using R(9) [of 1] C by simp
  have other: "pc_ok hdr m C"
  proof (cases C)
    case (Copy_out y got)
    then have "y \<noteq> x" "0 \<le> y" using slots(5) [of t x todo got] slots(2) [of 1 y got] C by auto
    then have "cell ITEM_SIZE hdr (nat y) m = cell ITEM_SIZE hdr (nat y) (region (mem_queue b))"
      using x(2) by (simp add: m(3) eq_nat_nat_iff)
    with C_ok Copy_out show ?thesis by simp
  next
    case (At p)
    with C_ok show ?thesis by simp
  next
    case (Copy_in u z w)
    with slots(1) [of 1 u z w] C show ?thesis by simp
  qed
  have cells: "item_of_bytes (cell ITEM_SIZE hdr k m) = m_arr (shared s) ! k"
    if "k < nat (q_size (mem_queue b))" "x \<noteq> int k" for k
  proof -
    have "k \<noteq> nat x" using that(2) x(2) by auto
    with R(10) [OF that(1)] that(2) C m(3) [of k] show ?thesis by simp
  qed
  have "shm_rel hdr (b\<lparr>mem_queue := q', threads := (threads b)[i := pc']\<rparr>) s"
    using rel new other cells x(1) m(2) C
    by (simp add: shm_rel_two q' region_fits_def del: pc_ok.simps)
  then show ?thesis using q'(2) by blast
qed

lemma act_byte_out:
  assumes rel: "shm_rel hdr b s" and inv: "spsc_inv sz s" and i: "i < length (threads b)"
    and p: "threads b ! i = Copy_out y got" and more: "\<not> list_all (\<lambda>i. got i \<noteq> None) [0..<ITEM_SIZE]"
    and run: "shm_run hdr j (mem_queue b) (Copy_out y got) = Some (q', pc')"
  shows "shm_rel hdr (b\<lparr>mem_queue := q', threads := (threads b)[i := pc']\<rparr>) s \<and> (\<exists>got'. pc' = Copy_out y got')"
proof -
  note R = shm_relD [OF rel] and slots = rel_slots [OF rel inv]
  have y: "i = 1" "0 \<le> y" "y < q_size (mem_queue b)" using slots(2) [OF _ p] i R(6) by auto
  have j: "j < ITEM_SIZE" using run more by (auto split: if_splits)
  have q': "q' = mem_queue b" "pc' = Copy_out y (got(j \<mapsto> cell ITEM_SIZE hdr (nat y) (region (mem_queue b)) ! j))"
    using run more byte_out_ok [OF R(7) y(2,3) j] by (auto split: if_splits)
  obtain P where P: "threads b = [P, Copy_out y got]"
    using two_threads [OF R(6)] p y(1) by metis
  have "pc_ok hdr (region (mem_queue b)) pc'"
    using R(9) [OF i] p j by (auto simp: q'(2))
  then have "shm_rel hdr (b\<lparr>mem_queue := q', threads := (threads b)[i := pc']\<rparr>) s"
    using rel P y(1) by (simp add: shm_rel_two q' del: pc_ok.simps)
  then show ?thesis using q'(2) by blast
qed

text \<open>The last byte is followed by the step that copies the whole element.\<close>

lemma same_queue_arr [simp]: "same_queue (r\<lparr>m_arr := a\<rparr>) q = same_queue r q"
proof -
  have "r\<lparr>m_arr := a\<rparr> = view a q \<longleftrightarrow> r = view (m_arr r) q"
    by (cases r) (auto simp: view_def)
  then show ?thesis by (simp add: same_queue_def)
qed

lemma act_copied_in:
  assumes rel: "shm_rel hdr b s" and inv: "spsc_inv sz s" and i: "i < length (threads b)"
    and p: "threads b ! i = Copy_in t x {}"
  shows "\<exists>s'. sys_step 1 s (Run i) s' \<and> shm_rel hdr (b\<lparr>threads := (threads b)[i := At Push_post]\<rparr>) s'"
proof -
  note R = shm_relD [OF rel] and slots = rel_slots [OF rel inv]
  have x: "i = 0" "0 \<le> x" "x < q_size (mem_queue b)" using slots(1) [OF _ p] i R(6) by auto
  obtain C where C: "threads b = [Copy_in t x {}, C]"
    using two_threads [OF R(6)] p x(1) by metis
  let ?s = "s\<lparr>shared := (shared s)\<lparr>m_arr := (m_arr (shared s))[nat x := t]\<rparr>, pcs := (pcs s)[i := Push_post]\<rparr>"
  have "0 < ITEM_SIZE" by (simp add: ITEM_SIZE_def)
  note len = byte_offset(3) [OF R(7) x(2,3) this]
  have t: "wf_item t" "\<And>j. j < ITEM_SIZE \<Longrightarrow> cell ITEM_SIZE hdr (nat x) (region (mem_queue b)) ! j = item_bytes t ! j"
    using R(9) [OF i] p by simp_all
  then have cell: "cell ITEM_SIZE hdr (nat x) (region (mem_queue b)) = item_bytes t"
    using len item_codec.enc_length by (intro nth_equalityI) simp_all
  have stored: "push_write x t (shared s) = Inr ((shared s)\<lparr>m_arr := (m_arr (shared s))[nat x := t]\<rparr>)"
    using x(2,3) slots(3,4) by (simp add: push_write_def array_set_def)
  have pc: "pcs s ! i = Push_copy t x" using R(2) i p by simp
  have "sys_step 1 s (Run i) ?s"
    using sys_step.run [of i s "(shared s)\<lparr>m_arr := (m_arr (shared s))[nat x := t]\<rparr>" Push_post 1] i R(2) pc stored by simp
  moreover have "item_of_bytes (cell ITEM_SIZE hdr k (region (mem_queue b))) = (m_arr (shared s))[nat x := t] ! k"
    if k: "k < nat (q_size (mem_queue b))" for k
  proof (cases "k = nat x")
    case True
    with k slots(3,4) cell t(1) item_codec.dec_enc show ?thesis by simp
  next
    case False
    then have "x \<noteq> int k" by auto
    with R(10) [OF k] False C show ?thesis by simp
  qed
  ultimately show ?thesis
    using rel C x(1) by (intro exI [of _ ?s]) (simp add: shm_rel_two)
qed

lemma act_copied_out:
  assumes rel: "shm_rel hdr b s" and inv: "spsc_inv sz s" and i: "i < length (threads b)"
    and p: "threads b ! i = Copy_out y got" and all: "list_all (\<lambda>i. got i \<noteq> None) [0..<ITEM_SIZE]"
    and v: "v = item_of_bytes (map (\<lambda>i. the (got i)) [0..<ITEM_SIZE])"
  shows "\<exists>s'. sys_step 1 s (Run i) s' \<and>
    shm_rel hdr (b\<lparr>threads := (threads b)[i := At (Pop_post v)], shm_returned := shm_returned b @ [v]\<rparr>) s'"
proof -
  note R = shm_relD [OF rel] and slots = rel_slots [OF rel inv]
  have y: "i = 1" "0 \<le> y" "y < q_size (mem_queue b)" using slots(2) [OF _ p] i R(6) by auto
  obtain P where P: "threads b = [P, Copy_out y got]"
    using two_threads [OF R(6)] p y(1) by metis
  let ?s = "s\<lparr>pcs := (pcs s)[i := Pop_post v], returned := returned s @ [v]\<rparr>"
  have "0 < ITEM_SIZE" by (simp add: ITEM_SIZE_def)
  note len = byte_offset(3) [OF R(7) y(2,3) this]
  have got: "the (got j) = cell ITEM_SIZE hdr (nat y) (region (mem_queue b)) ! j" if "j < ITEM_SIZE" for j
    using R(9) [OF i] p all that by (fastforce simp: list_all_iff)
  have "map (\<lambda>i. the (got i)) [0..<ITEM_SIZE] = cell ITEM_SIZE hdr (nat y) (region (mem_queue b))"
    using len got by (intro nth_equalityI) simp_all
  moreover have "\<not> writing P y"
    using slots(5) [of _ y _ got] P by (cases P) auto
  ultimately have v': "v = m_arr (shared s) ! nat y"
    using R(10) [of "nat y"] y(2,3) P v by simp
  have read: "pop_read y (shared s) = Inr v"
    using y(2,3) slots(3,4) by (simp add: pop_read_def array_get_def v')
  have pc: "pcs s ! i = Pop_copy y" using R(2) i p by simp
  have "sys_step 1 s (Run i) ?s"
    using sys_step.run [of i s "shared s" "Pop_post v" 1] i R(2) pc read by simp
  moreover have "shm_rel hdr (b\<lparr>threads := (threads b)[i := At (Pop_post v)], shm_returned := shm_returned b @ [v]\<rparr>) ?s"
    using rel P y(1) by (simp add: shm_rel_two)
  ultimately show ?thesis by blast
qed

text \<open>Every step of the processes is a step of the queue of Chapter 12, or none.\<close>

lemma shm_run_simulated:
  assumes rel: "shm_rel hdr b s" and inv: "spsc_inv sz s" and i: "i < length (threads b)"
    and run: "shm_run hdr j (mem_queue b) (threads b ! i) = Some (q', pc')"
    and b': "b' = b\<lparr>mem_queue := q', threads := (threads b)[i := pc'],
          shm_entered := shm_entered b @ shm_entering (threads b ! i) pc',
          shm_returned := shm_returned b @ shm_leaving (threads b ! i) pc'\<rparr>"
  shows "shm_rel hdr b' s \<or> (\<exists>s'. sys_step 1 s (Run i) s' \<and> shm_rel hdr b' s')"
proof (cases "threads b ! i")
  case (At p)
  with act_plain [OF rel i At run [unfolded At]] b' show ?thesis by simp
next
  case (Copy_in t x todo)
  show ?thesis
  proof (cases "todo = {}")
    case True
    with act_copied_in [OF rel inv i] Copy_in run b' show ?thesis by auto
  next
    case False
    with run Copy_in have "j \<in> todo" by (auto split: if_splits)
    from act_byte_in [OF rel inv i Copy_in this run [unfolded Copy_in]] b' Copy_in show ?thesis by auto
  qed
next
  case (Copy_out y got)
  show ?thesis
  proof (cases "list_all (\<lambda>i. got i \<noteq> None) [0..<ITEM_SIZE]")
    case True
    with act_copied_out [OF rel inv i Copy_out True refl] Copy_out run b' show ?thesis by auto
  next
    case False
    from act_byte_out [OF rel inv i Copy_out this run [unfolded Copy_out]] b' Copy_out show ?thesis by auto
  qed
qed

lemma rel_update_idle:
  assumes "shm_rel hdr b s" and "i < length (threads b)" and "pc_ok hdr (region (mem_queue b)) (At p)"
    and "\<exists>p0. threads b ! i = At p0"
  shows "shm_rel hdr (b\<lparr>threads := (threads b)[i := At p]\<rparr>) (s\<lparr>pcs := (pcs s)[i := p]\<rparr>)"
proof -
  obtain P C where PC: "threads b = [P, C]" using two_threads [OF shm_relD(6) [OF assms(1)]] by blast
  from assms(2) PC consider "i = 0" | "i = 1" by fastforce
  then show ?thesis
    using assms PC by cases (auto simp: shm_rel_two)
qed

lemma shm_step_simulated:
  assumes "shm_step hdr b e b'" and rel: "shm_rel hdr b s" and inv: "spsc_inv sz s"
  shows "shm_rel hdr b' s \<or> (\<exists>e' s'. sys_step 1 s e' s' \<and> shm_rel hdr b' s')"
  using assms(1)
proof cases
  case (act i j q' pc')
  from shm_run_simulated [OF rel inv act(3,4) act(2)] show ?thesis by blast
next
  note R = shm_relD [OF rel]
  note sem = arg_cong [OF R(1) [unfolded same_queue_def], of m_push_sem] arg_cong [OF R(1) [unfolded same_queue_def], of m_pop_sem]
  {
    case (call_push t)
    have "pcs s ! 0 = Idle" using call_push R(2) by simp
    with sys_step.begin_push [of 0 1 s t] call_push R(2,3)
    have "sys_step 1 s (Begin_push 0 t) (s\<lparr>pcs := (pcs s)[0 := Push_wait t (get_expire_time (shm_clock b))]\<rparr>)"
      by simp
    moreover have "shm_rel hdr b' (s\<lparr>pcs := (pcs s)[0 := Push_wait t (get_expire_time (shm_clock b))]\<rparr>)"
      unfolding call_push(2) using call_push by (intro rel_update_idle [OF rel]) simp_all
    ultimately show ?thesis by blast
  next
    case call_pop
    have "pcs s ! 1 = Idle" using call_pop R(2) by simp
    with sys_step.begin_pop [of 1 1 s] call_pop R(2,3)
    have "sys_step 1 s (Begin_pop 1) (s\<lparr>pcs := (pcs s)[1 := Pop_wait (get_expire_time (shm_clock b))]\<rparr>)"
      by simp
    moreover have "shm_rel hdr b' (s\<lparr>pcs := (pcs s)[1 := Pop_wait (get_expire_time (shm_clock b))]\<rparr>)"
      unfolding call_pop(2) using call_pop by (intro rel_update_idle [OF rel]) simp_all
    ultimately show ?thesis by blast
  next
    case (deadline_push i t d)
    have "pcs s ! i = Push_wait t d" using deadline_push R(2) by simp
    with sys_step.expire_push [of i s t d 1] deadline_push R(2,3) sem(1)
    have "sys_step 1 s (Expire i) (s\<lparr>pcs := (pcs s)[i := Idle]\<rparr>)" by (simp add: view_def)
    moreover have "shm_rel hdr b' (s\<lparr>pcs := (pcs s)[i := Idle]\<rparr>)"
      unfolding deadline_push(2) using deadline_push by (intro rel_update_idle [OF rel]) simp_all
    ultimately show ?thesis by blast
  next
    case (deadline_pop i d)
    have "pcs s ! i = Pop_wait d" using deadline_pop R(2) by simp
    with sys_step.expire_pop [of i s d 1] deadline_pop R(2,3) sem(2)
    have "sys_step 1 s (Expire i) (s\<lparr>pcs := (pcs s)[i := Idle]\<rparr>)" by (simp add: view_def)
    moreover have "shm_rel hdr b' (s\<lparr>pcs := (pcs s)[i := Idle]\<rparr>)"
      unfolding deadline_pop(2) using deadline_pop by (intro rel_update_idle [OF rel]) simp_all
    ultimately show ?thesis by blast
  next
    case (clock now)
    have "sys_step 1 s (Tick now) (s\<lparr>clock := now\<rparr>)"
      using clock R(3) by (intro sys_step.tick) simp
    moreover have "shm_rel hdr b' (s\<lparr>clock := now\<rparr>)"
      using rel by (simp add: shm_rel_def clock(2))
    ultimately show ?thesis by blast
  }
qed

section \<open>Reachable states\<close>

lemma shm_start_rel:
  assumes "shm_start mem sz qid now = Inr b0" and "0 < sz" and "hdr + ITEM_SIZE * nat sz \<le> length mem"
  shows "\<exists>s0. start_sys (\<lambda>k. item_of_bytes (cell ITEM_SIZE hdr k mem)) sz 2 now = Inr s0 \<and> shm_rel hdr b0 s0"
  using assms
  by (auto simp: shm_start_def shm_new_def start_sys_def new_queue_def shm_rel_def same_queue_def view_def
      region_fits_def numeral_2_eq_2)

lemma shm_reachable_rel:
  assumes "shm_start mem sz qid now = Inr b0" and "0 < sz" and "sz \<le> MAX_QUEUE_SIZE"
    and "hdr + ITEM_SIZE * nat sz \<le> length mem" and "shm_reachable hdr b0 b"
    and "start_sys (\<lambda>k. item_of_bytes (cell ITEM_SIZE hdr k mem)) sz 2 now = Inr s0"
  shows "\<exists>s. reachable 1 s0 s \<and> shm_rel hdr b s"
  using assms(5)
proof induction
  case start
  with shm_start_rel [OF assms(1,2,4)] assms(6) show ?case by (auto intro: reachable.start)
next
  case (step b e b')
  then obtain s where s: "reachable 1 s0 s" "shm_rel hdr b s" by blast
  have "spsc_inv sz s" by (rule spsc_reachable_inv [OF assms(6,2,3) s(1)])
  from shm_step_simulated [OF step(2) s(2) this] s(1) show ?case
    by (blast intro: reachable.step)
qed

lemma shm_run_length: "shm_run hdr j q pc = Some (q', pc') \<Longrightarrow> length (region q') = length (region q)"
  by (cases "(hdr, j, q, pc)" rule: shm_run.cases)
    (auto simp: byte_in_def array_set_def split: sum.splits if_splits dest: takes_keep_region)

lemma shm_reachable_length:
  assumes "shm_reachable hdr b0 b"
  shows "length (region (mem_queue b)) = length (region (mem_queue b0))"
  using assms by induction (auto elim!: shm_step.cases dest: shm_run_length)

text \<open>A state on the way: an item of which one byte is in its slot.\<close>

definition demo_region :: "byte list" where
  "demo_region = replicate SHARED_MEM_SIZE 0"

lemma demo_region_length: "length demo_region = 32768"
  by (simp add: demo_region_def SHARED_MEM_SIZE_def)

definition demo_shm :: shm_sys where
  "demo_shm =
     \<lparr>mem_queue = \<lparr>q_id = 1, q_front = 0, q_cur_count = 0, q_size = QUEUE_SIZE, q_pushed_count = 0,
         q_popped_count = 0, q_lock = 1, q_pop_sem = 0, q_push_sem = 5, region = demo_region\<rparr>,
      threads = [At Idle, At Idle], shm_clock = Timespec 0 0, shm_entered = [], shm_returned = []\<rparr>"

lemma demo_shm_start: "shm_start demo_region QUEUE_SIZE 1 (Timespec 0 0) = Inr demo_shm"
  by (simp add: shm_start_def shm_new_def demo_shm_def QUEUE_SIZE_def)

definition demo_copying :: shm_sys where
  "demo_copying = demo_shm
     \<lparr>mem_queue := (mem_queue demo_shm)\<lparr>q_cur_count := 1, q_pushed_count := 1, q_push_sem := 4,
         region := demo_region[127 := item_bytes blank_item ! 7]\<rparr>,
      threads := [Copy_in blank_item 0 ({..<ITEM_SIZE} - {7}), At Idle], shm_entered := [blank_item]\<rparr>"

fun shm_acts :: "nat \<Rightarrow> (nat \<times> nat) list \<Rightarrow> shm_sys \<Rightarrow> shm_sys option" where
  "shm_acts hdr [] b = Some b"
| "shm_acts hdr ((i, j) # es) b =
     (if i < length (threads b) then
        (case shm_run hdr j (mem_queue b) (threads b ! i) of
           None \<Rightarrow> None
         | Some (q', pc') \<Rightarrow> shm_acts hdr es
             (b\<lparr>mem_queue := q', threads := (threads b)[i := pc'],
                shm_entered := shm_entered b @ shm_entering (threads b ! i) pc',
                shm_returned := shm_returned b @ shm_leaving (threads b ! i) pc'\<rparr>))
      else None)"

lemma shm_acts_reachable: "shm_acts hdr es b = Some b' \<Longrightarrow> shm_reachable hdr b0 b \<Longrightarrow> shm_reachable hdr b0 b'"
proof (induction es arbitrary: b)
  case (Cons e es)
  obtain i j where e: "e = (i, j)" by fastforce
  with Cons.prems(1) obtain q' pc' where "i < length (threads b)"
    "shm_run hdr j (mem_queue b) (threads b ! i) = Some (q', pc')"
    and rest: "shm_acts hdr es
             (b\<lparr>mem_queue := q', threads := (threads b)[i := pc'],
                shm_entered := shm_entered b @ shm_entering (threads b ! i) pc',
                shm_returned := shm_returned b @ shm_leaving (threads b ! i) pc'\<rparr>) = Some b'"
    by (auto split: if_splits option.splits)
  with Cons.prems(2) shm_step.act show ?case by (intro Cons.IH [OF rest]) (blast intro: shm_reachable.step)
qed simp

lemma demo_copying_reachable: "shm_reachable 120 demo_shm demo_copying"
proof -
  let ?b = "demo_shm\<lparr>threads := [At (Push_wait blank_item (get_expire_time (Timespec 0 0))), At Idle]\<rparr>"
  let ?c = "demo_shm\<lparr>mem_queue := (mem_queue demo_shm)\<lparr>q_cur_count := 1, q_pushed_count := 1, q_push_sem := 4\<rparr>,
      threads := [Copy_in blank_item 0 {..<ITEM_SIZE}, At Idle], shm_entered := [blank_item]\<rparr>"
  have "shm_step 120 demo_shm (Call_push blank_item) ?b"
    using shm_step.call_push [of blank_item demo_shm 120] wf_blank_item by (simp add: demo_shm_def)
  then have "shm_reachable 120 demo_shm ?b" by (blast intro: shm_reachable.intros)
  moreover have "shm_acts 120 [(0, 0), (0, 0), (0, 0), (0, 0)] ?b = Some ?c"
    by (simp add: demo_shm_def shm_action_defs QUEUE_SIZE_def sem_take_def int_add_def int_rem_def INT_MAX_def
        INT_MIN_def sem_post_def)
  moreover have "shm_acts 120 [(0, 7)] ?c = Some demo_copying"
  proof -
    have "7 < ITEM_SIZE" by (simp add: ITEM_SIZE_def)
    moreover from this have "{..<ITEM_SIZE} \<noteq> {}" by auto
    ultimately show ?thesis
      by (simp add: byte_in_def transform_data_addr_def array_set_def demo_region_length demo_copying_def demo_shm_def)
  qed
  ultimately show ?thesis using shm_acts_reachable by blast
qed

lemma demo_shm_fits: "(0::int) < QUEUE_SIZE" "QUEUE_SIZE \<le> MAX_QUEUE_SIZE"
    "120 + ITEM_SIZE * nat QUEUE_SIZE \<le> length demo_region"
  by (simp_all add: QUEUE_SIZE_def MAX_QUEUE_SIZE_def ITEM_SIZE_def demo_region_def SHARED_MEM_SIZE_def)

section \<open>Properties\<close>

text \<open>
  C10: The queue in shared memory refines that of Chapter 12 under all interleavings: whatever state the two processes and
  their byte moves lead to, the queue of Chapter 12 with one producer and one consumer, whose copies are atomic,
  can be in a state with the same counters, semaphores, clock and histories and the
  same program points, and with the same items in all slots but the one being written.
\<close>

theorem shm_threads_refine:
  assumes "shm_start mem sz qid now = Inr b0" and "0 < sz" and "sz \<le> MAX_QUEUE_SIZE"
    and "hdr + ITEM_SIZE * nat sz \<le> length mem" and "shm_reachable hdr b0 b"
  shows "\<exists>s0 s. start_sys (\<lambda>k. item_of_bytes (cell ITEM_SIZE hdr k mem)) sz 2 now = Inr s0 \<and> reachable 1 s0 s \<and>
    same_queue (shared s) (mem_queue b) \<and> pcs s = map abs_pc (threads b) \<and> clock s = shm_clock b \<and>
    entered s = shm_entered b \<and> returned s = shm_returned b \<and>
    (\<forall>k < nat sz. writing (threads b ! 0) (int k) \<or>
       item_of_bytes (cell ITEM_SIZE hdr k (region (mem_queue b))) = m_arr (shared s) ! k)"
proof -
  obtain s0 where s0: "start_sys (\<lambda>k. item_of_bytes (cell ITEM_SIZE hdr k mem)) sz 2 now = Inr s0"
    using shm_start_rel [OF assms(1,2,4)] by blast
  obtain s where s: "reachable 1 s0 s" "shm_rel hdr b s"
    using shm_reachable_rel [OF assms s0] by blast
  note R = shm_relD [OF s(2)]
  have "q_size (mem_queue b) = sz"
    by (rule rel_slots(3) [OF s(2) spsc_reachable_inv [OF s0 assms(2,3) s(1)]])
  with R(10) have "\<forall>k < nat sz. writing (threads b ! 0) (int k) \<or>
       item_of_bytes (cell ITEM_SIZE hdr k (region (mem_queue b))) = m_arr (shared s) ! k" by blast
  with s0 s(1) R(1-5) show ?thesis by blast
qed

theorem shm_threads_refine_witness:
  "\<exists>s :: work_item sys. same_queue (shared s) (mem_queue demo_copying) \<and> pcs s = [Push_copy blank_item 0, Idle] \<and> entered s = [blank_item]"
proof -
  have "\<exists>s :: work_item sys. same_queue (shared s) (mem_queue demo_copying) \<and> pcs s = map abs_pc (threads demo_copying) \<and>
      entered s = shm_entered demo_copying"
    using shm_threads_refine [OF demo_shm_start demo_shm_fits demo_copying_reachable]
    by blast
  then show ?thesis by (simp add: demo_copying_def)
qed

text \<open>
  No item is torn or lost: although an item is moved byte by byte outside the critical sections, in any
  order and interleaved with the other process, the consumer gets exactly the items that the
  producer pushed, in order; at most as many as the queue has slots are under way, and no byte outside the region is
  touched: the only fault is the overflow of the counter after 2147483647 pushes.
\<close>

lemma shm_items_not_torn:
  assumes "shm_start mem sz qid now = Inr b0" and "0 < sz" and "sz \<le> MAX_QUEUE_SIZE"
    and "hdr + ITEM_SIZE * nat sz \<le> length mem" and "shm_reachable hdr b0 b"
  shows "shm_returned b = take (length (shm_returned b)) (shm_entered b) \<and>
    int (length (shm_entered b)) \<le> int (length (shm_returned b)) + sz \<and>
    (\<forall>pc \<in> set (threads b). case pc of
       At (Faulted f) \<Rightarrow> f = Signed_overflow \<and> length (shm_entered b) = nat INT_MAX | _ \<Rightarrow> True)"
proof -
  obtain s0 where s0: "start_sys (\<lambda>k. item_of_bytes (cell ITEM_SIZE hdr k mem)) sz 2 now = Inr s0"
    using shm_start_rel [OF assms(1,2,4)] by blast
  obtain s where s: "reachable 1 s0 s" "shm_rel hdr b s"
    using shm_reachable_rel [OF assms s0] by blast
  note R = shm_relD [OF s(2)]
  have inv: "spsc_inv sz s" by (rule spsc_reachable_inv [OF s0 assms(2,3) s(1)])
  note F = spsc_facts [OF inv] and I = sys_invD [OF conjunct1 [OF inv [unfolded spsc_inv_def]]]
  have "f = Signed_overflow \<and> length (shm_entered b) = nat INT_MAX" if "At (Faulted f) \<in> set (threads b)" for f
  proof -
    have "Faulted f \<in> set (pcs s)" using image_eqI [OF _ that, of _ abs_pc] R(2) by simp
    from I(8) [OF this] I(6) R(4) show ?thesis by (auto simp: fault_ok_def)
  qed
  then show ?thesis
    using F(1,4) R(4,5) by (auto simp: ring_ok_def split: shm_pc.split pc.split)
qed

theorem shm_items_not_torn_witness:
  "shm_returned demo_copying = take (length (shm_returned demo_copying)) (shm_entered demo_copying)"
  using shm_items_not_torn [OF demo_shm_start demo_shm_fits demo_copying_reachable] by blast

text \<open>
  C30: The processes keep the types of what they share. In every reachable state the region has its length, the
  object's counters are in their ranges and far from overflow in the slot computation, the
  program points carry slots of the ring, and all items under way and delivered are well-formed items.
\<close>

theorem shm_state_typed:
  assumes "shm_start mem sz qid now = Inr b0" and "0 < sz" and "sz \<le> MAX_QUEUE_SIZE"
    and "hdr + ITEM_SIZE * nat sz \<le> length mem" and "shm_reachable hdr b0 b"
  shows "length (region (mem_queue b)) = length mem \<and> q_size (mem_queue b) = sz \<and>
    0 \<le> q_front (mem_queue b) \<and> q_front (mem_queue b) < sz \<and>
    0 \<le> q_cur_count (mem_queue b) \<and> q_cur_count (mem_queue b) \<le> sz \<and>
    in_int (q_front (mem_queue b) + q_cur_count (mem_queue b)) \<and>
    (\<forall>pc \<in> set (threads b). slot_ok sz (abs_pc pc)) \<and>
    list_all wf_item (shm_entered b) \<and> list_all wf_item (shm_returned b)"
proof -
  obtain s0 where s0: "start_sys (\<lambda>k. item_of_bytes (cell ITEM_SIZE hdr k mem)) sz 2 now = Inr s0"
    using shm_start_rel [OF assms(1,2,4)] by blast
  obtain s where s: "reachable 1 s0 s" "shm_rel hdr b s"
    using shm_reachable_rel [OF assms s0] by blast
  note R = shm_relD [OF s(2)]
  have inv: "spsc_inv sz s" by (rule spsc_reachable_inv [OF s0 assms(2,3) s(1)])
  note F = spsc_facts [OF inv] and I = sys_invD [OF conjunct1 [OF inv [unfolded spsc_inv_def]]]
  have q: "m_front (shared s) = q_front (mem_queue b)" "m_cur_count (shared s) = q_cur_count (mem_queue b)"
    using arg_cong [OF R(1) [unfolded same_queue_def], of m_front]
      arg_cong [OF R(1) [unfolded same_queue_def], of m_cur_count] by (simp_all add: view_def)
  have bounds: "0 \<le> q_front (mem_queue b)" "q_front (mem_queue b) < sz" "0 \<le> q_cur_count (mem_queue b)"
    "q_cur_count (mem_queue b) \<le> sz"
    using I(1,2) unfolding ring_wf_def q by auto
  have len: "length (region (mem_queue b)) = length mem"
    using shm_reachable_length [OF assms(5)] assms(1) by (auto simp: shm_start_def shm_new_def split: if_splits)
  have "shm_returned b = take (length (shm_returned b)) (shm_entered b)"
    using F(1) R(4,5) by (simp add: ring_ok_def)
  then have "set (shm_returned b) \<subseteq> set (shm_entered b)" by (metis set_take_subset)
  then have "list_all wf_item (shm_returned b)" using R(8) by (auto simp: list_all_iff)
  moreover have "slot_ok sz (abs_pc pc)" if "pc \<in> set (threads b)" for pc
    using I(7) [of "abs_pc pc"] R(2) that by simp
  moreover have "in_int (q_front (mem_queue b) + q_cur_count (mem_queue b))"
    using bounds assms(3) by (simp add: in_int_def INT_MIN_def INT_MAX_def MAX_QUEUE_SIZE_def)
  ultimately show ?thesis
    using len bounds R(8) rel_slots(3) [OF s(2) inv] by blast
qed

theorem shm_state_typed_witness:
  "length (region (mem_queue demo_copying)) = 32768 \<and> list_all wf_item (shm_entered demo_copying)"
  using shm_state_typed [OF demo_shm_start demo_shm_fits demo_copying_reachable]
  by (simp add: demo_region_def SHARED_MEM_SIZE_def)

end
