(* ===== verification/Shm_Workers.thy ===== *)
theory Shm_Workers
  imports Shm_Threads Queue_Workers
begin

text \<open>
  The producer and the consumer of Chapter 14 at work: two processes that share nothing but the region with the queue. The
  loops are those of \<open>Queue_Workers\<close>, the steps of the queue those of \<open>Shm_Threads\<close>, byte moves included; the queue in
  the region provides the interface that the workers rely on, so that every item the producer
  makes arrives at the consumer whole, once and in its turn.
\<close>

section \<open>The queue in the region as the workers see it\<close>

fun shm_event_of :: "shm_event \<Rightarrow> mover" where
  "shm_event_of (Call_push t) = Calls_push 0 t"
| "shm_event_of Call_pop = Calls_pop 1"
| "shm_event_of (Act i j) = Moves i"
| "shm_event_of (Deadline i) = Moves i"
| "shm_event_of (Clock now) = Nobody"

definition shm_calls :: "shm_sys \<Rightarrow> call list" where
  "shm_calls b = map (\<lambda>pc. call_of (abs_pc pc)) (threads b)"

text \<open>The two classes of Chapter 14: the producer's process and the consumer's.\<close>

definition shm_producer :: "work_item \<Rightarrow> nat \<Rightarrow> shm_sys \<Rightarrow> shm_sys workers" where
  "shm_producer junk k b = start_workers junk [k] b"

definition shm_produce :: "nat \<Rightarrow> shm_sys workers \<Rightarrow> shm_sys workers \<Rightarrow> bool" where
  "shm_produce hdr = produce (shm_step hdr) shm_event_of shm_calls 0"

definition shm_consume :: "nat \<Rightarrow> shm_sys workers \<Rightarrow> shm_sys workers \<Rightarrow> bool" where
  "shm_consume hdr = consume (shm_step hdr) shm_event_of shm_calls 1"

text \<open>A run of the two processes, one action at a time.\<close>

inductive shm_working :: "nat \<Rightarrow> shm_sys workers \<Rightarrow> shm_sys workers \<Rightarrow> bool" for hdr w0 where
  start: "shm_working hdr w0 w0"
| producer: "shm_working hdr w0 w \<Longrightarrow> shm_produce hdr w w' \<Longrightarrow> shm_working hdr w0 w'"
| consumer: "shm_working hdr w0 w \<Longrightarrow> shm_consume hdr w w' \<Longrightarrow> shm_working hdr w0 w'"
| clock: "shm_working hdr w0 w \<Longrightarrow> shm_clock (wqueue w) \<le> now \<Longrightarrow>
    shm_working hdr w0 (w\<lparr>wqueue := (wqueue w)\<lparr>shm_clock := now\<rparr>\<rparr>)"

lemma shm_working_reachable:
  "shm_working hdr w0 w \<Longrightarrow> work_reachable (shm_step hdr) shm_event_of shm_calls w0 w"
proof (induction rule: shm_working.induct)
  case (clock w now)
  show ?case
    by (rule work_reachable.step [OF clock(3) work_step.time_passes
          [where qstep = "shm_step hdr" and w = w, OF shm_step.clock [OF clock(2)]]]) simp
qed (auto simp: shm_produce_def shm_consume_def intro: work_reachable.intros work_step.intros)

lemma shm_run_call:
  "shm_run hdr j q pc = Some (q', pc') \<Longrightarrow>
   call_goes (call_of (abs_pc pc)) (call_of (abs_pc pc')) \<and>
   shm_entering pc pc' = call_puts (call_of (abs_pc pc)) (call_of (abs_pc pc')) \<and>
   shm_leaving pc pc' = call_takes (call_of (abs_pc pc)) (call_of (abs_pc pc'))"
  by (cases "(hdr, j, q, pc)" rule: shm_run.cases) (auto split: sum.splits if_splits)

lemma shm_step_moves:
  assumes "shm_step hdr b e b'" and "shm_event_of e = Moves i"
  shows "i < length (shm_calls b) \<and> (\<exists>c. shm_calls b' = (shm_calls b)[i := c] \<and> call_goes (shm_calls b ! i) c \<and>
    shm_entered b' = shm_entered b @ call_puts (shm_calls b ! i) c \<and>
    shm_returned b' = shm_returned b @ call_takes (shm_calls b ! i) c)"
  using assms
proof (cases rule: shm_step.cases)
  case (act i' j q' pc')
  with assms(2) shm_run_call [OF act(4)] show ?thesis
    by (auto simp: shm_calls_def map_update intro!: exI [of _ "call_of (abs_pc pc')"])
qed (use assms(2) in \<open>auto simp: shm_calls_def map_update intro!: exI [of _ No_call]\<close>)

lemma shm_step_calls:
  assumes "shm_step hdr b e b'"
  shows "shm_event_of e = Calls_push i t \<Longrightarrow> i < length (shm_calls b) \<and> shm_calls b ! i = No_call \<and>
      shm_calls b' = (shm_calls b)[i := Wants t] \<and> shm_entered b' = shm_entered b \<and> shm_returned b' = shm_returned b"
    and "shm_event_of e = Calls_pop i \<Longrightarrow> i < length (shm_calls b) \<and> shm_calls b ! i = No_call \<and>
      shm_calls b' = (shm_calls b)[i := Takes] \<and> shm_entered b' = shm_entered b \<and> shm_returned b' = shm_returned b"
    and "shm_event_of e = Nobody \<Longrightarrow>
      shm_calls b' = shm_calls b \<and> shm_entered b' = shm_entered b \<and> shm_returned b' = shm_returned b"
  using assms by (auto elim!: shm_step.cases simp: shm_calls_def map_update)

text \<open>The states of the region that stand for a state of the queue of Chapter 12.\<close>

definition shm_inv :: "nat \<Rightarrow> int \<Rightarrow> shm_sys \<Rightarrow> bool" where
  "shm_inv hdr sz b \<longleftrightarrow> (\<exists>s. shm_rel hdr b s \<and> spsc_inv sz s)"

lemma shm_inv_step: "shm_inv hdr sz b \<Longrightarrow> shm_step hdr b e b' \<Longrightarrow> shm_inv hdr sz b'"
  unfolding shm_inv_def using shm_step_simulated spsc_step_inv by blast

interpretation shm_called: fifo_queue "shm_step hdr" shm_event_of shm_calls shm_entered shm_returned "shm_inv hdr sz" sz
  for hdr sz
proof unfold_locales
  fix b b' e
  show "shm_inv hdr sz b \<Longrightarrow> shm_step hdr b e b' \<Longrightarrow> shm_inv hdr sz b'" by (rule shm_inv_step)
  show "shm_inv hdr sz b \<Longrightarrow> length (shm_calls b) = 2" by (auto simp: shm_inv_def shm_calls_def dest: shm_relD(6))
  show "shm_inv hdr sz b \<Longrightarrow> shm_returned b = take (length (shm_returned b)) (shm_entered b) \<and>
      int (length (shm_entered b)) \<le> int (length (shm_returned b)) + sz"
    unfolding shm_inv_def by (metis (no_types, lifting) ring_ok_def shm_relD(4,5) spsc_facts(1,4))
qed (rule shm_step_calls shm_step_moves, assumption+)+

lemma shm_start_inv:
  assumes "shm_start mem sz qid now = Inr b0" and "0 < sz" and "sz \<le> MAX_QUEUE_SIZE"
    and "hdr + ITEM_SIZE * nat sz \<le> length mem"
  shows "shm_inv hdr sz b0"
  using shm_start_rel [OF assms(1,2,4)] spsc_start_inv [OF _ assms(2,3)] unfolding shm_inv_def by blast

section \<open>Properties\<close>

text \<open>
  C1: Chapter 14 from \<^verbatim>\<open>cook_item\<close> to \<^verbatim>\<open>consume_item\<close>, with the producer and the consumer in two processes whose actions and byte
  moves interleave in any order: the items handed to \<^verbatim>\<open>consume_item\<close> are the first items the producer made, whole and in
  the order in which it made them, with consecutive ids from 300000 times its id and a text of at most 510
  letters each; none is lost or repeated when a \<^verbatim>\<open>push\<close> times out, at most one more than the queue has slots are under way, and
  neither process runs into undefined behaviour before 2147483647 pushes.
\<close>

theorem shm_workers_deliver:
  assumes "shm_start mem sz qid now = Inr b0" and "0 < sz" and "sz \<le> MAX_QUEUE_SIZE"
    and "hdr + ITEM_SIZE * nat sz \<le> length mem" and "wf_item junk"
    and "shm_working hdr (shm_producer junk k b0) w"
  shows "map snd (handed_log w) = take (length (handed_log w)) (map snd (put_log w)) \<and>
    made_in_order k (map snd (put_log w)) \<and>
    int (length (put_log w)) \<le> int (length (handed_log w)) + sz + 1 \<and> cook_fault w = None \<and>
    (\<forall>f. At (Faulted f) \<in> set (threads (wqueue w)) \<longrightarrow> f = Signed_overflow \<and> length (put_log w) = nat INT_MAX)"
proof -
  have "shm_calls b0 = [No_call, No_call]" "shm_entered b0 = []" "shm_returned b0 = []"
    using assms(1) by (auto simp: shm_start_def shm_calls_def)
  then have "shm_called.pair_ok hdr sz k (shm_producer junk k b0)"
    unfolding shm_producer_def by (intro shm_called.pair_ok_start assms(5) shm_start_inv [OF assms(1-4)])
  then have ok: "shm_called.pair_ok hdr sz k w"
    by (rule shm_called.pair_reachable_ok [OF shm_working_reachable [OF assms(6)]])
  then obtain s where s: "shm_rel hdr (wqueue w) s" "spsc_inv sz s"
    and put: "map snd (put_log w) = shm_entered (wqueue w)"
    by (auto simp: shm_called.pair_ok_def workers_ok_def shm_inv_def)
  have "f = Signed_overflow \<and> length (put_log w) = nat INT_MAX" if "At (Faulted f) \<in> set (threads (wqueue w))" for f
  proof -
    note R = shm_relD [OF s(1)] and I = sys_invD [OF conjunct1 [OF s(2) [unfolded spsc_inv_def]]]
    have "Faulted f \<in> set (pcs s)" using image_eqI [OF _ that, of _ abs_pc] R(2) by simp
    from I(8) [OF this] I(6) R(4) arg_cong [OF put, of length] show ?thesis by (auto simp: fault_ok_def)
  qed
  with shm_called.pair_delivers [OF ok] show ?thesis by blast
qed

text \<open>The producer after the first actions of its first \<^verbatim>\<open>push\<close>: it has its slot and is about to release the lock.\<close>

definition at_work :: "shm_queue \<Rightarrow> shm_pc \<Rightarrow> work_item list \<Rightarrow> shm_sys workers" where
  "at_work q pc ts =
     \<lparr>wqueue = demo_shm\<lparr>mem_queue := q, threads := [pc, At Idle], shm_entered := ts\<rparr>,
      makers = [demo_maker 300001 (item_nr 300000) True], cook_fault = None, put_log = map (Pair 0) ts, handed_log = []\<rparr>"

lemma at_work_act:
  assumes "shm_run hdr 0 q pc = Some (q', pc')" and "push_result (call_of (abs_pc pc)) (call_of (abs_pc pc')) \<noteq> Some True"
    and "shm_leaving pc pc' = []"
  shows "shm_produce hdr (at_work q pc ts) (at_work q' pc' (ts @ shm_entering pc pc'))"
proof -
  have "shm_step hdr (wqueue (at_work q pc ts)) (Act 0 0) (wqueue (at_work q' pc' (ts @ shm_entering pc pc')))"
    using assms(1,3) shm_step.act [of 0 "wqueue (at_work q pc ts)" hdr 0 q' pc'] by (simp add: at_work_def demo_shm_def)
  from produce.in_push [where qstep = "shm_step hdr" and doing = shm_calls and w = "at_work q pc ts" and who = shm_event_of and i = 0, OF _ this]
  show ?thesis
    using assms(2) conjunct1 [OF conjunct2 [OF shm_run_call [OF assms(1)]]]
    by (simp add: shm_produce_def at_work_def shm_calls_def)
qed

definition demo_put :: "shm_sys workers" where
  "demo_put = at_work ((mem_queue demo_shm)\<lparr>q_cur_count := 1, q_pushed_count := 1, q_lock := 0, q_push_sem := 4\<rparr>)
     (At (Push_unlock (item_nr 300000) 0)) [item_nr 300000]"

lemma demo_put_working: "shm_working 120 (shm_producer (item_nr 0) 1 demo_shm) demo_put"
proof -
  let ?d = "get_expire_time (Timespec 0 0)" and ?q = "mem_queue demo_shm" and ?t = "item_nr 300000"
  let ?w = "\<lparr>wqueue = demo_shm, makers = [demo_maker 300000 (item_nr 0) False], cook_fault = None, put_log = [], handed_log = []\<rparr>"
  have w: "shm_producer (item_nr 0) 1 demo_shm = ?w"
    by (simp add: shm_producer_def start_workers_def new_producer_def demo_maker_def ITEM_STARTING_ID_EACH_PRODUCER_def)
  have s1: "shm_produce 120 (shm_producer (item_nr 0) 1 demo_shm) (at_work ?q (At Idle) [])"
    unfolding w shm_produce_def
    using produce.cook [where r = "\<lambda>_. 0" and qstep = "shm_step 120" and who = shm_event_of and i = 0 and doing = shm_calls and w = ?w]
    by (simp add: shm_calls_def demo_shm_def demo_maker_def item_nr_cooked at_work_def)
  have "shm_step 120 (wqueue (at_work ?q (At Idle) [])) (Call_push ?t) (wqueue (at_work ?q (At (Push_wait ?t ?d)) []))"
    using shm_step.call_push [of ?t "wqueue (at_work ?q (At Idle) [])" 120] wf_item_nr by (simp add: at_work_def demo_shm_def)
  from produce.call_push [where qstep = "shm_step 120" and w = "at_work ?q (At Idle) []" and i = 0 and who = shm_event_of and doing = shm_calls, OF _ _ this]
  have s2: "shm_produce 120 (at_work ?q (At Idle) []) (at_work ?q (At (Push_wait ?t ?d)) [])"
    by (simp add: shm_produce_def at_work_def demo_maker_def)
  have s3: "shm_produce 120 (at_work ?q (At (Push_wait ?t ?d)) []) (at_work (?q\<lparr>q_push_sem := 4\<rparr>) (At (Push_lock ?t)) [])"
    using at_work_act [of 120 ?q "At (Push_wait ?t ?d)" "?q\<lparr>q_push_sem := 4\<rparr>" "At (Push_lock ?t)" "[]"]
    by (simp add: demo_shm_def shm_push_take_def sem_take_def push_result_def)
  have s4: "shm_produce 120 (at_work (?q\<lparr>q_push_sem := 4\<rparr>) (At (Push_lock ?t)) [])
      (at_work (?q\<lparr>q_lock := 0, q_push_sem := 4\<rparr>) (At (Push_crit ?t)) [])"
    using at_work_act [of 120 "?q\<lparr>q_push_sem := 4\<rparr>" "At (Push_lock ?t)" "?q\<lparr>q_lock := 0, q_push_sem := 4\<rparr>" "At (Push_crit ?t)" "[]"]
    by (simp add: demo_shm_def shm_lock_take_def sem_take_def push_result_def)
  have s5: "shm_produce 120 (at_work (?q\<lparr>q_lock := 0, q_push_sem := 4\<rparr>) (At (Push_crit ?t)) []) demo_put"
    using at_work_act [of 120 "?q\<lparr>q_lock := 0, q_push_sem := 4\<rparr>" "At (Push_crit ?t)"
        "?q\<lparr>q_cur_count := 1, q_pushed_count := 1, q_lock := 0, q_push_sem := 4\<rparr>" "At (Push_unlock ?t 0)" "[]"]
    by (simp add: demo_put_def demo_shm_def shm_push_reserve_def push_result_def QUEUE_SIZE_def int_add_def int_rem_def
        INT_MAX_def INT_MIN_def)
  note go = shm_working.producer
  show ?thesis by (rule go [OF go [OF go [OF go [OF go [OF shm_working.start s1] s2] s3] s4] s5])
qed

theorem shm_workers_deliver_witness:
  "made_in_order 1 [item_nr 300000] \<and> int (length (put_log demo_put)) \<le> int (length (handed_log demo_put)) + QUEUE_SIZE + 1"
  using shm_workers_deliver [OF demo_shm_start demo_shm_fits wf_item_nr demo_put_working]
  by (simp add: demo_put_def at_work_def)

end
