(* ===== verification/Msg_Queue.thy ===== *)
theory Msg_Queue
  imports Codec Producer_Consumer
begin

text \<open>
  The producer and the consumer of Chapter 14 that talk through a POSIX message queue. The
  queue is the kernel's: what the programs rely on is that it holds up to \<^verbatim>\<open>mq_maxmsg\<close> messages
  of up to \<^verbatim>\<open>mq_msgsize\<close> bytes and delivers those of one priority in order. A producer that
  times out drops its item, unlike the one of Chapter 12.
\<close>

section \<open>The message queue\<close>

record msg_queue =
  mq_maxmsg :: nat
  mq_msgsize :: nat
  mq_messages :: "byte list list"

datatype errno = EMSGSIZE | ETIMEDOUT

text \<open>
  \<^verbatim>\<open>mq_timedsend\<close> and \<^verbatim>\<open>mq_timedreceive\<close> (POSIX, \<^verbatim>\<open>mqueue.h\<close>) with a deadline that passes
  while nobody else uses the queue; every message has the same priority, 5.
\<close>

definition mq_timedsend :: "byte list \<Rightarrow> msg_queue \<Rightarrow> (errno + unit) \<times> msg_queue" where
  "mq_timedsend msg q =
     (if mq_msgsize q < length msg then (Inl EMSGSIZE, q)
      else if length (mq_messages q) < mq_maxmsg q
        then (Inr (), q\<lparr>mq_messages := mq_messages q @ [msg]\<rparr>)
      else (Inl ETIMEDOUT, q))"

definition mq_timedreceive :: "nat \<Rightarrow> msg_queue \<Rightarrow> (errno + byte list) \<times> msg_queue" where
  "mq_timedreceive len q =
     (if len < mq_msgsize q then (Inl EMSGSIZE, q)
      else (case mq_messages q of
              [] \<Rightarrow> (Inl ETIMEDOUT, q)
            | m # ms \<Rightarrow> (Inr m, q\<lparr>mq_messages := ms\<rparr>)))"

text \<open>\<^verbatim>\<open>mq_open\<close> with \<^verbatim>\<open>O_CREAT\<close>: a queue that exists already is opened as it is.\<close>

definition mq_create :: "msg_queue option \<Rightarrow> nat \<Rightarrow> nat \<Rightarrow> msg_queue" where
  "mq_create existing maxmsg msgsize =
     (case existing of
        Some q \<Rightarrow> q
      | None \<Rightarrow> \<lparr>mq_maxmsg = maxmsg, mq_msgsize = msgsize, mq_messages = []\<rparr>)"

definition MQ_QUEUE_SIZE :: nat where "MQ_QUEUE_SIZE = 10"

text \<open>The parent's queue: ten messages of the size of an item.\<close>

definition parent_queue :: "msg_queue option \<Rightarrow> msg_queue" where
  "parent_queue existing = mq_create existing MQ_QUEUE_SIZE ITEM_SIZE"

section \<open>Producer\<close>

record mq_producer =
  mp_id :: "32 word"
  mp_next_item_id :: "32 word"
  mp_produced_count :: "32 word"
  mp_mqd :: bool

text \<open>\<open>mp_mqd\<close> says whether \<^verbatim>\<open>mq_open\<close> succeeded: \<^verbatim>\<open>m_mqd\<close> is not -1.\<close>

definition new_mq_producer :: "bool \<Rightarrow> 32 word \<Rightarrow> mq_producer" where
  "new_mq_producer opened pid =
     \<lparr>mp_id = pid, mp_next_item_id = of_nat ITEM_STARTING_ID_EACH_PRODUCER * pid,
      mp_produced_count = 0, mp_mqd = opened\<rparr>"

definition mq_cook_item :: "mq_producer \<Rightarrow> rng \<Rightarrow> work_item \<Rightarrow> (work_item \<times> mq_producer \<times> rng) result" where
  "mq_cook_item p r item =
     (let item1 = item\<lparr>item_id := mp_next_item_id p\<rparr>;
          p1 = p\<lparr>mp_next_item_id := mp_next_item_id p + 1\<rparr>;
          (x, r1) = rand r;
          datalen = x mod (MAX_WORK_ITEM_LEN - 1)
      in bind_result (fill_letters datalen 0 r1 (item_data item1)) (\<lambda>(d, r2).
         bind_result (array_set d (int datalen) 0) (\<lambda>d'.
           Inr (item1\<lparr>item_data := d'\<rparr>, p1, r2))))"

datatype mq_report = Nothing_said | Zero_length | Error_said errno

text \<open>
  \<^verbatim>\<open>Producer::work\<close>: \<open>junk\<close> is what the item's memory held. The result lists the item sent.
\<close>

definition mq_producer_work ::
    "work_item \<Rightarrow> mq_producer \<Rightarrow> rng \<Rightarrow> msg_queue \<Rightarrow> (mq_producer \<times> rng \<times> msg_queue \<times> work_item list \<times> mq_report) result" where
  "mq_producer_work junk p r q =
     (if \<not> mp_mqd p then Inr (p, r, q, [], Nothing_said)
      else bind_result (mq_cook_item p r junk) (\<lambda>(item, p1, r1).
        (case mq_timedsend (item_bytes item) q of
           (Inr _, q') \<Rightarrow> Inr (p1\<lparr>mp_produced_count := mp_produced_count p1 + 1\<rparr>, r1, q', [item], Nothing_said)
         | (Inl ETIMEDOUT, q') \<Rightarrow> Inr (p1, r1, q', [], Nothing_said)
         | (Inl e, q') \<Rightarrow> Inr (p1, r1, q', [], Error_said e))))"

section \<open>Consumer\<close>

record mq_consumer =
  mc_id :: "32 word"
  mc_consumed_count :: "32 word"
  mc_mqd :: bool

definition new_mq_consumer :: "bool \<Rightarrow> 32 word \<Rightarrow> mq_consumer" where
  "new_mq_consumer opened cid = \<lparr>mc_id = cid, mc_consumed_count = 0, mc_mqd = opened\<rparr>"

text \<open>
  \<^verbatim>\<open>Consumer::work\<close>: the message is copied to \<open>item\<close>, which has \<open>ITEM_SIZE\<close> bytes, although the
  call allows one byte more.
\<close>

definition mq_consumer_work ::
    "byte list \<Rightarrow> mq_consumer \<Rightarrow> msg_queue \<Rightarrow> (mq_consumer \<times> msg_queue \<times> work_item list \<times> mq_report) result" where
  "mq_consumer_work junk c q =
     (if \<not> mc_mqd c then Inr (c, q, [], Nothing_said)
      else (case mq_timedreceive (ITEM_SIZE + 1) q of
              (Inr m, q') \<Rightarrow>
                bind_result (mem_write junk 0 m) (\<lambda>mem.
                  if 0 < length m
                  then Inr (c\<lparr>mc_consumed_count := mc_consumed_count c + 1\<rparr>, q', [item_of_bytes mem], Nothing_said)
                  else Inr (c, q', [], Zero_length))
            | (Inl ETIMEDOUT, q') \<Rightarrow> Inr (c, q', [], Nothing_said)
            | (Inl e, q') \<Rightarrow> Inr (c, q', [], Error_said e)))"

section \<open>The message queue as a channel\<close>

definition mq_put :: "byte list \<Rightarrow> msg_queue \<Rightarrow> (bool \<times> msg_queue) result" where
  "mq_put m q = (case mq_timedsend m q of (Inr _, q') \<Rightarrow> Inr (True, q') | (Inl _, q') \<Rightarrow> Inr (False, q'))"

definition mq_get :: "nat \<Rightarrow> msg_queue \<Rightarrow> (byte list option \<times> msg_queue) result" where
  "mq_get len q =
     (case mq_timedreceive len q of (Inr m, q') \<Rightarrow> Inr (Some m, q') | (Inl _, q') \<Rightarrow> Inr (None, q'))"

definition mq_wf :: "msg_queue \<Rightarrow> bool" where
  "mq_wf q \<longleftrightarrow> mq_msgsize q = ITEM_SIZE \<and> length (mq_messages q) \<le> mq_maxmsg q \<and>
     (\<forall>m \<in> set (mq_messages q). length m = ITEM_SIZE)"

interpretation mq_channel: fifo_channel mq_put "mq_get (ITEM_SIZE + 1)" mq_messages mq_maxmsg "\<lambda>_. n" mq_wf
    "\<lambda>m. length m = ITEM_SIZE" for n :: nat
  by unfold_locales
    (auto simp: mq_put_def mq_get_def mq_timedsend_def mq_timedreceive_def mq_wf_def)

section \<open>Producers and consumers together\<close>

record mq_state =
  mq_producers :: "mq_producer list"
  mq_consumers :: "mq_consumer list"
  mq_draws :: rng
  mq_q :: msg_queue
  mq_sent :: "(nat \<times> work_item) list"
  mq_received :: "(nat \<times> work_item) list"

datatype mq_turn = Send_turn nat | Receive_turn nat

text \<open>\<open>junk\<close> is what the memory of the local items holds.\<close>

definition mq_take_turn :: "work_item \<Rightarrow> mq_turn \<Rightarrow> mq_state \<Rightarrow> mq_state result" where
  "mq_take_turn junk t s =
     (case t of
        Send_turn k \<Rightarrow>
          if k < length (mq_producers s)
          then bind_result (mq_producer_work junk (mq_producers s ! k) (mq_draws s) (mq_q s))
            (\<lambda>(p, r, q, xs, rep). Inr (s\<lparr>mq_producers := (mq_producers s)[k := p], mq_draws := r, mq_q := q,
               mq_sent := mq_sent s @ map (\<lambda>x. (k, x)) xs\<rparr>))
          else Inr s
      | Receive_turn k \<Rightarrow>
          if k < length (mq_consumers s)
          then bind_result (mq_consumer_work (item_bytes junk) (mq_consumers s ! k) (mq_q s))
            (\<lambda>(c, q, xs, rep). Inr (s\<lparr>mq_consumers := (mq_consumers s)[k := c], mq_q := q,
               mq_received := mq_received s @ map (\<lambda>x. (k, x)) xs\<rparr>))
          else Inr s)"

fun mq_take_turns :: "work_item \<Rightarrow> mq_turn list \<Rightarrow> mq_state \<Rightarrow> mq_state result" where
  "mq_take_turns junk [] s = Inr s"
| "mq_take_turns junk (t # ts) s = bind_result (mq_take_turn junk t s) (mq_take_turns junk ts)"

definition mq_start :: "nat \<Rightarrow> nat \<Rightarrow> rng \<Rightarrow> mq_state" where
  "mq_start n c r =
     \<lparr>mq_producers = map (\<lambda>i. new_mq_producer True (of_nat i)) [0..<n],
      mq_consumers = map (\<lambda>i. new_mq_consumer True (of_nat i)) [0..<c],
      mq_draws = r, mq_q = parent_queue None, mq_sent = [], mq_received = []\<rparr>"

section \<open>Invariant\<close>

text \<open>\<^verbatim>\<open>cook_item\<close> is the same code as in Chapter 12.\<close>

lemma mq_cook_item_same:
  "mq_cook_item p r item =
   bind_result (cook_item \<lparr>prod_id = mp_id p, m_next_item_id = mp_next_item_id p,
       m_saved_work_item = item, m_valid_saved_work_item = False\<rparr> r item)
     (\<lambda>(it, p', r'). Inr (it, p\<lparr>mp_next_item_id := m_next_item_id p'\<rparr>, r'))"
  by (simp add: mq_cook_item_def cook_item_def Let_def split_def bind_result_assoc)

lemma mq_cook_item_spec:
  assumes "wf_item item"
  shows "\<exists>item' r'. mq_cook_item p r item = Inr (item', p\<lparr>mp_next_item_id := mp_next_item_id p + 1\<rparr>, r') \<and>
    item_id item' = mp_next_item_id p \<and> wf_item item'"
  using cook_item_spec [OF assms, of "\<lparr>prod_id = mp_id p, m_next_item_id = mp_next_item_id p,
      m_saved_work_item = item, m_valid_saved_work_item = False\<rparr>" r]
  unfolding mq_cook_item_same by auto

definition sent_by :: "nat \<Rightarrow> mq_state \<Rightarrow> work_item list" where
  "sent_by k s = map snd (filter (\<lambda>(j, item). j = k) (mq_sent s))"

definition received_by :: "nat \<Rightarrow> mq_state \<Rightarrow> work_item list" where
  "received_by k s = map snd (filter (\<lambda>(j, item). j = k) (mq_received s))"

text \<open>
  The \<open>k\<close>-th producer has had \<open>m\<close> turns and used up as many ids; those of the items it sent are the ids of the turns \<open>js\<close>,
  which are in order.
\<close>

definition mq_producer_ok :: "nat \<Rightarrow> nat \<Rightarrow> mq_producer \<Rightarrow> work_item list \<Rightarrow> bool" where
  "mq_producer_ok k m p sent \<longleftrightarrow>
     mp_mqd p \<and> mp_produced_count p = of_nat (length sent) \<and> mp_next_item_id p = id_of k m \<and>
     (\<exists>js. sorted_wrt (<) js \<and> (\<forall>j \<in> set js. j < m) \<and> map item_id sent = map (id_of k) js)"

lemma new_mq_producer_ok: "mq_producer_ok k 0 (new_mq_producer True (of_nat k)) []"
  unfolding mq_producer_ok_def new_mq_producer_def
  by (auto simp: id_of_def)

lemma mq_producer_okE:
  assumes "mq_producer_ok k m p sent"
  obtains js where "mp_mqd p" "mp_produced_count p = of_nat (length sent)" "mp_next_item_id p = id_of k m"
    "sorted_wrt (<) js" "\<forall>j \<in> set js. j < m" "map item_id sent = map (id_of k) js"
  using assms unfolding mq_producer_ok_def by blast

lemma mq_producer_ok_drop:
  assumes "mq_producer_ok k m p sent"
  shows "mq_producer_ok k (Suc m) (p\<lparr>mp_next_item_id := mp_next_item_id p + 1\<rparr>) sent"
proof -
  from assms obtain js where p: "mp_mqd p" "mp_produced_count p = of_nat (length sent)"
    "mp_next_item_id p = id_of k m" "sorted_wrt (<) js" "\<forall>j \<in> set js. j < m"
    "map item_id sent = map (id_of k) js"
    by (elim mq_producer_okE) blast
  then have "\<forall>j \<in> set js. j < Suc m" by auto
  with p(1-4,6) show ?thesis
    unfolding mq_producer_ok_def by (simp add: id_of_Suc) blast
qed

lemma mq_producer_ok_send:
  assumes "mq_producer_ok k m p sent" and "item_id x = mp_next_item_id p"
  shows "mq_producer_ok k (Suc m) (p\<lparr>mp_next_item_id := mp_next_item_id p + 1,
      mp_produced_count := mp_produced_count p + 1\<rparr>) (sent @ [x])"
proof -
  from assms(1) obtain js where p: "mp_mqd p" "mp_produced_count p = of_nat (length sent)"
    "mp_next_item_id p = id_of k m" "sorted_wrt (<) js" "\<forall>j \<in> set js. j < m"
    "map item_id sent = map (id_of k) js"
    by (elim mq_producer_okE) blast
  let ?p = "p\<lparr>mp_next_item_id := mp_next_item_id p + 1, mp_produced_count := mp_produced_count p + 1\<rparr>"
  show ?thesis
    unfolding mq_producer_ok_def
  proof (intro conjI exI)
    show "mp_next_item_id ?p = id_of k (Suc m)" using p(3) by (simp add: id_of_Suc)
    show "sorted_wrt (<) (js @ [m])" using p(4,5) by (simp add: sorted_wrt_append)
    show "\<forall>j \<in> set (js @ [m]). j < Suc m" using p(5) by auto
    show "map item_id (sent @ [x]) = map (id_of k) (js @ [m])" using p(3,6) assms(2) by simp
  qed (use p(1,2) in simp_all)
qed

text \<open>As long as a producer's turns stay below the first id that wraps, its ids increase as numbers.\<close>

lemma ids_increase:
  assumes "sorted_wrt (<) js" and "\<forall>j \<in> set js. j < m" and "ITEM_STARTING_ID_EACH_PRODUCER * k + m \<le> 2 ^ 32"
  shows "sorted_wrt (<) (map (\<lambda>j. unat (id_of k j)) js)"
proof -
  have id: "unat (id_of k j) = ITEM_STARTING_ID_EACH_PRODUCER * k + j" if "j < m" for j
    unfolding id_of_def using that assms(3) by (simp only: unat_of_nat) (simp add: take_bit_nat_eq_self)
  have "map (\<lambda>j. unat (id_of k j)) js = map (\<lambda>j. ITEM_STARTING_ID_EACH_PRODUCER * k + j) js"
    using assms(2) id by simp
  moreover have "sorted_wrt (<) (map (\<lambda>j. ITEM_STARTING_ID_EACH_PRODUCER * k + j) js)"
    using assms(1) by (simp add: sorted_wrt_map)
  ultimately show ?thesis by (simp only:)
qed

definition mq_run_ok :: "nat \<Rightarrow> mq_turn list \<Rightarrow> mq_state \<Rightarrow> bool" where
  "mq_run_ok n ts s \<longleftrightarrow>
     length (mq_producers s) = n \<and> mq_wf (mq_q s) \<and> mq_maxmsg (mq_q s) = MQ_QUEUE_SIZE \<and>
     map snd (mq_sent s) = map snd (mq_received s) @ map item_of_bytes (mq_messages (mq_q s)) \<and>
     (\<forall>(k, item) \<in> set (mq_sent s). k < n) \<and>
     (\<forall>k < n. mq_producer_ok k (count_list ts (Send_turn k)) (mq_producers s ! k) (sent_by k s)) \<and>
     (\<forall>k < length (mq_consumers s). mc_mqd (mq_consumers s ! k) \<and>
        mc_consumed_count (mq_consumers s ! k) = of_nat (length (received_by k s)))"

lemma mq_start_ok: "mq_run_ok n [] (mq_start n c r)"
  by (simp add: mq_run_ok_def mq_start_def parent_queue_def mq_create_def mq_wf_def sent_by_def received_by_def
      new_mq_producer_ok new_mq_consumer_def)

text \<open>What the two system calls do on the programs' queue, from the contract of channels.\<close>

lemma send_outcome:
  assumes "mq_wf q" and "length m = ITEM_SIZE"
  shows "(\<exists>q'. mq_timedsend m q = (Inr (), q') \<and> mq_wf q' \<and> mq_maxmsg q' = mq_maxmsg q \<and>
            mq_messages q' = mq_messages q @ [m]) \<or>
         mq_timedsend m q = (Inl ETIMEDOUT, q)"
proof (cases "mq_timedsend m q")
  case (Pair a q1)
  from mq_channel.put_outcome [OF assms(1) _ assms(2), of 1] obtain b q' where
    b: "mq_put m q = Inr (b, q')" "mq_wf q'" "mq_maxmsg q' = mq_maxmsg q"
      "mq_messages q' = mq_messages q @ (if b then [m] else [])"
    by auto
  show ?thesis
  proof (cases a)
    case (Inr u)
    with Pair b show ?thesis by (auto simp: mq_put_def)
  next
    case (Inl e)
    with Pair assms show ?thesis by (auto simp: mq_timedsend_def mq_wf_def split: if_splits)
  qed
qed

lemma receive_outcome:
  assumes "mq_wf q"
  shows "(\<exists>m q'. mq_timedreceive (ITEM_SIZE + 1) q = (Inr m, q') \<and> mq_wf q' \<and> length m = ITEM_SIZE \<and>
            mq_maxmsg q' = mq_maxmsg q \<and> mq_messages q = m # mq_messages q') \<or>
         mq_timedreceive (ITEM_SIZE + 1) q = (Inl ETIMEDOUT, q)"
proof (cases "mq_messages q")
  case Nil
  with assms show ?thesis by (simp add: mq_timedreceive_def mq_wf_def)
next
  case (Cons m ms)
  from mq_channel.get_some [OF assms Cons, of 0] obtain q' where
    "mq_get (ITEM_SIZE + 1) q = Inr (Some m, q')" "mq_wf q'" "mq_messages q' = ms" "mq_maxmsg q' = mq_maxmsg q"
    by blast
  with Cons assms show ?thesis
    by (auto simp: mq_get_def mq_wf_def split: prod.splits sum.splits)
qed

lemma mq_take_turn_ok:
  assumes ok: "mq_run_ok n ts s" and junk: "wf_item junk"
  shows "\<exists>s'. mq_take_turn junk t s = Inr s' \<and> mq_run_ok n (ts @ [t]) s' \<and> length (mq_consumers s') = length (mq_consumers s)"
proof (cases t)
  case (Send_turn k)
  show ?thesis
  proof (cases "k < length (mq_producers s)")
    case True
    let ?p = "mq_producers s ! k"
    from ok True have p: "mq_producer_ok k (count_list ts (Send_turn k)) ?p (sent_by k s)" and q: "mq_wf (mq_q s)"
      by (simp_all add: mq_run_ok_def)
    then have opened: "mp_mqd ?p" by (simp add: mq_producer_ok_def)
    from mq_cook_item_spec [OF junk, of ?p "mq_draws s"] obtain x r where
      x: "mq_cook_item ?p (mq_draws s) junk = Inr (x, ?p\<lparr>mp_next_item_id := mp_next_item_id ?p + 1\<rparr>, r)"
        "item_id x = mp_next_item_id ?p" "wf_item x"
      by blast
    have len: "length (item_bytes x) = ITEM_SIZE" using x(3) by (rule item_codec.enc_length)
    from send_outcome [OF q len] show ?thesis
    proof (elim disjE exE conjE)
      fix q' assume q': "mq_timedsend (item_bytes x) (mq_q s) = (Inr (), q')" "mq_wf q'"
        "mq_maxmsg q' = mq_maxmsg (mq_q s)" "mq_messages q' = mq_messages (mq_q s) @ [item_bytes x]"
      from item_codec.dec_enc [OF x(3)] mq_producer_ok_send [OF p x(2)] ok True opened x(1) q'
      show ?thesis
        by (auto simp: mq_take_turn_def Send_turn mq_producer_work_def mq_run_ok_def sent_by_def received_by_def nth_list_update)
    next
      assume "mq_timedsend (item_bytes x) (mq_q s) = (Inl ETIMEDOUT, mq_q s)"
      with mq_producer_ok_drop [OF p] ok True opened x(1) show ?thesis
        by (auto simp: mq_take_turn_def Send_turn mq_producer_work_def mq_run_ok_def sent_by_def received_by_def nth_list_update)
    qed
  next
    case False
    with ok show ?thesis by (auto simp: mq_take_turn_def Send_turn mq_run_ok_def)
  qed
next
  case (Receive_turn k)
  from ok have q: "mq_wf (mq_q s)" by (simp add: mq_run_ok_def)
  have jl: "length (item_bytes junk) = ITEM_SIZE" using junk by (rule item_codec.enc_length)
  have wr: "mem_write (item_bytes junk) 0 m = Inr m" if "length m = ITEM_SIZE" for m
    using that jl by (simp add: mem_write_def)
  from receive_outcome [OF q] show ?thesis
  proof (elim disjE exE conjE)
    fix m q' assume "mq_timedreceive (ITEM_SIZE + 1) (mq_q s) = (Inr m, q')" "mq_wf q'" "length m = ITEM_SIZE"
      "mq_maxmsg q' = mq_maxmsg (mq_q s)" "mq_messages (mq_q s) = m # mq_messages q'"
    with ok wr show ?thesis
      by (auto simp: mq_take_turn_def Receive_turn mq_consumer_work_def mq_run_ok_def sent_by_def received_by_def
          ITEM_SIZE_def nth_list_update)
  next
    assume "mq_timedreceive (ITEM_SIZE + 1) (mq_q s) = (Inl ETIMEDOUT, mq_q s)"
    with ok show ?thesis
      by (auto simp: mq_take_turn_def Receive_turn mq_consumer_work_def mq_run_ok_def sent_by_def received_by_def nth_list_update)
  qed
qed

lemma mq_take_turns_ok:
  "mq_run_ok n us s \<Longrightarrow> wf_item junk \<Longrightarrow>
   \<exists>s'. mq_take_turns junk ts s = Inr s' \<and> mq_run_ok n (us @ ts) s' \<and> length (mq_consumers s') = length (mq_consumers s)"
proof (induction ts arbitrary: us s)
  case (Cons t ts)
  from mq_take_turn_ok [OF Cons.prems] obtain s1 where "mq_take_turn junk t s = Inr s1" "mq_run_ok n (us @ [t]) s1"
    "length (mq_consumers s1) = length (mq_consumers s)" by blast
  with Cons.IH [OF this(2) Cons.prems(2)] show ?case by auto
qed simp

section \<open>Properties\<close>

text \<open>
  C18: Any number of producers and consumers that take turns on the parent's message queue: no turn
  faults, the items received followed by those still queued are exactly the items sent, in
  order, at most ten are queued, every producer counts the items it sent and every consumer those it received. Each turn of a producer
  uses up one id, counted from 300000 times its own: the items it sent have the ids of some of its turns, in
  the order of the turns (a send that times out drops its item), and these increase as long as
  32 bits hold the ids of its turns.
\<close>

theorem mq_delivers_in_order:
  assumes "wf_item junk"
  shows "\<exists>s. mq_take_turns junk ts (mq_start n c r) = Inr s \<and>
    map snd (mq_sent s) = map snd (mq_received s) @ map item_of_bytes (mq_messages (mq_q s)) \<and>
    length (mq_messages (mq_q s)) \<le> 10 \<and>
    (\<forall>k < c. mc_consumed_count (mq_consumers s ! k) = of_nat (length (received_by k s))) \<and>
    (\<forall>k < n. mp_produced_count (mq_producers s ! k) = of_nat (length (sent_by k s)) \<and>
       mp_next_item_id (mq_producers s ! k) = id_of k (count_list ts (Send_turn k)) \<and>
       (\<exists>js. sorted_wrt (<) js \<and> (\<forall>j \<in> set js. j < count_list ts (Send_turn k)) \<and>
          map item_id (sent_by k s) = map (id_of k) js) \<and>
       (300000 * k + count_list ts (Send_turn k) \<le> 2 ^ 32 \<longrightarrow>
          sorted_wrt (<) (map (\<lambda>x. unat (item_id x)) (sent_by k s))))"
proof -
  from mq_take_turns_ok [OF mq_start_ok assms, of ts n c r] obtain s where
    s: "mq_take_turns junk ts (mq_start n c r) = Inr s" "mq_run_ok n ts s" "length (mq_consumers s) = c"
    by (auto simp: mq_start_def)
  have "mp_produced_count (mq_producers s ! k) = of_nat (length (sent_by k s)) \<and>
      mp_next_item_id (mq_producers s ! k) = id_of k (count_list ts (Send_turn k)) \<and>
      (\<exists>js. sorted_wrt (<) js \<and> (\<forall>j \<in> set js. j < count_list ts (Send_turn k)) \<and>
        map item_id (sent_by k s) = map (id_of k) js) \<and>
      (300000 * k + count_list ts (Send_turn k) \<le> 2 ^ 32 \<longrightarrow>
        sorted_wrt (<) (map (\<lambda>x. unat (item_id x)) (sent_by k s)))" if "k < n" for k
  proof -
    from s(2) that have "mq_producer_ok k (count_list ts (Send_turn k)) (mq_producers s ! k) (sent_by k s)"
      by (simp add: mq_run_ok_def)
    then obtain js where js: "mp_produced_count (mq_producers s ! k) = of_nat (length (sent_by k s))"
      "mp_next_item_id (mq_producers s ! k) = id_of k (count_list ts (Send_turn k))"
      "sorted_wrt (<) js" "\<forall>j \<in> set js. j < count_list ts (Send_turn k)"
      "map item_id (sent_by k s) = map (id_of k) js"
      by (elim mq_producer_okE) blast
    have "map (\<lambda>x. unat (item_id x)) (sent_by k s) = map unat (map item_id (sent_by k s))" by simp
    also have "\<dots> = map (\<lambda>j. unat (id_of k j)) js" unfolding js(5) by simp
    finally show ?thesis
      using js ids_increase [OF js(3,4), of k] by (auto simp: ITEM_STARTING_ID_EACH_PRODUCER_def)
  qed
  with s show ?thesis by (auto simp: mq_run_ok_def mq_wf_def MQ_QUEUE_SIZE_def)
qed

theorem mq_delivers_in_order_witness:
  "\<exists>s. mq_take_turns blank_item [Send_turn 0, Send_turn 1, Receive_turn 0] (mq_start 2 1 (\<lambda>i. i)) = Inr s \<and>
     map snd (mq_sent s) = map snd (mq_received s) @ map item_of_bytes (mq_messages (mq_q s)) \<and>
     mp_next_item_id (mq_producers s ! 1) = 300001"
  using mq_delivers_in_order [OF wf_blank_item, of "[Send_turn 0, Send_turn 1, Receive_turn 0]" 2 1 "\<lambda>i. i"]
  by (auto simp: id_of_def ITEM_STARTING_ID_EACH_PRODUCER_def)

text \<open>
  The consumer's buffer: on a queue whose messages may have up to 517 bytes, which an existing
  queue opened by \<^verbatim>\<open>mq_open\<close> may allow, \<^verbatim>\<open>work\<close> overruns its item exactly when the first
  message is longer than the 516 bytes of an item.
\<close>

lemma mq_consumer_overrun_iff:
  assumes "mc_mqd c" and "mq_msgsize q \<le> 517" and "length junk = 516"
  shows "mq_consumer_work junk c q = Inl Out_of_bounds \<longleftrightarrow>
    (\<exists>m ms. mq_messages q = m # ms \<and> 516 < length m)"
  using assms
  by (cases "mq_messages q") (auto simp: mq_consumer_work_def mq_timedreceive_def ITEM_SIZE_def mem_write_def)

theorem mq_consumer_overrun_iff_witness:
  "mq_consumer_work (replicate 516 0) (new_mq_consumer True 0)
     (parent_queue (Some \<lparr>mq_maxmsg = 10, mq_msgsize = 517, mq_messages = [replicate 517 1]\<rparr>))
   = Inl Out_of_bounds"
  using mq_consumer_overrun_iff [of "new_mq_consumer True 0"
      "parent_queue (Some \<lparr>mq_maxmsg = 10, mq_msgsize = 517, mq_messages = [replicate 517 1]\<rparr>)"
      "replicate 516 0"]
  by (simp add: new_mq_consumer_def parent_queue_def mq_create_def)

end
