(* ===== verification/Mq_Life.thy ===== *)
theory Mq_Life
  imports Sched_Object
begin

text \<open>
  The life of a producer or consumer over the message queue: its object as in \<open>Sched_Object\<close>, with the
  descriptor \<^verbatim>\<open>m_mqd\<close> and the counter that the derived constructor sets, the derived destructor closes and reports,
  and the thread's \<^verbatim>\<open>work\<close> uses. The two classes do the same in the same order; what distinguishes their
  calls (\<^verbatim>\<open>mq_timedsend\<close>, \<^verbatim>\<open>mq_timedreceive\<close>) is which results they count.
\<close>

section \<open>The object\<close>

text \<open>The descriptor: not yet set, -1, open, or the number of a closed one.\<close>

datatype mqd = Mqd_unset | Mqd_invalid | Mqd_open | Mqd_closed

text \<open>How far the derived constructor and the derived destructor have come.\<close>

datatype derived_part = Raw | Mqd_reset | Mqd_set | Built | Mqd_shut | Told

text \<open>Where the thread is inside the derived \<^verbatim>\<open>work\<close>.\<close>

datatype work_pc = Outside | Test_mqd | Enter_call | In_call | Add_count

text \<open>
  \<open>moved\<close> counts the messages that went through, \<open>closed_calls\<close> the calls that were made on a
  closed descriptor; \<open>told\<close> is the number the destructor printed.
\<close>

record mq_worker =
  base :: life
  part :: derived_part
  mqd_of :: mqd
  counter :: "32 word option"
  at :: work_pc
  moved :: nat
  closed_calls :: nat
  told :: "32 word option"

definition mq_unborn :: mq_worker where
  "mq_unborn =
     \<lparr>base = unborn, part = Raw, mqd_of = Mqd_unset, counter = None, at = Outside, moved = 0, closed_calls = 0,
      told = None\<rparr>"

text \<open>The results of the call that are counted: 0 of a send, the length of a message received.\<close>

definition producer_counts :: "int \<Rightarrow> bool" where
  "producer_counts sentBytes \<longleftrightarrow> sentBytes = 0"

definition consumer_counts :: "int \<Rightarrow> bool" where
  "consumer_counts receivedBytes \<longleftrightarrow> receivedBytes > 0"

section \<open>The steps\<close>

definition base_owner :: "mq_worker \<Rightarrow> mq_worker option" where
  "base_owner s = map_option (\<lambda>b. s\<lparr>base := b\<rparr>) (owner_step (base s))"

text \<open>The owner's next step; \<open>ok\<close> tells whether \<^verbatim>\<open>mq_open\<close> succeeds.\<close>

definition mq_owner_step :: "bool \<Rightarrow> mq_worker \<Rightarrow> mq_worker option" where
  "mq_owner_step ok s =
     (case owner (base s) of
        Derived_begun \<Rightarrow>
          (case part s of
             Raw \<Rightarrow> Some (s\<lparr>part := Mqd_reset, mqd_of := Mqd_invalid\<rparr>)
           | Mqd_reset \<Rightarrow> Some (s\<lparr>part := Mqd_set, mqd_of := (if ok then Mqd_open else Mqd_invalid)\<rparr>)
           | _ \<Rightarrow> base_owner (s\<lparr>part := Built, counter := Some 0\<rparr>))
      | Alive \<Rightarrow>
          (case part s of
             Built \<Rightarrow> Some (s\<lparr>part := Mqd_shut, mqd_of := (if mqd_of s = Mqd_open then Mqd_closed else mqd_of s)\<rparr>)
           | Mqd_shut \<Rightarrow> Some (s\<lparr>part := Told, told := counter s\<rparr>)
           | _ \<Rightarrow> base_owner s)
      | _ \<Rightarrow> base_owner s)"

definition leave_work :: "mq_worker \<Rightarrow> mq_worker result option" where
  "leave_work s = map_option (\<lambda>b. Inr (s\<lparr>base := b, at := Outside\<rparr>)) (thread_step (base s))"

text \<open>
  The thread's next step; \<open>r\<close> is the result of the call when it returns. A call that has been entered
  keeps the queue it was made on, even if the descriptor is closed meanwhile.
\<close>

definition mq_thread_step :: "(int \<Rightarrow> bool) \<Rightarrow> int \<Rightarrow> mq_worker \<Rightarrow> mq_worker result option" where
  "mq_thread_step counts r s =
     (case at s of
        Test_mqd \<Rightarrow>
          (case mqd_of s of
             Mqd_unset \<Rightarrow> Some (Inl Uninitialised_read)
           | Mqd_invalid \<Rightarrow> leave_work s
           | _ \<Rightarrow> Some (Inr (s\<lparr>at := Enter_call\<rparr>)))
      | Enter_call \<Rightarrow>
          (case mqd_of s of
             Mqd_open \<Rightarrow> Some (Inr (s\<lparr>at := In_call\<rparr>))
           | Mqd_closed \<Rightarrow> leave_work (s\<lparr>closed_calls := closed_calls s + 1\<rparr>)
           | _ \<Rightarrow> leave_work s)
      | In_call \<Rightarrow> (if counts r then Some (Inr (s\<lparr>at := Add_count, moved := moved s + 1\<rparr>)) else leave_work s)
      | Add_count \<Rightarrow>
          (case counter s of
             None \<Rightarrow> Some (Inl Uninitialised_read)
           | Some c \<Rightarrow> leave_work (s\<lparr>counter := Some (c + 1)\<rparr>))
      | Outside \<Rightarrow>
          map_option (\<lambda>b. Inr (s\<lparr>base := b,
              at := (if thr (base s) = Call_work \<and> vptr (base s) = Derived_work then Test_mqd else Outside)\<rparr>))
            (thread_step (base s)))"

datatype mq_event = Owner_acts bool | Thread_acts int

fun mq_life_step :: "(int \<Rightarrow> bool) \<Rightarrow> mq_event \<Rightarrow> mq_worker \<Rightarrow> mq_worker result option" where
  "mq_life_step counts (Owner_acts ok) s = map_option Inr (mq_owner_step ok s)"
| "mq_life_step counts (Thread_acts r) s = mq_thread_step counts r s"

fun mq_life_run :: "(int \<Rightarrow> bool) \<Rightarrow> mq_event list \<Rightarrow> mq_worker \<Rightarrow> mq_worker result option" where
  "mq_life_run counts [] s = Some (Inr s)"
| "mq_life_run counts (e # es) s =
     (case mq_life_step counts e s of
        None \<Rightarrow> None
      | Some (Inl f) \<Rightarrow> Some (Inl f)
      | Some (Inr s') \<Rightarrow> mq_life_run counts es s')"

text \<open>
  Runs in which the thread's first sleep of two seconds outlasts the constructors.
\<close>

definition sleeps_until_built :: "mq_worker \<Rightarrow> bool" where
  "sleeps_until_built s \<longleftrightarrow>
     (owner (base s) \<in> {Unborn, Base_built, Derived_begun} \<longrightarrow> thr (base s) \<in> {No_thread, Set_scheduler, Sleeping})"

fun built_in_time :: "(int \<Rightarrow> bool) \<Rightarrow> mq_event list \<Rightarrow> mq_worker \<Rightarrow> bool" where
  "built_in_time counts [] s = True"
| "built_in_time counts (e # es) s =
     (case mq_life_step counts e s of
        Some (Inr s') \<Rightarrow> sleeps_until_built s' \<and> built_in_time counts es s'
      | _ \<Rightarrow> True)"

lemmas mq_step_defs = mq_owner_step_def base_owner_def mq_thread_step_def leave_work_def

lemma mq_life_run_append:
  "mq_life_run counts (es @ es') s =
     (case mq_life_run counts es s of
        None \<Rightarrow> None
      | Some (Inl f) \<Rightarrow> Some (Inl f)
      | Some (Inr s') \<Rightarrow> mq_life_run counts es' s')"
  by (induction es arbitrary: s) (simp_all split: option.split sum.split)

lemma built_in_time_append:
  "mq_life_run counts es s = Some (Inr s') \<Longrightarrow>
   built_in_time counts (es @ es') s \<longleftrightarrow> built_in_time counts es s \<and> built_in_time counts es' s'"
  by (induction es arbitrary: s) (auto split: option.splits sum.splits)

section \<open>The object is one of \<open>Sched_Object\<close>\<close>

text \<open>While the thread is inside the derived \<^verbatim>\<open>work\<close>, the base object's thread is in \<^verbatim>\<open>work\<close>.\<close>

definition in_step :: "mq_worker \<Rightarrow> bool" where
  "in_step s \<longleftrightarrow> (at s \<noteq> Outside \<longrightarrow> thr (base s) = In_work)"

lemma owner_keeps_thread: "owner_step b = Some b' \<Longrightarrow> thr b = In_work \<Longrightarrow> owner b \<noteq> Unborn \<Longrightarrow> thr b' = In_work"
  by (cases "owner b") (auto simp: owner_step_def split: if_splits)

lemma owner_simulated:
  assumes "mq_owner_step ok s = Some s'" and "in_step s" and "life_inv (base s)"
  shows "in_step s' \<and> (base s' = base s \<or> life_step (base s) Owner = Some (base s'))"
proof -
  have "owner (base s) \<noteq> Unborn" if "thr (base s) = In_work"
    using life_invD(3) [OF assms(3)] that by (auto simp: thread_ok_def)
  with assms(1,2) show ?thesis
    by (auto simp: mq_owner_step_def base_owner_def in_step_def split: owner_pc.splits derived_part.splits
        dest: owner_keeps_thread)
qed

lemma thread_simulated:
  assumes "mq_thread_step counts r s = Some (Inr s')" and "in_step s"
  shows "in_step s' \<and> (base s' = base s \<or> life_step (base s) Thread = Some (base s'))"
  using assms
  by (auto simp: mq_thread_step_def leave_work_def in_step_def thread_step_def
      split: work_pc.splits mqd.splits option.splits if_splits)

lemma mq_step_simulated:
  assumes "mq_life_step counts e s = Some (Inr s')" and "in_step s" and "life_inv (base s)"
  shows "in_step s'" and "base s' = base s \<or> (\<exists>e'. life_step (base s) e' = Some (base s'))"
  using assms by (cases e; auto dest: owner_simulated thread_simulated)+

lemma mq_run_simulated:
  "mq_life_run counts es s = Some (Inr s') \<Longrightarrow> in_step s \<Longrightarrow> life_inv (base s) \<Longrightarrow>
   in_step s' \<and> (\<exists>es'. life_run es' (base s) = Some (base s'))"
proof (induction es arbitrary: s)
  case Nil
  then show ?case by (auto intro: exI [of _ "[]"])
next
  case (Cons e es)
  then obtain s1 where s1: "mq_life_step counts e s = Some (Inr s1)" "mq_life_run counts es s1 = Some (Inr s')"
    by (auto split: option.splits sum.splits)
  note sim = mq_step_simulated [OF s1(1) Cons.prems(2,3)]
  obtain es0 where es0: "life_run es0 (base s) = Some (base s1)"
  proof (cases "base s1 = base s")
    case True
    then show ?thesis by (intro that [of "[]"]) simp
  next
    case False
    with sim(2) obtain e' where "life_step (base s) e' = Some (base s1)" by blast
    then show ?thesis by (intro that [of "[e']"]) simp
  qed
  from Cons.IH [OF s1(2) sim(1) life_run_inv [OF es0 Cons.prems(3)]] obtain es1 where
    "in_step s'" "life_run es1 (base s1) = Some (base s')" by blast
  with es0 show ?case by (intro conjI exI [of _ "es0 @ es1"]) (simp_all add: life_run_append)
qed

section \<open>What the destructor reports\<close>

definition part_ok :: "owner_pc \<Rightarrow> derived_part \<Rightarrow> bool" where
  "part_ok o1 p \<longleftrightarrow>
     (if o1 \<in> {Unborn, Base_built} then p = Raw
      else if o1 = Derived_begun then p \<in> {Raw, Mqd_reset, Mqd_set}
      else if o1 = Alive then p \<in> {Built, Mqd_shut, Told} else p = Told)"

definition mqd_ok :: "derived_part \<Rightarrow> mqd \<Rightarrow> bool" where
  "mqd_ok p m \<longleftrightarrow>
     (case p of
        Raw \<Rightarrow> m = Mqd_unset
      | Mqd_reset \<Rightarrow> m = Mqd_invalid
      | Mqd_set \<Rightarrow> m = Mqd_invalid \<or> m = Mqd_open
      | Built \<Rightarrow> m = Mqd_invalid \<or> m = Mqd_open
      | _ \<Rightarrow> m = Mqd_invalid \<or> m = Mqd_closed)"

text \<open>
  The counter lags by one while the thread is about to add; the number printed is the counter's, or one less if
  a call was under way.
\<close>

definition tally_ok :: "mq_worker \<Rightarrow> 32 word \<Rightarrow> bool" where
  "tally_ok s c \<longleftrightarrow>
     counter s = Some c \<and> of_nat (moved s) = c + (if at s = Add_count then 1 else 0) \<and>
     (case told s of
        None \<Rightarrow> part s \<noteq> Told
      | Some r \<Rightarrow> part s = Told \<and> (c = r \<or> c = r + 1 \<and> at s \<notin> {In_call, Add_count})) \<and>
     (mqd_of s = Mqd_invalid \<longrightarrow> moved s = 0 \<and> at s \<in> {Outside, Test_mqd}) \<and>
     (mqd_of s \<noteq> Mqd_closed \<longrightarrow> closed_calls s = 0)"

definition mq_inv :: "mq_worker \<Rightarrow> bool" where
  "mq_inv s \<longleftrightarrow>
     life_inv (base s) \<and> in_step s \<and> sleeps_until_built s \<and> part_ok (owner (base s)) (part s) \<and> mqd_ok (part s) (mqd_of s) \<and>
     (if part s \<in> {Raw, Mqd_reset, Mqd_set} then at s = Outside \<and> moved s = 0 \<and> told s = None \<and> closed_calls s = 0
      else \<exists>c. tally_ok s c)"

lemma mq_inv_unborn: "mq_inv mq_unborn"
  using life_inv_unborn
  by (simp add: mq_inv_def mq_unborn_def in_step_def sleeps_until_built_def part_ok_def mqd_ok_def unborn_def)

lemma mq_owner_cases:
  assumes "mq_owner_step ok s = Some s'"
  obtains (reset) "owner (base s) = Derived_begun" "part s = Raw" "s' = s\<lparr>part := Mqd_reset, mqd_of := Mqd_invalid\<rparr>"
  | (set) "owner (base s) = Derived_begun" "part s = Mqd_reset"
      "s' = s\<lparr>part := Mqd_set, mqd_of := (if ok then Mqd_open else Mqd_invalid)\<rparr>"
  | (built) b where "owner (base s) = Derived_begun" "part s \<noteq> Raw" "part s \<noteq> Mqd_reset" "owner_step (base s) = Some b"
      "s' = s\<lparr>part := Built, counter := Some 0, base := b\<rparr>"
  | (shut) "owner (base s) = Alive" "part s = Built"
      "s' = s\<lparr>part := Mqd_shut, mqd_of := (if mqd_of s = Mqd_open then Mqd_closed else mqd_of s)\<rparr>"
  | (told) "owner (base s) = Alive" "part s = Mqd_shut" "s' = s\<lparr>part := Told, told := counter s\<rparr>"
  | (plain) b where "owner (base s) \<noteq> Derived_begun" "owner (base s) = Alive \<Longrightarrow> part s \<notin> {Built, Mqd_shut}"
      "owner_step (base s) = Some b" "s' = s\<lparr>base := b\<rparr>"
proof (cases "owner (base s) = Derived_begun \<or> owner (base s) = Alive")
  case True
  then show ?thesis
  proof
    assume o: "owner (base s) = Derived_begun"
    note step = assms [unfolded mq_owner_step_def o owner_pc.case]
    show ?thesis
    proof (cases "part s = Raw \<or> part s = Mqd_reset")
      case True
      with step o show ?thesis by (elim disjE) (rule reset set, simp_all)+
    next
      case False
      with step have "base_owner (s\<lparr>part := Built, counter := Some 0\<rparr>) = Some s'"
        by (cases "part s") simp_all
      then obtain b where "owner_step (base s) = Some b" "s' = s\<lparr>part := Built, counter := Some 0, base := b\<rparr>"
        by (auto simp: base_owner_def)
      with o False show ?thesis by (intro built) simp_all
    qed
  next
    assume o: "owner (base s) = Alive"
    note step = assms [unfolded mq_owner_step_def o owner_pc.case]
    show ?thesis
    proof (cases "part s = Built \<or> part s = Mqd_shut")
      case True
      with step o show ?thesis by (elim disjE) (rule shut told, simp_all)+
    next
      case False
      with step have "base_owner s = Some s'" by (cases "part s") simp_all
      then obtain b where "owner_step (base s) = Some b" "s' = s\<lparr>base := b\<rparr>"
        by (auto simp: base_owner_def)
      with o False show ?thesis by (intro plain) simp_all
    qed
  qed
next
  case False
  with assms have "base_owner s = Some s'" by (cases "owner (base s)") (simp_all add: mq_owner_step_def)
  then obtain b where "owner_step (base s) = Some b" "s' = s\<lparr>base := b\<rparr>"
    by (auto simp: base_owner_def)
  with False show ?thesis by (intro plain) simp_all
qed

definition raw :: "derived_part \<Rightarrow> bool" where
  "raw p \<longleftrightarrow> p \<in> {Raw, Mqd_reset, Mqd_set}"

lemma mq_invD:
  assumes "mq_inv s"
  shows "life_inv (base s)" "in_step s" "sleeps_until_built s" "part_ok (owner (base s)) (part s)"
    "mqd_ok (part s) (mqd_of s)" "raw (part s) \<Longrightarrow> at s = Outside \<and> moved s = 0 \<and> told s = None \<and> closed_calls s = 0"
    "\<not> raw (part s) \<Longrightarrow> \<exists>c. tally_ok s c" "at s \<noteq> Outside \<Longrightarrow> \<not> raw (part s)"
  using assms by (auto simp: mq_inv_def raw_def split: if_splits)

lemma mq_invI:
  assumes "life_inv (base s)" "in_step s" "sleeps_until_built s" "part_ok (owner (base s)) (part s)" "mqd_ok (part s) (mqd_of s)"
    and "raw (part s) \<Longrightarrow> at s = Outside \<and> moved s = 0 \<and> told s = None \<and> closed_calls s = 0"
    and "\<not> raw (part s) \<Longrightarrow> \<exists>c. tally_ok s c"
  shows "mq_inv s"
  using assms by (auto simp: mq_inv_def raw_def)

lemmas raw_simps [simp] =
  raw_def [of Raw, simplified] raw_def [of Mqd_reset, simplified] raw_def [of Mqd_set, simplified]
  raw_def [of Built, simplified] raw_def [of Mqd_shut, simplified] raw_def [of Told, simplified]

lemma part_ok_simps [simp]:
  "part_ok Unborn p \<longleftrightarrow> p = Raw" "part_ok Base_built p \<longleftrightarrow> p = Raw"
  "part_ok Derived_begun p \<longleftrightarrow> p = Raw \<or> p = Mqd_reset \<or> p = Mqd_set"
  "part_ok Alive p \<longleftrightarrow> p = Built \<or> p = Mqd_shut \<or> p = Told" "part_ok Derived_gone p \<longleftrightarrow> p = Told"
  "part_ok Stopping p \<longleftrightarrow> p = Told" "part_ok Joined p \<longleftrightarrow> p = Told" "part_ok Destroyed p \<longleftrightarrow> p = Told"
  by (simp_all add: part_ok_def)

lemma mq_owner_inv:
  assumes "mq_owner_step ok s = Some s'" and inv: "mq_inv s" and "sleeps_until_built s'"
  shows "mq_inv s'"
proof -
  note I = mq_invD [OF inv] and sim = owner_simulated [OF assms(1) mq_invD(2,1) [OF inv]]
  have life: "life_inv (base s')" using sim I(1) life_run_inv [of "[Owner]" "base s" "base s'"] by auto
  show ?thesis
  proof (rule mq_invI [OF life _ assms(3)])
    show "in_step s'" using sim by blast
    from assms(1) show "part_ok (owner (base s')) (part s')"
      by (cases rule: mq_owner_cases; cases "owner (base s)") (use I(4) in \<open>auto dest!: owner_step_next\<close>)
    from assms(1) show "mqd_ok (part s') (mqd_of s')"
      by (cases rule: mq_owner_cases) (use I(4,5) in \<open>auto simp: mqd_ok_def split: derived_part.splits\<close>)
    from assms(1) show "at s' = Outside \<and> moved s' = 0 \<and> told s' = None \<and> closed_calls s' = 0" if "raw (part s')"
      by (cases rule: mq_owner_cases) (use I(6) that in auto)
    from assms(1) show "\<exists>c. tally_ok s' c" if "\<not> raw (part s')"
    proof (cases rule: mq_owner_cases)
      case (built b)
      with I(4,6) show ?thesis by (auto simp: tally_ok_def)
    next
      case shut
      with I(7) obtain c where "tally_ok s c" by auto
      with shut I(5) show ?thesis by (intro exI [of _ c]) (auto simp: tally_ok_def mqd_ok_def split: option.splits)
    next
      case told
      with I(7) obtain c where "tally_ok s c" by auto
      with told I(5) show ?thesis by (intro exI [of _ c]) (auto simp: tally_ok_def split: option.splits)
    next
      case (plain b)
      with that I(7) obtain c where "tally_ok s c" by auto
      with plain(4) show ?thesis by (intro exI [of _ c]) (auto simp: tally_ok_def split: option.splits)
    qed (use that in simp_all)
  qed
qed

lemma mq_thread_cases:
  assumes "mq_thread_step counts r s = Some (Inr s')"
  obtains (test) "at s = Test_mqd" "mqd_of s \<noteq> Mqd_invalid" "s' = s\<lparr>at := Enter_call\<rparr>"
  | (enter) "at s = Enter_call" "mqd_of s = Mqd_open" "s' = s\<lparr>at := In_call\<rparr>"
  | (refused) b where "at s = Enter_call" "mqd_of s = Mqd_closed"
      "s' = s\<lparr>closed_calls := closed_calls s + 1, base := b, at := Outside\<rparr>"
  | (success) "at s = In_call" "s' = s\<lparr>at := Add_count, moved := moved s + 1\<rparr>"
  | (add) b c where "at s = Add_count" "counter s = Some c" "s' = s\<lparr>counter := Some (c + 1), base := b, at := Outside\<rparr>"
  | (leave) b where "at s = Test_mqd \<or> at s = Enter_call \<or> at s = In_call" "s' = s\<lparr>base := b, at := Outside\<rparr>"
  | (begin_work) b where "at s = Outside" "thr (base s) = Call_work" "vptr (base s) = Derived_work"
      "s' = s\<lparr>base := b, at := Test_mqd\<rparr>"
  | (other) b where "at s = Outside" "s' = s\<lparr>base := b, at := Outside\<rparr>"
  using assms
proof (cases "at s")
  case Outside
  with assms obtain b where "s' = s\<lparr>base := b,
      at := (if thr (base s) = Call_work \<and> vptr (base s) = Derived_work then Test_mqd else Outside)\<rparr>"
    by (auto simp: mq_thread_step_def)
  with Outside begin_work other show ?thesis by (cases "thr (base s) = Call_work \<and> vptr (base s) = Derived_work") auto
next
  case Test_mqd
  with assms show ?thesis
    by (cases "mqd_of s") (auto simp: mq_thread_step_def leave_work_def intro: test leave)
next
  case Enter_call
  with assms show ?thesis
    by (cases "mqd_of s") (auto simp: mq_thread_step_def leave_work_def intro: enter refused leave)
next
  case In_call
  with assms show ?thesis
    by (cases "counts r") (auto simp: mq_thread_step_def leave_work_def intro: success leave)
next
  case Add_count
  with assms show ?thesis
    by (cases "counter s") (auto simp: mq_thread_step_def leave_work_def intro: add)
qed

lemma mq_thread_keeps:
  assumes "mq_thread_step counts r s = Some (Inr s')"
  shows "part s' = part s" "mqd_of s' = mqd_of s"
  using assms by (cases rule: mq_thread_cases; simp)+

lemma mq_thread_tally:
  assumes "mq_thread_step counts r s = Some (Inr s')" and "tally_ok s c" and "mqd_ok (part s) (mqd_of s)"
  shows "\<exists>c'. tally_ok s' c'"
  using assms(1)
proof (cases rule: mq_thread_cases)
  case (add b c')
  with assms(2) show ?thesis
    by (intro exI [of _ "c + 1"]) (auto simp: tally_ok_def split: option.splits)
qed (use assms(2,3) in \<open>intro exI [of _ c], auto simp: tally_ok_def mqd_ok_def split: option.splits\<close>)

lemma mq_thread_inv:
  assumes "mq_thread_step counts r s = Some (Inr s')" and inv: "mq_inv s" and "sleeps_until_built s'"
  shows "mq_inv s'"
proof -
  note I = mq_invD [OF inv] and sim = thread_simulated [OF assms(1) mq_invD(2) [OF inv]]
  note keeps = mq_thread_keeps [OF assms(1)]
  have life: "life_inv (base s')" using sim I(1) life_run_inv [of "[Thread]" "base s" "base s'"] by auto
  have owner: "owner (base s') = owner (base s)" using sim by (auto dest: thread_step_owner)
  show ?thesis
  proof (rule mq_invI [OF life _ assms(3)])
    show "part_ok (owner (base s')) (part s')" "mqd_ok (part s') (mqd_of s')"
      using I(4,5) by (simp_all add: owner keeps)
    show "at s' = Outside \<and> moved s' = 0 \<and> told s' = None \<and> closed_calls s' = 0" if "raw (part s')"
    proof -
      have r: "raw (part s)" using that keeps(1) by simp
      have "thr (base s) \<noteq> Call_work \<or> vptr (base s) \<noteq> Derived_work"
        using r I(3,4) life_invD(2) [OF I(1)] by (cases "owner (base s)") (auto simp: reached_def sleeps_until_built_def)
      with assms(1) I(6) [OF r] show ?thesis by (cases rule: mq_thread_cases) simp_all
    qed
    show "\<exists>c. tally_ok s' c" if "\<not> raw (part s')"
      using I(5,7) that keeps(1) mq_thread_tally [OF assms(1)] by auto
  qed (use sim in blast)
qed

text \<open>No step of the thread reads what was not set.\<close>

lemma mq_thread_fault:
  "mq_thread_step counts r s = Some (Inl f) \<Longrightarrow> at s = Test_mqd \<and> mqd_of s = Mqd_unset \<or> at s = Add_count \<and> counter s = None"
  by (cases "at s"; cases "mqd_of s") (auto simp: mq_thread_step_def leave_work_def split: option.splits if_splits)

lemma mq_step_no_fault:
  assumes "mq_inv s"
  shows "mq_life_step counts e s \<noteq> Some (Inl f)"
proof (cases e)
  case (Thread_acts r)
  have "mqd_of s \<noteq> Mqd_unset \<and> counter s \<noteq> None" if "at s \<noteq> Outside"
    using mq_invD(5,7,8) [OF assms] that by (cases "part s") (auto simp: mqd_ok_def tally_ok_def)
  with Thread_acts show ?thesis by (auto dest: mq_thread_fault)
qed simp

lemma mq_run_inv:
  "mq_life_run counts es s = Some res \<Longrightarrow> built_in_time counts es s \<Longrightarrow> mq_inv s \<Longrightarrow> \<exists>s'. res = Inr s' \<and> mq_inv s'"
proof (induction es arbitrary: s)
  case (Cons e es)
  then obtain r1 where r1: "mq_life_step counts e s = Some r1" by (auto split: option.splits)
  with mq_step_no_fault [OF Cons.prems(3)] obtain s1 where s1: "mq_life_step counts e s = Some (Inr s1)"
    by (cases r1) auto
  with Cons.prems(2) have t: "sleeps_until_built s1" "built_in_time counts es s1" by simp_all
  have "mq_inv s1"
    using s1 Cons.prems(3) t(1) by (cases e) (auto intro: mq_owner_inv mq_thread_inv)
  with s1 t(2) Cons.prems(1) show ?case by (intro Cons.IH) simp_all
qed auto

section \<open>The destructor waits for the thread\<close>

text \<open>The steps that the thread needs at most to leave \<^verbatim>\<open>run\<close> when \<^verbatim>\<open>m_run\<close> is false.\<close>

fun thread_to_go :: "work_pc \<Rightarrow> thread_pc \<Rightarrow> nat" where
  "thread_to_go Test_mqd t = 5"
| "thread_to_go Enter_call t = 4"
| "thread_to_go In_call t = 3"
| "thread_to_go Add_count t = 2"
| "thread_to_go Outside t =
     (case t of Set_scheduler \<Rightarrow> 3 | Sleeping \<Rightarrow> 2 | Test_run \<Rightarrow> 1 | Call_work \<Rightarrow> 3 | In_work \<Rightarrow> 2 | _ \<Rightarrow> 0)"

abbreviation to_go :: "mq_worker \<Rightarrow> nat" where
  "to_go s \<equiv> thread_to_go (at s) (thr (base s))"

lemma stopping_facts:
  assumes "mq_inv s" and "owner (base s) = Stopping"
  shows "\<not> m_run (base s)" "vptr (base s) = Base_work" "thr (base s) \<noteq> No_thread" "mqd_of s \<noteq> Mqd_unset" "counter s \<noteq> None"
    "at s \<noteq> Outside \<Longrightarrow> thr (base s) = In_work" "to_go s = 0 \<longleftrightarrow> thr (base s) = Exited" "to_go s \<le> 5"
proof -
  note I = mq_invD [OF assms(1)] and L = life_invD [OF mq_invD(1) [OF assms(1)]]
  show b: "\<not> m_run (base s)" "vptr (base s) = Base_work" "thr (base s) \<noteq> No_thread"
    using L(1-3) assms(2) by (auto simp: progress_defs)
  have "part s = Told" using I(4) assms(2) by simp
  then show "mqd_of s \<noteq> Mqd_unset" "counter s \<noteq> None" using I(5,7) by (auto simp: mqd_ok_def tally_ok_def)
  show w: "at s \<noteq> Outside \<Longrightarrow> thr (base s) = In_work" using I(2) by (simp add: in_step_def)
  show "to_go s = 0 \<longleftrightarrow> thr (base s) = Exited" "to_go s \<le> 5"
    using w b(3) by (cases "at s"; cases "thr (base s)"; simp)+
qed

lemma stopping_step:
  assumes "mq_inv s" and "owner (base s) = Stopping" and "0 < to_go s"
  shows "\<exists>s'. mq_thread_step counts r s = Some (Inr s') \<and> to_go s' < to_go s \<and> owner (base s') = Stopping"
proof (cases "at s = Outside")
  case True
  then show ?thesis
    using stopping_facts [OF assms(1,2)] assms(2,3)
    by (cases "thr (base s)") (auto simp: mq_thread_step_def thread_step_def)
next
  case False
  with stopping_facts(6) [OF assms(1,2)] have "thread_step (base s) = Some ((base s)\<lparr>thr := Test_run\<rparr>)"
    by (simp add: thread_step_def)
  with False stopping_facts(4,5) [OF assms(1,2)] assms(2) show ?thesis
    by (cases "at s"; cases "mqd_of s") (auto simp: mq_thread_step_def leave_work_def)
qed

lemma stopping_run:
  "mq_inv s \<Longrightarrow> owner (base s) = Stopping \<Longrightarrow> to_go s \<le> length rs \<Longrightarrow>
   \<exists>n \<le> to_go s. \<exists>s'. mq_life_run counts (map Thread_acts (take n rs)) s = Some (Inr s') \<and> thr (base s') = Exited \<and>
     owner (base s') = Stopping"
proof (induction rs arbitrary: s)
  case Nil
  then show ?case using stopping_facts(7) by auto
next
  case (Cons r rs)
  show ?case
  proof (cases "to_go s = 0")
    case True
    with stopping_facts(7) [OF Cons.prems(1,2)] Cons.prems(2) show ?thesis by (intro exI [of _ 0]) simp
  next
    case False
    then obtain s1 where s1: "mq_thread_step counts r s = Some (Inr s1)" "to_go s1 < to_go s" "owner (base s1) = Stopping"
      using stopping_step [OF Cons.prems(1,2)] by blast
    from s1(3) have "sleeps_until_built s1" by (simp add: sleeps_until_built_def)
    with s1 Cons.prems have "mq_inv s1" "to_go s1 \<le> length rs" by (simp_all add: mq_thread_inv)
    with Cons.IH s1(3) obtain n s' where "n \<le> to_go s1" "mq_life_run counts (map Thread_acts (take n rs)) s1 = Some (Inr s')"
      "thr (base s') = Exited" "owner (base s') = Stopping" by blast
    with s1 show ?thesis by (intro exI [of _ "Suc n"]) simp
  qed
qed

section \<open>Properties\<close>

text \<open>
  A producer or consumer over the message queue is a scheduled object: every run of it, whatever the
  system calls return and however long its constructors take, is a run of the object of \<open>Sched_Object\<close>, with the
  derived \<^verbatim>\<open>work\<close> inside that object's calls. So it is released only after its thread has ended.
\<close>

lemma mq_worker_refines_object:
  assumes "mq_life_run counts es mq_unborn = Some (Inr s)"
  shows "(\<exists>es'. life_run es' unborn = Some (base s)) \<and> (at s \<noteq> Outside \<longrightarrow> thr (base s) = In_work) \<and>
    (owner (base s) = Destroyed \<longrightarrow> at s = Outside \<and> (\<forall>r. mq_thread_step counts r s = None))"
proof -
  have "in_step mq_unborn" "life_inv (base mq_unborn)" "base mq_unborn = unborn"
    using life_inv_unborn by (simp_all add: in_step_def mq_unborn_def)
  with mq_run_simulated [OF assms] have sim: "in_step s" "\<exists>es'. life_run es' unborn = Some (base s)" by auto
  then have "thr (base s) = Exited" if "owner (base s) = Destroyed"
    using unborn_run_inv life_invD(3) that by (fastforce simp: thread_ok_def)
  with sim show ?thesis by (auto simp: in_step_def mq_thread_step_def thread_step_def)
qed

text \<open>
  C28: The number that the destructor prints. If the constructors take less than the thread's first sleep (\<open>built_in_time\<close>), no
  step reads what was not set, and the number printed is the number of messages
  that went through, or one less; it is printed before the object is gone, and without an open queue no message goes through.
\<close>

theorem mq_report_at_most_one_short:
  assumes "mq_life_run counts es mq_unborn = Some res" and "built_in_time counts es mq_unborn"
  shows "\<exists>s. res = Inr s \<and>
    (\<forall>c. told s = Some c \<longrightarrow> of_nat (moved s) = c \<or> of_nat (moved s) = c + 1) \<and>
    (owner (base s) \<in> {Derived_gone, Stopping, Joined, Destroyed} \<longrightarrow> told s \<noteq> None) \<and>
    (mqd_of s = Mqd_invalid \<longrightarrow> moved s = 0)"
proof -
  obtain s where s: "res = Inr s" "mq_inv s" using mq_run_inv [OF assms mq_inv_unborn] by blast
  note I = mq_invD [OF s(2)]
  have "(\<forall>c. told s = Some c \<longrightarrow> of_nat (moved s) = c \<or> of_nat (moved s) = c + 1) \<and>
      (part s = Told \<longrightarrow> told s \<noteq> None) \<and> (mqd_of s = Mqd_invalid \<longrightarrow> moved s = 0)"
  proof (cases "raw (part s)")
    case True
    with I(6) show ?thesis by auto
  next
    case False
    with I(7) show ?thesis by (auto simp: tally_ok_def split: option.splits)
  qed
  moreover have "part s = Told" if "owner (base s) \<in> {Derived_gone, Stopping, Joined, Destroyed}"
    using I(4) that by auto
  ultimately show ?thesis using s(1) by blast
qed

text \<open>
  The destructor of a producer or consumer over the message queue returns: once it waits for the thread, at
  most five steps of that end it, whatever its calls return.
\<close>

lemma mq_destructor_returns:
  assumes "mq_life_run counts es mq_unborn = Some (Inr s)" and "built_in_time counts es mq_unborn"
    and "owner (base s) = Stopping" and "5 \<le> length rs"
  shows "\<exists>n \<le> 5. \<exists>s'. mq_life_run counts (map Thread_acts (take n rs) @ [Owner_acts ok, Owner_acts ok']) s = Some (Inr s') \<and>
    owner (base s') = Destroyed"
proof -
  have inv: "mq_inv s" using mq_run_inv [OF assms(1,2) mq_inv_unborn] by auto
  note go = stopping_facts(8) [OF inv assms(3)]
  with stopping_run [OF inv assms(3), of rs counts] assms(4) obtain n t where
    "n \<le> to_go s" "mq_life_run counts (map Thread_acts (take n rs)) s = Some (Inr t)" "thr (base t) = Exited"
    "owner (base t) = Stopping" by auto
  then show ?thesis
    using go by (intro exI [of _ n]) (simp add: mq_life_run_append mq_owner_step_def base_owner_def owner_step_def)
qed

text \<open>A run with one message, in which the destructor begins while the call is under way.\<close>

definition overtaken :: "mq_event list" where
  "overtaken = [Owner_acts True, Thread_acts 0, Owner_acts True, Owner_acts True, Owner_acts True, Owner_acts True] @
     replicate 5 (Thread_acts 0) @ [Owner_acts True, Owner_acts True, Thread_acts 0, Thread_acts 0]"

definition after_overtaken :: mq_worker where
  "after_overtaken =
     \<lparr>base = \<lparr>owner = Alive, thr = Test_run, m_run = True, vptr = Derived_work, works = [(Derived_work, Alive)]\<rparr>,
      part = Told, mqd_of = Mqd_closed, counter = Some 1, at = Outside, moved = 1, closed_calls = 0, told = Some 0\<rparr>"

lemmas demo_run_simps =
  mq_step_defs mq_unborn_def life_step_defs sleeps_until_built_def producer_counts_def numeral_eq_Suc

lemma overtaken_run:
  "mq_life_run producer_counts overtaken mq_unborn = Some (Inr after_overtaken)"
  "built_in_time producer_counts overtaken mq_unborn"
  by (simp_all add: overtaken_def after_overtaken_def demo_run_simps)

definition waiting :: mq_worker where
  "waiting = after_overtaken
     \<lparr>base := \<lparr>owner = Stopping, thr = Test_run, m_run = False, vptr = Base_work, works = [(Derived_work, Alive)]\<rparr>\<rparr>"

lemma waiting_demo:
  "mq_life_run producer_counts (overtaken @ [Owner_acts True, Owner_acts True]) mq_unborn = Some (Inr waiting)"
  "built_in_time producer_counts (overtaken @ [Owner_acts True, Owner_acts True]) mq_unborn"
  by (simp_all add: mq_life_run_append overtaken_run built_in_time_append [OF overtaken_run(1)])
    (simp_all add: after_overtaken_def waiting_def demo_run_simps)

lemma mq_worker_refines_object_witness:
  "\<exists>es'. life_run es' unborn = Some (base after_overtaken)"
  using mq_worker_refines_object [OF overtaken_run(1)] by blast

lemma mq_report_at_most_one_short_witness:
  "mq_life_run producer_counts overtaken mq_unborn = Some (Inr after_overtaken) \<and> told after_overtaken = Some 0 \<and>
   (of_nat (moved after_overtaken) = (0 :: 32 word) \<or> of_nat (moved after_overtaken) = (0 + 1 :: 32 word))"
proof -
  have "told after_overtaken = Some 0" by (simp add: after_overtaken_def)
  then show ?thesis
    using mq_report_at_most_one_short [OF overtaken_run] overtaken_run(1) by auto
qed

lemma mq_destructor_returns_witness:
  "\<exists>n s'. n \<le> 5 \<and> mq_life_run producer_counts (map Thread_acts (take n [0, 0, 0, 0, 0]) @ [Owner_acts True, Owner_acts True])
     waiting = Some (Inr s') \<and> owner (base s') = Destroyed"
proof -
  have "owner (base waiting) = Stopping" "5 \<le> length [0::int, 0, 0, 0, 0]" by (simp_all add: waiting_def)
  from mq_destructor_returns [OF waiting_demo this, of True True] show ?thesis by blast
qed

text \<open>
  The derived destructor closes the descriptor while the thread still runs: the number it
  prints can miss the last message, and the thread can make any number of calls on the closed descriptor.
\<close>

lemma mq_thread_uses_closed:
  "\<exists>es s. mq_life_run producer_counts es mq_unborn = Some (Inr s) \<and> built_in_time producer_counts es mq_unborn \<and>
     owner (base s) = Destroyed \<and> told s = Some 0 \<and> moved s = 1 \<and> closed_calls s = n"
proof -
  let ?round = "replicate 4 (Thread_acts 0)" and ?last = "[Owner_acts True, Owner_acts True, Thread_acts 0, Owner_acts True, Owner_acts True]"
  define st where "st m = after_overtaken\<lparr>base := (base after_overtaken)
    \<lparr>works := replicate (Suc m) (Derived_work, Alive)\<rparr>, closed_calls := m\<rparr>" for m
  have round: "mq_life_run producer_counts ?round (st m) = Some (Inr (st (Suc m)))"
    "built_in_time producer_counts ?round (st m)" for m
    by (simp_all add: st_def after_overtaken_def demo_run_simps replicate_append_same)
  have rounds: "mq_life_run producer_counts (overtaken @ concat (replicate m ?round)) mq_unborn = Some (Inr (st m)) \<and>
      built_in_time producer_counts (overtaken @ concat (replicate m ?round)) mq_unborn" for m
  proof (induction m)
    case 0
    have "st 0 = after_overtaken" by (simp add: st_def after_overtaken_def)
    with overtaken_run show ?case by simp
  next
    case (Suc m)
    have "overtaken @ concat (replicate (Suc m) ?round) = (overtaken @ concat (replicate m ?round)) @ ?round"
      by (induction m) simp_all
    with Suc round show ?case
      by (simp only: mq_life_run_append [of _ _ ?round] built_in_time_append [OF conjunct1 [OF Suc]]) simp
  qed
  let ?es = "overtaken @ concat (replicate n ?round)"
  define fin where "fin = (st n)
    \<lparr>base := \<lparr>owner = Destroyed, thr = Exited, m_run = False, vptr = Base_work, works = replicate (Suc n) (Derived_work, Alive)\<rparr>\<rparr>"
  have "mq_life_run producer_counts ?last (st n) = Some (Inr fin)" "built_in_time producer_counts ?last (st n)"
    by (simp_all add: fin_def st_def after_overtaken_def demo_run_simps)
  then have "mq_life_run producer_counts (?es @ ?last) mq_unborn = Some (Inr fin)"
    "built_in_time producer_counts (?es @ ?last) mq_unborn"
    using rounds [of n] by (simp_all only: mq_life_run_append [of _ ?es ?last] built_in_time_append [OF conjunct1 [OF rounds]]
        option.case sum.case simp_thms)
  moreover have "owner (base fin) = Destroyed" "told fin = Some 0" "moved fin = 1" "closed_calls fin = n"
    by (simp_all add: fin_def st_def after_overtaken_def)
  ultimately show ?thesis by blast
qed

end
