(* ===== verification/Sim_Process.thy ===== *)
theory Sim_Process
  imports Prelude "HOL-Library.Sublist"
begin

text \<open>
  The processes of the two simulations of Chapter 14. Each \<^verbatim>\<open>main\<close>, after its options were read,
  is the list of the calls it makes, in order; the early exits and the unchecked results are
  those of the source. Processes run interleaved and share what the kernel keeps: the object
  that the simulation's name refers to. Each step of a process comes with the outcome of the
  call (whether it succeeds, where the system may refuse it).
\<close>

section \<open>Calls, processes and the kernel\<close>

datatype child = Producer_sim | Consumer_sim

datatype call =
    Shm_create int        \<comment> \<open>\<^verbatim>\<open>shm_open\<close> with \<^verbatim>\<open>O_CREAT | O_TRUNC\<close>; the exit code if it fails\<close>
  | Mq_create int         \<comment> \<open>\<^verbatim>\<open>mq_open\<close> with \<^verbatim>\<open>O_CREAT\<close>\<close>
  | Ftruncate             \<comment> \<open>result not checked\<close>
  | Mmap                  \<comment> \<open>result not checked\<close>
  | New_queue             \<comment> \<open>the queue is built in the mapped memory\<close>
  | Fork child
  | Exec child
  | Wait child
  | Report
  | Munmap
  | Mq_close
  | Unlink                \<comment> \<open>\<^verbatim>\<open>shm_unlink\<close>, \<^verbatim>\<open>mq_unlink\<close>\<close>
  | Exit int
  | Shm_attach int        \<comment> \<open>\<^verbatim>\<open>shm_open\<close> without \<^verbatim>\<open>O_CREAT\<close>\<close>
  | Mmap_or_exit int
  | New_worker            \<comment> \<open>the producer or consumer, with its thread; \<^verbatim>\<open>pthread_create\<close> is asserted\<close>
  | Mq_attach             \<comment> \<open>\<^verbatim>\<open>mq_open\<close> in the constructor of a worker, after its thread was made\<close>
  | Sleep
  | Delete_worker

datatype status = Running | Exited int | Reaped int

text \<open>\<open>unlink_refused\<close>: a removal of the name by this process has failed, which it prints or does not read.\<close>

record process =
  status :: status
  p_code :: "call list"
  p_fd :: "nat option"
  mapped :: "nat option"
  pids :: "child \<Rightarrow> nat"
  worker :: bool
  parent_of :: "nat option"
  unlink_refused :: bool

text \<open>An object has been given its size, and holds a queue that was built.\<close>

record kernel =
  k_name :: "nat option"
  objects :: "(bool \<times> bool) list"
  report_log :: "nat list"

record world =
  kern :: kernel
  procs :: "process list"

definition exit_proc :: "int \<Rightarrow> process \<Rightarrow> process" where
  "exit_proc n p = p\<lparr>status := Exited n, p_code := [], p_fd := None, mapped := None, worker := False\<rparr>"

text \<open>The status of a process whose assertion has failed, as a shell shows it.\<close>

definition ABORTED :: int where "ABORTED = 134"

text \<open>
  A call that concerns one process only; \<open>p\<close> is the process after the call, \<open>live\<close> the number of
  workers whose threads run at the time.
\<close>

definition plain_step :: "call \<Rightarrow> bool \<Rightarrow> nat \<Rightarrow> process \<Rightarrow> kernel \<Rightarrow> (process \<times> kernel) result" where
  "plain_step ins ok live p k =
     (case ins of
        Shm_create n \<Rightarrow>
          Inr (if \<not> ok then (exit_proc n p, k)
               else (case k_name k of
                 Some m \<Rightarrow> (p\<lparr>p_fd := Some m\<rparr>, k\<lparr>objects := (objects k)[m := (False, False)]\<rparr>)
               | None \<Rightarrow> (p\<lparr>p_fd := Some (length (objects k))\<rparr>,
                   k\<lparr>k_name := Some (length (objects k)), objects := objects k @ [(False, False)]\<rparr>)))
      | Mq_create n \<Rightarrow>
          Inr (if \<not> ok then (exit_proc n p, k)
               else (case k_name k of
                 Some m \<Rightarrow> (p\<lparr>p_fd := Some m\<rparr>, k)
               | None \<Rightarrow> (p\<lparr>p_fd := Some (length (objects k))\<rparr>,
                   k\<lparr>k_name := Some (length (objects k)), objects := objects k @ [(True, True)]\<rparr>)))
      | Ftruncate \<Rightarrow>
          Inr (p, case p_fd p of
             Some m \<Rightarrow> if ok then k\<lparr>objects := (objects k)[m := (True, snd (objects k ! m))]\<rparr> else k
           | None \<Rightarrow> k)
      | Mmap \<Rightarrow> Inr (p\<lparr>mapped := (if ok then p_fd p else None)\<rparr>, k)
      | New_queue \<Rightarrow>
          (case mapped p of
             None \<Rightarrow> Inl Null_dereference
           | Some m \<Rightarrow> if fst (objects k ! m) then Inr (p, k\<lparr>objects := (objects k)[m := (True, True)]\<rparr>)
                       else Inl Out_of_bounds)
      | Report \<Rightarrow> (if mapped p = None then Inl Null_dereference else Inr (p, k\<lparr>report_log := report_log k @ [live]\<rparr>))
      | Munmap \<Rightarrow> Inr (p\<lparr>mapped := None\<rparr>, k)
      | Mq_close \<Rightarrow> Inr (p\<lparr>p_fd := None\<rparr>, k)
      | Unlink \<Rightarrow> Inr (if ok then (p, k\<lparr>k_name := None\<rparr>) else (p\<lparr>unlink_refused := True\<rparr>, k))
      | Exit n \<Rightarrow> Inr (exit_proc n p, k)
      | Shm_attach n \<Rightarrow>
          Inr (case k_name k of
             Some m \<Rightarrow> if ok then p\<lparr>p_fd := Some m\<rparr> else exit_proc n p
           | None \<Rightarrow> exit_proc n p, k)
      | Mmap_or_exit n \<Rightarrow> Inr (if ok then p\<lparr>mapped := p_fd p\<rparr> else exit_proc n p, k)
      | New_worker \<Rightarrow> Inr (if ok then p\<lparr>worker := True\<rparr> else exit_proc ABORTED p, k)
      | Mq_attach \<Rightarrow> Inr (p\<lparr>p_fd := (if ok then k_name k else None)\<rparr>, k)
      | Sleep \<Rightarrow> Inr (p, k)
      | Delete_worker \<Rightarrow> Inr (p\<lparr>worker := False\<rparr>, k)
      | _ \<Rightarrow> Inr (p, k))"

definition live_workers :: "world \<Rightarrow> nat" where
  "live_workers s = length (filter worker (procs s))"

text \<open>
  \<^verbatim>\<open>waitpid\<close> of process \<open>i\<close> for the process it keeps in a variable, if that is positive: it waits
  until its child has exited, and fails at once for a process that is not its child.
\<close>

definition wait_step :: "nat \<Rightarrow> child \<Rightarrow> process \<Rightarrow> world \<Rightarrow> world option" where
  "wait_step i c p s =
     (let q = pids p c; go = s\<lparr>procs := (procs s)[i := p]\<rparr>
      in if q = 0 \<or> \<not> q < length (procs s) \<or> parent_of (procs s ! q) \<noteq> Some i then Some go
         else (case status (procs s ! q) of
                 Running \<Rightarrow> None
               | Exited n \<Rightarrow> Some (go\<lparr>procs := (procs go)[q := (procs s ! q)\<lparr>status := Reaped n\<rparr>]\<rparr>)
               | Reaped n \<Rightarrow> Some go))"

text \<open>
  One call of process \<open>i\<close>. \<^verbatim>\<open>fork\<close> copies the process; a parent whose \<^verbatim>\<open>fork\<close> fails leaves with -2; a child whose
  \<^verbatim>\<open>execl\<close> fails goes on with the code of its parent.
\<close>

definition proc_step :: "(child \<Rightarrow> call list) \<Rightarrow> nat \<times> bool \<Rightarrow> world \<Rightarrow> world result option" where
  "proc_step prog e s =
     (let (i, ok) = e; p = procs s ! i
      in if \<not> (i < length (procs s) \<and> status p = Running) then None
         else (case p_code p of
           [] \<Rightarrow> None
         | ins # rest \<Rightarrow>
             (let p1 = p\<lparr>p_code := rest\<rparr> in
              case ins of
                Fork c \<Rightarrow> Some (Inr (
                  if ok then s\<lparr>procs := (procs s)[i := p1\<lparr>pids := (pids p1)(c := length (procs s))\<rparr>] @
                    [p1\<lparr>p_code := Exec c # rest, pids := (pids p1)(c := 0), parent_of := Some i\<rparr>]\<rparr>
                  else s\<lparr>procs := (procs s)[i := exit_proc (-2) p1]\<rparr>))
              | Exec c \<Rightarrow> Some (Inr (s\<lparr>procs := (procs s)
                  [i := if ok then p1\<lparr>p_code := prog c, p_fd := None, mapped := None, pids := (\<lambda>_. 0)\<rparr> else p1]\<rparr>))
              | Wait c \<Rightarrow> map_option Inr (wait_step i c p1 s)
              | _ \<Rightarrow> Some (bind_result (plain_step ins ok (live_workers s) p1 (kern s)) (\<lambda>(p2, k).
                  Inr (s\<lparr>kern := k, procs := (procs s)[i := p2]\<rparr>))))))"

fun proc_run :: "(child \<Rightarrow> call list) \<Rightarrow> (nat \<times> bool) list \<Rightarrow> world \<Rightarrow> world result option" where
  "proc_run prog [] s = Some (Inr s)"
| "proc_run prog (e # es) s =
     (case proc_step prog e s of
        None \<Rightarrow> None
      | Some (Inl f) \<Rightarrow> Some (Inl f)
      | Some (Inr s') \<Rightarrow> proc_run prog es s')"

definition boot :: "call list \<Rightarrow> kernel \<Rightarrow> world" where
  "boot prog k =
     \<lparr>kern = k, procs = [\<lparr>status = Running, p_code = prog, p_fd = None, mapped = None, pids = (\<lambda>_. 0),
        worker = False, parent_of = None, unlink_refused = False\<rparr>]\<rparr>"

section \<open>The programs\<close>

definition shm_parent_main :: "call list" where
  "shm_parent_main =
     [Shm_create (-1), Ftruncate, Mmap, New_queue, Fork Producer_sim, Fork Consumer_sim,
      Wait Producer_sim, Wait Consumer_sim, Report, Munmap, Unlink, Exit 0]"

definition shm_producer_main :: "call list" where
  "shm_producer_main =
     [Shm_attach (-1), Mmap_or_exit (-1), New_worker, Sleep, Delete_worker, Munmap, Unlink, Exit 0]"

definition shm_consumer_main :: "call list" where
  "shm_consumer_main =
     [Shm_attach (-1), Mmap_or_exit (-2), New_worker, Sleep, Delete_worker, Munmap, Unlink, Exit 0]"

definition mq_parent_main :: "call list" where
  "mq_parent_main =
     [Mq_create (-1), Fork Producer_sim, Fork Consumer_sim, Wait Producer_sim, Wait Consumer_sim,
      Mq_close, Unlink, Exit 0]"

definition mq_producer_main :: "call list" where
  "mq_producer_main = [New_worker, Mq_attach, Sleep, Delete_worker, Exit 0]"

definition mq_consumer_main :: "call list" where
  "mq_consumer_main = [New_worker, Mq_attach, Sleep, Delete_worker, Exit 0]"

fun shm_prog :: "child \<Rightarrow> call list" where
  "shm_prog Producer_sim = shm_producer_main"
| "shm_prog Consumer_sim = shm_consumer_main"

fun mq_prog :: "child \<Rightarrow> call list" where
  "mq_prog Producer_sim = mq_producer_main"
| "mq_prog Consumer_sim = mq_consumer_main"

text \<open>Runs in which \<^verbatim>\<open>execl\<close> does not fail; any other call may.\<close>

definition calm :: "nat \<times> bool \<Rightarrow> world \<Rightarrow> bool" where
  "calm e s \<longleftrightarrow> (case p_code (procs s ! fst e) of Exec c # rest \<Rightarrow> snd e | _ \<Rightarrow> True)"

inductive sim_reach :: "(child \<Rightarrow> call list) \<Rightarrow> call list \<Rightarrow> world \<Rightarrow> bool" for prog main where
  start: "report_log k = [] \<Longrightarrow> sim_reach prog main (boot main k)"
| step: "sim_reach prog main s \<Longrightarrow> calm e s \<Longrightarrow> proc_step prog e s = Some (Inr s') \<Longrightarrow> sim_reach prog main s'"

section \<open>Parents that create two children and wait for them\<close>

text \<open>The calls before the first \<^verbatim>\<open>fork\<close>, those after the last \<^verbatim>\<open>waitpid\<close>, and those of a child.\<close>

fun setup_call :: "call \<Rightarrow> bool" where
  "setup_call (Shm_create n) = (n \<noteq> 0)"
| "setup_call (Mq_create n) = (n \<noteq> 0)"
| "setup_call Ftruncate = True"
| "setup_call Mmap = True"
| "setup_call New_queue = True"
| "setup_call _ = False"

fun teardown_call :: "call \<Rightarrow> bool" where
  "teardown_call Report = True"
| "teardown_call Munmap = True"
| "teardown_call Mq_close = True"
| "teardown_call _ = False"

fun worker_call :: "call \<Rightarrow> bool" where
  "worker_call (Shm_attach n) = True"
| "worker_call (Mmap_or_exit n) = True"
| "worker_call New_worker = True"
| "worker_call Mq_attach = True"
| "worker_call Sleep = True"
| "worker_call Delete_worker = True"
| "worker_call Munmap = True"
| "worker_call Unlink = True"
| "worker_call (Exit n) = True"
| "worker_call _ = False"

definition fork_join :: "call list \<Rightarrow> call list" where
  "fork_join post = Fork Producer_sim # Fork Consumer_sim # Wait Producer_sim # Wait Consumer_sim # post"

definition reaped :: "process \<Rightarrow> bool" where
  "reaped q \<longleftrightarrow> (\<exists>n. status q = Reaped n)"

definition child_ok :: "(call \<Rightarrow> bool) \<Rightarrow> process \<Rightarrow> bool" where
  "child_ok wc q \<longleftrightarrow> parent_of q = Some 0 \<and> (status q \<noteq> Running \<longrightarrow> \<not> worker q) \<and>
     (status q = Running \<longrightarrow>
        (\<exists>c rest. p_code q = Exec c # rest) \<and> \<not> worker q \<or> list_all wc (p_code q))"

text \<open>
  Where the parent is, and what has become of its children \<open>qs\<close> by then; \<open>keeps\<close> says that no
  child takes the name \<open>nm\<close> away.
\<close>

definition parent_at :: "bool \<Rightarrow> call list \<Rightarrow> call list \<Rightarrow> process \<Rightarrow> process list \<Rightarrow> nat option \<Rightarrow> bool" where
  "parent_at keeps pre post p qs nm \<longleftrightarrow>
     (\<exists>u. suffix u pre \<and> p_code p = u @ fork_join post \<and> qs = [] \<and> (keeps \<longrightarrow> u = pre \<or> nm \<noteq> None)) \<or>
     (p_code p = tl (fork_join post) \<and> (keeps \<longrightarrow> nm \<noteq> None) \<and> pids p Producer_sim = 1 \<and> length qs = 1) \<or>
     (p_code p = tl (tl (fork_join post)) \<and> (keeps \<longrightarrow> nm \<noteq> None) \<and> pids p Producer_sim = 1 \<and> pids p Consumer_sim = 2 \<and> length qs = 2) \<or>
     (p_code p = tl (tl (tl (fork_join post))) \<and> (keeps \<longrightarrow> nm \<noteq> None) \<and> pids p Consumer_sim = 2 \<and> length qs = 2 \<and> reaped (qs ! 0)) \<or>
     (suffix (p_code p) post \<and> length qs = 2 \<and> list_all reaped qs \<and> (p_code p = [Exit 0] \<longrightarrow> nm = None \<or> unlink_refused p))"

definition fork_join_inv :: "(call \<Rightarrow> bool) \<Rightarrow> bool \<Rightarrow> call list \<Rightarrow> call list \<Rightarrow> world \<Rightarrow> bool" where
  "fork_join_inv wc keeps pre post s \<longleftrightarrow>
     (\<exists>p qs. procs s = p # qs \<and> \<not> worker p \<and> list_all (child_ok wc) qs \<and>
        (keeps \<longrightarrow> (\<exists>q \<in> set qs. status q = Running) \<longrightarrow> k_name (kern s) \<noteq> None) \<and> set (report_log (kern s)) \<subseteq> {0} \<and>
        (status p = Running \<longrightarrow> parent_at keeps pre post p qs (k_name (kern s))) \<and>
        (status p = Exited 0 \<longrightarrow> length qs = 2 \<and> list_all reaped qs \<and> (k_name (kern s) = None \<or> unlink_refused p)) \<and>
        (\<forall>n. status p \<noteq> Reaped n) \<and> parent_of p = None)"

lemma reaped_not_running: "reaped q \<Longrightarrow> status q \<noteq> Running"
  by (auto simp: reaped_def)

lemma live_workers_dead:
  assumes "procs s = p # qs" and "\<not> worker p" and "list_all (child_ok wc) qs" and "list_all reaped qs"
  shows "live_workers s = 0"
proof -
  have "\<not> worker q" if "q \<in> set qs" for q
    using assms(3,4) that by (auto simp: list_all_iff child_ok_def reaped_def)
  with assms(1,2) show ?thesis by (simp add: live_workers_def filter_empty_conv)
qed

text \<open>A worker's call changes its process and at most takes the name away.\<close>

lemma worker_call_step:
  assumes "worker_call ins" and "plain_step ins ok live (p\<lparr>p_code := rest\<rparr>) k = Inr (p', k')"
    and "status p = Running"
  shows "parent_of p' = parent_of p \<and> (status p' \<noteq> Running \<longrightarrow> \<not> worker p') \<and>
    (status p' = Running \<longrightarrow> p_code p' = rest) \<and> report_log k' = report_log k \<and>
    (k_name k' = k_name k \<or> k_name k' = None \<and> ins = Unlink) \<and> (status p' \<noteq> Running \<longrightarrow> (\<exists>n. status p' = Exited n))"
  using assms
  by (cases ins) (auto simp: plain_step_def exit_proc_def split: option.splits if_splits)

lemma setup_call_step:
  assumes "setup_call ins" and "plain_step ins ok live (p\<lparr>p_code := rest\<rparr>) k = Inr (p', k')" and "\<not> worker p"
    and "status p = Running"
  shows "parent_of p' = parent_of p \<and> \<not> worker p' \<and> report_log k' = report_log k \<and>
    (status p' = Running \<and> p_code p' = rest \<or> (\<exists>n. status p' = Exited n \<and> n \<noteq> 0)) \<and>
    (k_name k' = None \<longrightarrow> k_name k = None \<and> (status p' = Running \<longrightarrow> (\<forall>n. ins \<noteq> Mq_create n)))"
  using assms
  by (cases ins) (auto simp: plain_step_def exit_proc_def split: option.splits if_splits)

lemma teardown_call_step:
  assumes "teardown_call ins \<or> ins = Unlink" and "plain_step ins ok live (p\<lparr>p_code := rest\<rparr>) k = Inr (p', k')"
    and "\<not> worker p" and "status p = Running"
  shows "parent_of p' = parent_of p \<and> \<not> worker p' \<and> set (report_log k') \<subseteq> set (report_log k) \<union> {live} \<and>
    status p' = Running \<and> p_code p' = rest \<and> (ins = Unlink \<longrightarrow> k_name k' = None \<or> unlink_refused p')"
  using assms
  by (cases ins) (auto simp: plain_step_def split: if_splits)

lemma wait_reaps:
  assumes "wait_step 0 c p1 s = Some s'" and "q = procs s ! pids p1 c" and "pids p1 c < length (procs s)" and "0 < pids p1 c"
    and "child_ok wc q"
  shows "\<exists>x. reaped x \<and> child_ok wc x \<and> s' = s\<lparr>procs := (procs s)[0 := p1, pids p1 c := x]\<rparr>"
proof (cases "status q")
  case Running
  then show ?thesis
    using assms(1,3-5) unfolding assms(2) by (simp add: wait_step_def Let_def child_ok_def)
next
  case (Exited n)
  have "s' = s\<lparr>procs := (procs s)[0 := p1, pids p1 c := q\<lparr>status := Reaped n\<rparr>]\<rparr>"
    using assms(1,3-5) Exited unfolding assms(2) by (simp add: wait_step_def Let_def child_ok_def)
  moreover have "reaped (q\<lparr>status := Reaped n\<rparr>)" "child_ok wc (q\<lparr>status := Reaped n\<rparr>)"
    using assms(5) Exited by (simp_all add: reaped_def child_ok_def)
  ultimately show ?thesis by blast
next
  case (Reaped n)
  have "s' = s\<lparr>procs := (procs s)[0 := p1]\<rparr>"
    using assms(1,3-5) Reaped unfolding assms(2) by (simp add: wait_step_def Let_def child_ok_def)
  moreover have "(procs s)[0 := p1, pids p1 c := q] = (procs s)[0 := p1]"
    using list_update_id [of "(procs s)[0 := p1]" "pids p1 c"] assms(2,4) by simp
  moreover have "reaped q" using Reaped by (simp add: reaped_def)
  ultimately show ?thesis using assms(5) by metis
qed

locale fork_join_main =
  fixes prog :: "child \<Rightarrow> call list" and wc :: "call \<Rightarrow> bool" and keeps :: bool and pre post1 :: "call list"
  assumes setup_calls: "list_all setup_call pre"
    and teardown_calls: "list_all teardown_call post1"
    and worker_calls: "list_all wc (prog c)" "wc ins \<Longrightarrow> worker_call ins"
    and keeps_name: "keeps \<Longrightarrow> \<not> wc Unlink \<and> (\<exists>n rest. pre = Mq_create n # rest)"
begin

definition "post = post1 @ [Unlink, Exit 0]"

lemma inv_boot: "report_log k = [] \<Longrightarrow> fork_join_inv wc keeps pre post (boot (pre @ fork_join post) k)"
  by (auto simp: fork_join_inv_def boot_def parent_at_def)

text \<open>A step of a child.\<close>

lemma child_step:
  assumes "child_ok wc q" and "status q = Running" and "s0 = s" and "procs s ! i = q" and "0 < i" and "i < length (procs s)"
    and "calm (i, ok) s" and "proc_step prog (i, ok) s = Some (Inr s')"
  shows "\<exists>q' k'. s' = s\<lparr>kern := k', procs := (procs s)[i := q']\<rparr> \<and> child_ok wc q' \<and>
    report_log k' = report_log (kern s) \<and> (k_name k' = k_name (kern s) \<or> wc Unlink)"
proof (cases "p_code q")
  case Nil
  with assms(2,4,6,8) show ?thesis by (simp add: proc_step_def)
next
  case (Cons ins rest)
  show ?thesis
  proof (cases "\<exists>c. ins = Exec c")
    case True
    then obtain c where c: "ins = Exec c" by blast
    with assms(4,7) Cons have ok by (simp add: calm_def)
    with c Cons assms(1,2,4,6,8) worker_calls(1) [of c] show ?thesis
      by (auto simp: proc_step_def child_ok_def intro!: exI [of _ "kern s"])
  next
    case False
    with assms(1,2) Cons have wi: "wc ins" "list_all wc rest" by (auto simp: child_ok_def)
    have w: "worker_call ins" by (rule worker_calls(2) [OF wi(1)])
    have "proc_step prog (i, ok) s = Some (bind_result (plain_step ins ok (live_workers s) (q\<lparr>p_code := rest\<rparr>) (kern s)) (\<lambda>(p2, k).
        Inr (s\<lparr>kern := k, procs := (procs s)[i := p2]\<rparr>)))"
      using assms(2,4,6) Cons w by (cases ins) (simp_all add: proc_step_def)
    with assms(8) obtain q' k' where step: "plain_step ins ok (live_workers s) (q\<lparr>p_code := rest\<rparr>) (kern s) = Inr (q', k')"
      "s' = s\<lparr>kern := k', procs := (procs s)[i := q']\<rparr>"
      by auto
    from worker_call_step [OF w step(1) assms(2)] assms(1) Cons step(2) wi show ?thesis
      by (intro exI [of _ q'] exI [of _ k']) (auto simp: child_ok_def)
  qed
qed

lemma parent_at_child:
  assumes "parent_at keeps pre post p qs nm" and "j < length qs" and "status (qs ! j) = Running"
    and "keeps \<Longrightarrow> nm \<noteq> None \<Longrightarrow> nm' \<noteq> None"
  shows "parent_at keeps pre post p (qs[j := q']) nm'"
proof -
  have "\<not> list_all reaped qs" using assms(2,3) by (auto simp: list_all_length reaped_def)
  moreover have "reaped (qs ! 0) \<Longrightarrow> j \<noteq> 0" using assms(3) by (cases j) (auto simp: reaped_def)
  then have "reaped (qs ! 0) \<Longrightarrow> qs[j := q'] ! 0 = qs ! 0" by simp
  moreover have "qs \<noteq> []" using assms(2) by auto
  ultimately show ?thesis
    using assms(1,4) unfolding parent_at_def by (elim disjE exE conjE) simp_all
qed

lemma inv_child:
  assumes "fork_join_inv wc keeps pre post s" and "0 < i" and "calm (i, ok) s" and "proc_step prog (i, ok) s = Some (Inr s')"
  shows "fork_join_inv wc keeps pre post s'"
proof -
  from assms(1) obtain p qs where
    inv: "procs s = p # qs" "\<not> worker p" "list_all (child_ok wc) qs" "set (report_log (kern s)) \<subseteq> {0}"
      "status p = Running \<Longrightarrow> parent_at keeps pre post p qs (k_name (kern s))"
      "status p = Exited 0 \<Longrightarrow> length qs = 2 \<and> list_all reaped qs \<and> (k_name (kern s) = None \<or> unlink_refused p)"
      "\<And>n. status p \<noteq> Reaped n" "parent_of p = None"
      "keeps \<Longrightarrow> \<exists>q \<in> set qs. status q = Running \<Longrightarrow> k_name (kern s) \<noteq> None"
    unfolding fork_join_inv_def by blast
  obtain j where j: "i = Suc j" using assms(2) by (cases i) simp_all
  from assms(4) have run: "i < length (procs s)" "status (procs s ! i) = Running"
    by (auto simp: proc_step_def Let_def split: if_splits)
  then have at: "j < length qs" "procs s ! i = qs ! j" "status (qs ! j) = Running" by (simp_all add: inv(1) j)
  have ok: "child_ok wc (qs ! j)" using inv(3) at(1) by (simp add: list_all_length)
  from child_step [OF ok at(3) refl at(2) assms(2) run(1) assms(3,4)] obtain q' k' where
    q': "s' = s\<lparr>kern := k', procs := (procs s)[i := q']\<rparr>" "child_ok wc q'" "report_log k' = report_log (kern s)"
      "k_name k' = k_name (kern s) \<or> wc Unlink"
    by blast
  have "\<exists>q \<in> set qs. status q = Running" using at(1,3) nth_mem by blast
  then have named: "k_name (kern s') \<noteq> None" if keeps
    using inv(9) [OF that] q'(1,4) keeps_name [OF that] by auto
  have "procs s' = p # qs[j := q']" by (simp add: q'(1) inv(1) j)
  moreover have "list_all (child_ok wc) (qs[j := q'])"
    using inv(3) q'(2) at(1) by (auto simp: list_all_length nth_list_update)
  moreover have "\<not> list_all reaped qs" using at by (auto simp: list_all_length reaped_def)
  moreover have "status p = Running \<Longrightarrow> parent_at keeps pre post p (qs[j := q']) (k_name (kern s'))"
    by (rule parent_at_child [OF inv(5) at(1,3) named])
  ultimately show ?thesis
    using inv(1,2,4,6-8) q' named unfolding fork_join_inv_def by auto
qed

lemma post_suffix:
  assumes "suffix (ins # rest) post"
  shows "suffix rest post \<and> (teardown_call ins \<and> rest \<noteq> [Exit 0] \<or> ins = Unlink \<and> rest = [Exit 0] \<or> ins = Exit 0 \<and> rest = [])"
proof -
  have "suffix rest post" using assms by (rule suffix_ConsD)
  moreover from assms consider v where "ins # rest = v @ [Unlink, Exit 0]" "suffix v post1"
    | "suffix (ins # rest) [Unlink, Exit 0]"
    unfolding post_def suffix_append by blast
  then have "teardown_call ins \<and> rest \<noteq> [Exit 0] \<or> ins = Unlink \<and> rest = [Exit 0] \<or> ins = Exit 0 \<and> rest = []"
  proof cases
    case 1
    show ?thesis
    proof (cases v)
      case (Cons y ys)
      with 1 have "ins \<in> set post1" by (auto dest: set_mono_suffix)
      with teardown_calls have "teardown_call ins" by (simp add: list_all_iff)
      with 1(1) Cons show ?thesis by simp
    qed (use 1(1) in simp)
  next
    case 2
    then show ?thesis by (auto simp: suffix_Cons)
  qed
  ultimately show ?thesis by blast
qed

lemma list_2: "length qs = 2 \<Longrightarrow> \<exists>a b. qs = [a, b]"
  by (auto simp: numeral_2_eq_2 length_Suc_conv)

text \<open>The steps of the parent, by where it is.\<close>

lemma inv_parent_setup:
  assumes "procs s = [p]" and "\<not> worker p" and "set (report_log (kern s)) \<subseteq> {0}" and "parent_of p = None" and "status p = Running"
    and "suffix u pre" and "keeps \<Longrightarrow> u = pre \<or> k_name (kern s) \<noteq> None" and "p_code p = u @ fork_join post" and "proc_step prog (0, ok) s = Some (Inr s')"
  shows "fork_join_inv wc keeps pre post s'"
proof (cases u)
  case Nil
  then have named: "keeps \<Longrightarrow> k_name (kern s) \<noteq> None" using assms(7) keeps_name by auto
  show ?thesis
  proof (cases ok)
    case True
    with Nil assms(1-6,8,9) named show ?thesis
      by (auto simp: proc_step_def fork_join_def fork_join_inv_def parent_at_def child_ok_def)
  next
    case False
    with Nil assms(1-6,8,9) named show ?thesis
      by (auto simp: proc_step_def fork_join_def fork_join_inv_def exit_proc_def)
  qed
next
  case (Cons ins v)
  have "ins \<in> set pre" using set_mono_suffix [OF assms(6)] Cons by simp
  with setup_calls have c: "setup_call ins" by (simp add: list_all_iff)
  let ?p = "p\<lparr>p_code := v @ fork_join post\<rparr>"
  have "proc_step prog (0, ok) s = Some (bind_result (plain_step ins ok (live_workers s) ?p (kern s)) (\<lambda>(p2, k).
      Inr (s\<lparr>kern := k, procs := [p2]\<rparr>)))"
    using assms(1,5,8) Cons c by (cases ins) (simp_all add: proc_step_def)
  with assms(9) obtain p' k' where
    step: "plain_step ins ok (live_workers s) ?p (kern s) = Inr (p', k')" "s' = s\<lparr>kern := k', procs := [p']\<rparr>"
    by auto
  have "suffix v pre" using assms(6) Cons by (auto dest: suffix_ConsD)
  moreover have "keeps \<Longrightarrow> status p' = Running \<Longrightarrow> k_name k' \<noteq> None"
    using setup_call_step [OF c step(1) assms(2,5)] assms(7) keeps_name Cons by auto
  ultimately show ?thesis
    using setup_call_step [OF c step(1) assms(2,5)] assms(3,4)
    by (auto simp: fork_join_inv_def parent_at_def step(2))
qed

lemma inv_parent_post:
  assumes "procs s = p # qs" and "\<not> worker p" and "set (report_log (kern s)) \<subseteq> {0}" and "parent_of p = None" and "status p = Running"
    and "list_all (child_ok wc) qs" and "length qs = 2" and "list_all reaped qs" and "suffix (p_code p) post"
    and "p_code p = [Exit 0] \<longrightarrow> k_name (kern s) = None \<or> unlink_refused p" and "proc_step prog (0, ok) s = Some (Inr s')"
  shows "fork_join_inv wc keeps pre post s'"
proof (cases "p_code p")
  case Nil
  with assms(1,5,11) show ?thesis by (simp add: proc_step_def)
next
  case (Cons ins rest)
  have dead: "live_workers s = 0" by (rule live_workers_dead [OF assms(1,2,6,8)])
  have ended: "\<not> (\<exists>q \<in> set qs. status q = Running)"
    using assms(8) reaped_not_running by (auto simp: list_all_iff)
  note here = post_suffix [OF assms(9) [unfolded Cons]]
  show ?thesis
  proof (cases "ins = Exit 0")
    case True
    with assms Cons here ended show ?thesis
      by (auto simp: proc_step_def plain_step_def exit_proc_def fork_join_inv_def)
  next
    case False
    with here have c: "teardown_call ins \<or> ins = Unlink" by blast
    have "proc_step prog (0, ok) s = Some (bind_result (plain_step ins ok 0 (p\<lparr>p_code := rest\<rparr>) (kern s)) (\<lambda>(p2, k).
        Inr (s\<lparr>kern := k, procs := p2 # qs\<rparr>)))"
      using assms(1,5) Cons c by (cases ins) (simp_all add: proc_step_def dead)
    with assms(11) obtain p' k' where
      step: "plain_step ins ok 0 (p\<lparr>p_code := rest\<rparr>) (kern s) = Inr (p', k')" "s' = s\<lparr>kern := k', procs := p' # qs\<rparr>"
      by auto
    from teardown_call_step [OF c step(1) assms(2,5)] here assms(3,4,6-8) False ended show ?thesis
      by (auto simp: fork_join_inv_def parent_at_def step(2))
  qed
qed

lemma inv_parent_waits:
  assumes "procs s = p # qs" and "\<not> worker p" and "set (report_log (kern s)) \<subseteq> {0}" and "parent_of p = None" and "status p = Running"
    and "list_all (child_ok wc) qs" and "length qs = 2" and "keeps \<Longrightarrow> k_name (kern s) \<noteq> None" and "pids p Consumer_sim = 2"
    and "p_code p = tl (tl (fork_join post)) \<and> pids p Producer_sim = 1 \<or> p_code p = tl (tl (tl (fork_join post))) \<and> reaped (qs ! 0)"
    and "proc_step prog (0, ok) s = Some (Inr s')"
  shows "fork_join_inv wc keeps pre post s'"
proof -
  obtain a b where qs: "qs = [a, b]" using assms(7) list_2 by blast
  have ab: "child_ok wc a" "child_ok wc b" "parent_of a = Some 0" "parent_of b = Some 0"
    using assms(6) by (simp_all add: qs child_ok_def)
  have post_ne: "post \<noteq> [Exit 0]" by (simp add: post_def)
  from assms(10) show ?thesis
  proof
    assume c: "p_code p = tl (tl (fork_join post)) \<and> pids p Producer_sim = 1"
    with assms(1,5,11) have w: "wait_step 0 Producer_sim (p\<lparr>p_code := Wait Consumer_sim # post\<rparr>) s = Some s'"
      by (auto simp: proc_step_def fork_join_def)
    obtain x where x: "reaped x" "child_ok wc x" "s' = s\<lparr>procs := [p\<lparr>p_code := Wait Consumer_sim # post\<rparr>, x, b]\<rparr>"
      using wait_reaps [OF w, of a] assms(1) c ab by (auto simp: qs)
    then show ?thesis
      using assms(2-5,8,9) ab(2) by (auto simp: fork_join_inv_def parent_at_def fork_join_def)
  next
    assume c: "p_code p = tl (tl (tl (fork_join post))) \<and> reaped (qs ! 0)"
    with assms(1,5,11) have w: "wait_step 0 Consumer_sim (p\<lparr>p_code := post\<rparr>) s = Some s'"
      by (auto simp: proc_step_def fork_join_def)
    obtain x where x: "reaped x" "child_ok wc x" "s' = s\<lparr>procs := [p\<lparr>p_code := post\<rparr>, a, x]\<rparr>"
      using wait_reaps [OF w, of b] assms(1,9) ab by (auto simp: qs)
    with c show ?thesis
      using assms(2-5,8) ab(1) post_ne by (auto simp: fork_join_inv_def parent_at_def qs)
  qed
qed

lemma inv_parent_fork:
  assumes "procs s = [p, q]" and "\<not> worker p" and "set (report_log (kern s)) \<subseteq> {0}" and "parent_of p = None" and "status p = Running"
    and "child_ok wc q" and "keeps \<Longrightarrow> k_name (kern s) \<noteq> None" and "p_code p = tl (fork_join post)" and "pids p Producer_sim = 1"
    and "proc_step prog (0, ok) s = Some (Inr s')"
  shows "fork_join_inv wc keeps pre post s'"
proof (cases ok)
  case True
  with assms show ?thesis
    by (auto simp: proc_step_def fork_join_def fork_join_inv_def parent_at_def child_ok_def)
next
  case False
  with assms show ?thesis
    by (auto simp: proc_step_def fork_join_def fork_join_inv_def exit_proc_def)
qed

lemma inv_parent:
  assumes "fork_join_inv wc keeps pre post s" and "proc_step prog (0, ok) s = Some (Inr s')"
  shows "fork_join_inv wc keeps pre post s'"
proof -
  from assms(1) obtain p qs where
    inv: "procs s = p # qs" "\<not> worker p" "list_all (child_ok wc) qs" "set (report_log (kern s)) \<subseteq> {0}"
      "status p = Running \<Longrightarrow> parent_at keeps pre post p qs (k_name (kern s))" "parent_of p = None"
    unfolding fork_join_inv_def by blast
  have run: "status p = Running" using assms(2) inv(1) by (auto simp: proc_step_def Let_def split: if_splits)
  from inv(5) [OF run] consider
      (at_setup) u where "suffix u pre" "p_code p = u @ fork_join post" "qs = []" "keeps \<longrightarrow> u = pre \<or> k_name (kern s) \<noteq> None"
    | (at_fork) "keeps \<longrightarrow> k_name (kern s) \<noteq> None" "p_code p = tl (fork_join post)" "pids p Producer_sim = 1" "length qs = 1"
    | (at_wait) "keeps \<longrightarrow> k_name (kern s) \<noteq> None" "pids p Consumer_sim = 2" "length qs = 2"
        "p_code p = tl (tl (fork_join post)) \<and> pids p Producer_sim = 1 \<or> p_code p = tl (tl (tl (fork_join post))) \<and> reaped (qs ! 0)"
    | (at_post) "suffix (p_code p) post" "length qs = 2" "list_all reaped qs" "p_code p = [Exit 0] \<longrightarrow> k_name (kern s) = None \<or> unlink_refused p"
    unfolding parent_at_def by blast
  then show ?thesis
  proof cases
    case at_setup
    with inv show ?thesis by (intro inv_parent_setup [OF _ inv(2,4,6) run _ _ _ assms(2)]) simp_all
  next
    case at_fork
    obtain q where "qs = [q]" using at_fork(4) by (cases qs) auto
    with at_fork inv show ?thesis by (intro inv_parent_fork [OF _ inv(2,4,6) run _ _ _ _ assms(2)]) simp_all
  next
    case at_wait
    show ?thesis by (rule inv_parent_waits [OF inv(1,2,4,6) run inv(3) at_wait(3) _ at_wait(2,4) assms(2)]) (use at_wait(1) in simp)
  next
    case at_post
    show ?thesis by (rule inv_parent_post [OF inv(1,2,4,6) run inv(3) at_post(2,3,1,4) assms(2)])
  qed
qed

lemma reach_inv:
  assumes "sim_reach prog (pre @ fork_join post) s"
  shows "fork_join_inv wc keeps pre post s"
  using assms
proof induction
  case (start k)
  then show ?case by (rule inv_boot)
next
  case (step s e s')
  obtain i ok where e: "e = (i, ok)" by fastforce
  note step_e = step.hyps(2,3) [unfolded e]
  show ?case
  proof (cases "i = 0")
    case True
    show ?thesis by (rule inv_parent [OF step.IH step_e(2) [unfolded True]])
  next
    case False
    then show ?thesis by (intro inv_child [OF step.IH _ step_e]) simp
  qed
qed

text \<open>
  Whatever calls fail, the report is made when no worker runs any more, and a parent that leaves
  with code 0 has waited for both children and has taken the name away, unless it was refused.
\<close>

lemma clean_end:
  assumes "sim_reach prog (pre @ fork_join post) s"
  shows "set (report_log (kern s)) \<subseteq> {0}"
    and "status (procs s ! 0) = Exited 0 \<Longrightarrow>
      length (procs s) = 3 \<and> list_all reaped (tl (procs s)) \<and> live_workers s = 0 \<and>
      (k_name (kern s) = None \<or> unlink_refused (procs s ! 0))"
  using reach_inv [OF assms] live_workers_dead [of s] by (auto simp: fork_join_inv_def)

lemma child_finds_name:
  assumes "keeps" and "sim_reach prog (pre @ fork_join post) s" and "0 < i" and "i < length (procs s)"
    and "status (procs s ! i) = Running"
  shows "k_name (kern s) \<noteq> None"
proof -
  obtain j where j: "i = Suc j" using assms(3) by (cases i) simp_all
  from reach_inv [OF assms(2)] assms(1) obtain p qs where
    "procs s = p # qs" "(\<exists>q \<in> set qs. status q = Running) \<longrightarrow> k_name (kern s) \<noteq> None"
    unfolding fork_join_inv_def by blast
  with assms(4,5) show ?thesis by (auto simp: j)
qed

end

interpretation shm_sim: fork_join_main shm_prog worker_call False
    "[Shm_create (-1), Ftruncate, Mmap, New_queue]" "[Report, Munmap]"
proof unfold_locales
  show "list_all worker_call (shm_prog c)" for c
    by (cases c) (simp_all add: shm_producer_main_def shm_consumer_main_def)
qed simp_all

interpretation mq_sim: fork_join_main mq_prog "\<lambda>c. worker_call c \<and> c \<noteq> Unlink" True "[Mq_create (-1)]" "[Mq_close]"
proof unfold_locales
  show "list_all (\<lambda>c. worker_call c \<and> c \<noteq> Unlink) (mq_prog c)" for c
    by (cases c) (simp_all add: mq_producer_main_def mq_consumer_main_def)
qed simp_all

lemma shm_parent_main_split:
  "shm_parent_main = [Shm_create (-1), Ftruncate, Mmap, New_queue] @ fork_join shm_sim.post"
  by (simp add: shm_parent_main_def fork_join_def shm_sim.post_def)

lemma mq_parent_main_split: "mq_parent_main = [Mq_create (-1)] @ fork_join mq_sim.post"
  by (simp add: mq_parent_main_def fork_join_def mq_sim.post_def)

section \<open>Properties\<close>

definition no_objects :: kernel where
  "no_objects = \<lparr>k_name = None, objects = [], report_log = []\<rparr>"

text \<open>Runs of an event list, for the examples.\<close>

lemma sys_run_reach:
  assumes "sim_reach prog main s" and "proc_run prog es s = Some (Inr s')"
    and "list_all snd es"
  shows "sim_reach prog main s'"
  using assms
proof (induction es arbitrary: s)
  case (Cons e es)
  from Cons.prems(2) obtain s1 where s1: "proc_step prog e s = Some (Inr s1)" "proc_run prog es s1 = Some (Inr s')"
    by (auto split: option.splits sum.splits)
  have "calm e s" using Cons.prems(3) by (simp add: calm_def split: list.split call.split)
  with Cons.prems(1) s1(1) have "sim_reach prog main s1" by (blast intro: sim_reach.step)
  with Cons.IH s1(2) Cons.prems(3) show ?case by simp
qed simp

lemmas run_simps = ABORTED_def proc_step_def plain_step_def wait_step_def exit_proc_def boot_def no_objects_def live_workers_def
  shm_parent_main_def shm_producer_main_def shm_consumer_main_def mq_parent_main_def mq_producer_main_def mq_consumer_main_def

definition full_run :: "(nat \<times> bool) list" where
  "full_run = map (\<lambda>i. (i, True))
     ([0, 0, 0, 0, 0, 0] @ [1, 2] @ [1, 2] @ [1, 2] @ [1, 2] @ [1, 2] @ [1, 2] @ [1, 2] @ [1, 2] @ [1, 2] @ [0, 0, 0, 0, 0, 0])"

lemma list_all_full_run: "list_all snd full_run"
  by (simp add: full_run_def)

text \<open>
  C19: the simulation over shared memory cleans up after itself. Whatever system calls fail, as long as \<^verbatim>\<open>execl\<close>
  does not, and however the three processes interleave, the queue's report is made only
  when no producer or consumer thread runs, and when the parent has left with code 0 it had two
  children, has waited for both, and the name of the shared memory is gone unless the system refused its
  removal, whose result is not read.
\<close>

theorem shm_simulation_ends_clean:
  assumes "sim_reach shm_prog shm_parent_main s" and "status (procs s ! 0) = Exited 0"
  shows "set (report_log (kern s)) \<subseteq> {0} \<and> length (procs s) = 3 \<and> list_all reaped (tl (procs s)) \<and>
    live_workers s = 0 \<and> (k_name (kern s) = None \<or> unlink_refused (procs s ! 0))"
  using shm_sim.clean_end [of s] assms by (simp add: shm_parent_main_split)

theorem shm_simulation_ends_clean_witness:
  "\<exists>s. proc_run shm_prog full_run (boot shm_parent_main no_objects) = Some (Inr s) \<and> report_log (kern s) = [0] \<and>
    list_all reaped (tl (procs s)) \<and> k_name (kern s) = None"
proof -
  obtain s where s: "proc_run shm_prog full_run (boot shm_parent_main no_objects) = Some (Inr s)"
    "status (procs s ! 0) = Exited 0" "report_log (kern s) = [0]" "\<not> unlink_refused (procs s ! 0)"
    by (simp add: full_run_def run_simps Let_def)
  have "sim_reach shm_prog shm_parent_main (boot shm_parent_main no_objects)"
    by (rule sim_reach.start) (simp add: no_objects_def)
  from sys_run_reach [OF this s(1) list_all_full_run] shm_simulation_ends_clean [of s] s show ?thesis by blast
qed

text \<open>
  C20: the simulation over a message queue: as long as \<^verbatim>\<open>execl\<close> does not fail, and whatever other calls do and
  however the processes interleave, the queue's name exists as long as a child runs, so that
  its constructor finds the queue; and a parent that has left with code 0 has waited for both children and removed
  the queue, unless the system refused that, which it prints and ignores.
\<close>

theorem mq_children_find_queue:
  assumes "sim_reach mq_prog mq_parent_main s"
  shows "(if \<exists>p \<in> set (tl (procs s)). status p = Running then k_name (kern s) \<noteq> None else True) \<and>
    (if status (procs s ! 0) = Exited 0 then list_all reaped (tl (procs s)) \<and> (k_name (kern s) = None \<or> unlink_refused (procs s ! 0)) else True)"
proof -
  have r: "sim_reach mq_prog ([Mq_create (-1)] @ fork_join mq_sim.post) s"
    using assms by (simp add: mq_parent_main_split)
  have "k_name (kern s) \<noteq> None" if "p \<in> set (tl (procs s))" "status p = Running" for p
  proof -
    from that(1) obtain j where "j < length (tl (procs s))" "tl (procs s) ! j = p"
      by (auto simp: in_set_conv_nth)
    then have "Suc j < length (procs s)" "procs s ! Suc j = p" by (simp_all add: nth_tl)
    with that(2) show ?thesis by (intro mq_sim.child_finds_name [OF TrueI r, of "Suc j"]) simp_all
  qed
  with mq_sim.clean_end(2) [OF r] show ?thesis by auto
qed

theorem mq_children_find_queue_witness:
  "\<exists>s. proc_run mq_prog (map (\<lambda>i. (i, True)) [0, 0, 0, 1, 2]) (boot mq_parent_main no_objects) = Some (Inr s) \<and>
    status (procs s ! 2) = Running \<and> p_code (procs s ! 2) = mq_consumer_main \<and> k_name (kern s) \<noteq> None"
proof -
  obtain s where s: "proc_run mq_prog (map (\<lambda>i. (i, True)) [0, 0, 0, 1, 2]) (boot mq_parent_main no_objects) = Some (Inr s)"
    "status (procs s ! 2) = Running" "p_code (procs s ! 2) = mq_consumer_main" "procs s ! 2 \<in> set (tl (procs s))"
    by (simp add: run_simps)
  have "sim_reach mq_prog mq_parent_main (boot mq_parent_main no_objects)"
    by (rule sim_reach.start) (simp add: no_objects_def)
  from sys_run_reach [OF this s(1)] have "sim_reach mq_prog mq_parent_main s" by simp
  from mq_children_find_queue [OF this] s show ?thesis by (auto split: if_splits)
qed

text \<open>A parent whose removal of the name is refused leaves with 0 all the same.\<close>

lemma refused_unlink_still_exits_0:
  "\<exists>s. proc_run mq_prog (map (\<lambda>i. (i, True)) ([0, 0, 0] @ replicate 6 1 @ replicate 6 2 @ [0, 0, 0]) @ [(0, False), (0, True)])
      (boot mq_parent_main no_objects) = Some (Inr s) \<and>
    status (procs s ! 0) = Exited 0 \<and> k_name (kern s) = Some 0"
  by (simp add: run_simps numeral_eq_Suc)

text \<open>A child whose thread cannot be made aborts; the parent takes no notice.\<close>

lemma failed_thread_aborts_child:
  "\<exists>s. proc_run shm_prog (map (\<lambda>i. (i, True)) (replicate 6 0 @ [1, 1, 1]) @ [(1, False)] @
        map (\<lambda>i. (i, True)) (replicate 9 2 @ replicate 6 0))
      (boot shm_parent_main no_objects) = Some (Inr s) \<and>
    map status (procs s) = [Exited 0, Reaped ABORTED, Reaped 0]"
  by (simp add: run_simps numeral_eq_Suc)

text \<open>
  the two children over shared memory race. Each of them removes the shared memory's name
  when it ends; a child that the system starts late then does not find it. There is a run without
  a failing call in which the producer has done all its work and the consumer leaves with -1 before it
  made its object, and the parent still reports success.
\<close>

lemma late_child_finds_no_memory:
  "\<exists>s. proc_run shm_prog (map (\<lambda>i. (i, True)) (replicate 6 0 @ replicate 9 1 @ [2, 2] @ replicate 6 0))
      (boot shm_parent_main no_objects) = Some (Inr s) \<and>
    map status (procs s) = [Exited 0, Reaped 0, Reaped (-1)]"
  by (simp add: run_simps numeral_eq_Suc)

text \<open>
  a child whose \<^verbatim>\<open>execl\<close> fails goes on as a second parent. It creates a consumer of its own,
  and there is a run in which it reports on the queue while the real consumer works on it, and
  takes the name away.
\<close>

lemma failed_exec_makes_second_parent:
  "\<exists>s. proc_run shm_prog
      (map (\<lambda>i. (i, True)) (replicate 5 0) @ [(1, False)] @
       map (\<lambda>i. (i, True)) ([1, 0] @ replicate 4 3 @ replicate 9 2 @ replicate 6 1))
      (boot shm_parent_main no_objects) = Some (Inr s) \<and>
    map status (procs s) = [Running, Exited 0, Reaped 0, Running] \<and> worker (procs s ! 3) \<and>
    report_log (kern s) = [1] \<and> k_name (kern s) = None"
  by (simp add: run_simps numeral_eq_Suc)

end
