(* ===== verification/Shm_Child.thy ===== *)
theory Shm_Child
  imports Sim_Life Sim_Process
begin

text \<open>
  A child of the shared-memory simulation in detail: its \<^verbatim>\<open>main\<close> (the calls of \<open>Sim_Process\<close>) and the thread of its
  producer or consumer (the object of \<open>Sched_Object\<close>) run interleaved in one address space. \<open>Sim_Process\<close> takes the
  creation and the deletion of the worker for one call each; here they are the three and four
  steps of the object's life, the last but one of which waits for the thread. The detailed child is shown to
  refine the process of \<open>Sim_Process\<close>, whose worker is there exactly as long as the thread is, and its thread to use the
  queue only while the region is mapped.
\<close>

section \<open>The main function and the thread of a child\<close>

record shm_child =
  c_proc :: process
  c_obj :: life

text \<open>
  A step of \<^verbatim>\<open>new\<close> or \<^verbatim>\<open>delete\<close>; the last one completes the call. \<open>ok\<close> is the outcome of \<^verbatim>\<open>pthread_create\<close>, which the
  base constructor asserts.
\<close>

definition object_call :: "call \<Rightarrow> bool \<Rightarrow> call list \<Rightarrow> shm_child \<Rightarrow> shm_child option" where
  "object_call ins ok rest s =
     (if ins = New_worker \<and> owner (c_obj s) = Unborn \<and> \<not> ok then Some (s\<lparr>c_proc := exit_proc ABORTED (c_proc s)\<rparr>)
      else map_option (\<lambda>l. s\<lparr>c_obj := l,
         c_proc := (if owner l = (if ins = New_worker then Alive else Destroyed)
                    then (c_proc s)\<lparr>p_code := rest\<rparr> else c_proc s)\<rparr>)
       (owner_step (c_obj s)))"

text \<open>The next step of \<^verbatim>\<open>main\<close>; \<open>ok\<close> and \<open>live\<close> as in \<open>plain_step\<close>.\<close>

definition child_main :: "bool \<Rightarrow> nat \<Rightarrow> kernel \<Rightarrow> shm_child \<Rightarrow> (shm_child \<times> kernel) result option" where
  "child_main ok live k s =
     (case p_code (c_proc s) of
        [] \<Rightarrow> None
      | ins # rest \<Rightarrow>
          if ins = New_worker \<or> ins = Delete_worker then map_option (\<lambda>s'. Inr (s', k)) (object_call ins ok rest s)
          else Some (bind_result (plain_step ins ok live ((c_proc s)\<lparr>p_code := rest\<rparr>) k) (\<lambda>(p, k'). Inr (s\<lparr>c_proc := p\<rparr>, k'))))"

text \<open>
  The next step of the thread. The derived \<^verbatim>\<open>work\<close> calls \<^verbatim>\<open>push\<close> or \<^verbatim>\<open>pop\<close> through \<^verbatim>\<open>m_workq\<close>, which must be set and
  point to mapped memory.
\<close>

definition child_thread :: "shm_child \<Rightarrow> shm_child result option" where
  "child_thread s =
     (case thread_step (c_obj s) of
        None \<Rightarrow> None
      | Some l \<Rightarrow>
          if uses_queue (c_obj s) \<and> (members_unset (c_obj s) \<or> mapped (c_proc s) = None)
          then Some (Inl Null_dereference)
          else Some (Inr (s\<lparr>c_obj := l\<rparr>)))"

datatype child_event = Main_acts bool nat | Thread_runs

text \<open>A process that has exited makes no step; its threads are gone with it.\<close>

fun child_step :: "child_event \<Rightarrow> kernel \<Rightarrow> shm_child \<Rightarrow> (shm_child \<times> kernel) result option" where
  "child_step (Main_acts ok live) k s =
     (if status (c_proc s) = Running then child_main ok live k s else None)"
| "child_step Thread_runs k s =
     (if status (c_proc s) = Running then map_option (\<lambda>r. bind_result r (\<lambda>s'. Inr (s', k))) (child_thread s) else None)"

text \<open>Between its steps other processes may change the kernel: each event comes with the kernel as it is then.\<close>

fun child_run :: "(child_event \<times> kernel) list \<Rightarrow> shm_child \<Rightarrow> shm_child result option" where
  "child_run [] s = Some (Inr s)"
| "child_run ((e, k) # es) s =
     (case child_step e k s of
        None \<Rightarrow> None
      | Some (Inl f) \<Rightarrow> Some (Inl f)
      | Some (Inr (s', k')) \<Rightarrow> child_run es s')"

text \<open>The thread's first sleep outlasts the object's constructors.\<close>

fun child_in_time :: "(child_event \<times> kernel) list \<Rightarrow> shm_child \<Rightarrow> bool" where
  "child_in_time [] s = True"
| "child_in_time ((e, k) # es) s =
     ((e = Thread_runs \<longrightarrow> thr (c_obj s) = Sleeping \<longrightarrow> \<not> members_unset (c_obj s)) \<and>
      (case child_step e k s of Some (Inr (s', k')) \<Rightarrow> child_in_time es s' | _ \<Rightarrow> True))"

definition child_process :: "call list \<Rightarrow> process" where
  "child_process prog =
     \<lparr>status = Running, p_code = prog, p_fd = None, mapped = None, pids = (\<lambda>_. 0), worker = False, parent_of = Some 0,
      unlink_refused = False\<rparr>"

definition child_start :: "child \<Rightarrow> shm_child" where
  "child_start c = \<lparr>c_proc = child_process (shm_prog c), c_obj = unborn\<rparr>"

section \<open>The process of \<open>Sim_Process\<close> behind it\<close>

text \<open>
  It has its worker as long as the thread has not left \<^verbatim>\<open>run\<close>: its creation call has been made once the thread exists, and its deletion call
  once the thread has ended, wherever \<^verbatim>\<open>main\<close> is in its destructors.
\<close>

definition thread_lives :: "life \<Rightarrow> bool" where
  "thread_lives l \<longleftrightarrow> thr l \<noteq> No_thread \<and> thr l \<noteq> thread_pc.Exited"

definition call_made :: "call list \<Rightarrow> life \<Rightarrow> bool" where
  "call_made code l \<longleftrightarrow> code \<noteq> [] \<and>
     (hd code = New_worker \<and> thr l \<noteq> No_thread \<or> hd code = Delete_worker \<and> thr l = thread_pc.Exited)"

definition coarse :: "shm_child \<Rightarrow> process" where
  "coarse s =
     (let p = c_proc s
      in p\<lparr>worker := thread_lives (c_obj s), p_code := (if call_made (p_code p) (c_obj s) then tl (p_code p) else p_code p)\<rparr>)"

lemma coarse_simps [simp]:
  "worker (coarse s) = thread_lives (c_obj s)" "status (coarse s) = status (c_proc s)" "mapped (coarse s) = mapped (c_proc s)"
  by (simp_all add: coarse_def Let_def)

text \<open>Where \<^verbatim>\<open>main\<close> is, how far the object's life has come, and what is mapped; \<open>b\<close> is the exit code if \<^verbatim>\<open>mmap\<close> fails.\<close>

abbreviation after_new :: "call list" where
  "after_new \<equiv> [Sleep, Delete_worker, Munmap, Unlink, Exit 0]"

definition child_at :: "int \<Rightarrow> call list \<Rightarrow> owner_pc \<Rightarrow> process \<Rightarrow> bool" where
  "child_at b code o1 p \<longleftrightarrow>
     (code = Shm_attach (-1) # Mmap_or_exit b # New_worker # after_new \<and> o1 = Unborn) \<or>
     (code = Mmap_or_exit b # New_worker # after_new \<and> o1 = Unborn \<and> p_fd p \<noteq> None) \<or>
     (code = New_worker # after_new \<and> o1 \<in> {Unborn, Base_built, Derived_begun} \<and> mapped p \<noteq> None) \<or>
     (code = after_new \<and> o1 = Alive \<and> mapped p \<noteq> None) \<or>
     (code = tl after_new \<and> o1 \<in> {Alive, Derived_gone, Stopping, Joined} \<and> mapped p \<noteq> None) \<or>
     (code \<in> {[Munmap, Unlink, Exit 0], [Unlink, Exit 0], [Exit 0]} \<and> o1 = Destroyed)"

definition child_inv :: "int \<Rightarrow> shm_child \<Rightarrow> bool" where
  "child_inv b s \<longleftrightarrow>
     life_inv (c_obj s) \<and> \<not> worker (c_proc s) \<and>
     (case status (c_proc s) of
        Running \<Rightarrow> child_at b (p_code (c_proc s)) (owner (c_obj s)) (c_proc s)
      | Exited n \<Rightarrow> p_code (c_proc s) = [] \<and> (if n = 0 then owner (c_obj s) = Destroyed else owner (c_obj s) = Unborn)
      | Reaped n \<Rightarrow> False)"

lemma child_inv_start:
  assumes "shm_prog c = Shm_attach (-1) # Mmap_or_exit b # New_worker # after_new"
  shows "child_inv b (child_start c)"
  using assms life_inv_unborn
  by (simp add: child_inv_def child_start_def child_process_def child_at_def unborn_def)

lemma shm_progs:
  "shm_prog Producer_sim = Shm_attach (-1) # Mmap_or_exit (-1) # New_worker # after_new"
  "shm_prog Consumer_sim = Shm_attach (-1) # Mmap_or_exit (-2) # New_worker # after_new"
  by (simp_all add: shm_producer_main_def shm_consumer_main_def)

section \<open>The steps\<close>

text \<open>
  What the coarse process does in a step of the detailed one: nothing, or its next call, with the outcome that the event has. In a
  step of the thread that call can only be the deletion of the worker.
\<close>

definition coarse_step :: "child_event \<Rightarrow> kernel \<Rightarrow> process \<Rightarrow> process \<Rightarrow> kernel \<Rightarrow> bool" where
  "coarse_step e k p p' k' \<longleftrightarrow>
     p' = p \<and> k' = k \<or>
     (\<exists>ins rest. p_code p = ins # rest \<and>
        (case e of
           Main_acts ok live \<Rightarrow> plain_step ins ok live (p\<lparr>p_code := rest\<rparr>) k = Inr (p', k')
         | Thread_runs \<Rightarrow> ins = Delete_worker \<and> plain_step ins True 0 (p\<lparr>p_code := rest\<rparr>) k = Inr (p', k')))"

lemma coarse_step_stay: "coarse_step e k p p k"
  by (simp add: coarse_step_def)

lemma child_invD:
  assumes "child_inv b s" and "status (c_proc s) = Running"
  shows "life_inv (c_obj s)" "thread_ok (owner (c_obj s)) (thr (c_obj s))" "\<not> worker (c_proc s)"
    "child_at b (p_code (c_proc s)) (owner (c_obj s)) (c_proc s)"
  using assms by (simp_all add: child_inv_def life_inv_def)

lemma thread_step_alive:
  assumes "thread_step l = Some l'" and "life_inv l"
  shows "thread_lives l" and "thr l' \<noteq> No_thread" and "thr l' = thread_pc.Exited \<Longrightarrow> owner l = Stopping"
  using assms by (cases "thr l"; auto simp: thread_step_def thread_lives_def life_inv_def thread_ok_def runs_def
      split: if_splits; cases "owner l"; simp)+

text \<open>A step of the thread that is no fault: only its last one is a step of the coarse process.\<close>

lemma thread_step_ok:
  assumes "child_thread s = Some (Inr s')" and inv: "child_inv b s" and run: "status (c_proc s) = Running"
  shows "child_inv b s' \<and> coarse_step Thread_runs k (coarse s) (coarse s') k"
proof -
  obtain l where l: "thread_step (c_obj s) = Some l" and s': "s' = s\<lparr>c_obj := l\<rparr>"
    using assms(1) by (auto simp: child_thread_def split: option.splits if_splits)
  note own = thread_step_owner [OF l] and I = child_invD [OF inv run]
  note alive = thread_step_alive [OF l I(1)]
  have "child_inv b s'" using inv run thread_step_inv [OF l I(1)] by (simp add: child_inv_def own s')
  moreover have "coarse_step Thread_runs k (coarse s) (coarse s') k"
  proof (cases "thr l = thread_pc.Exited")
    case True
    then have "p_code (c_proc s) = tl after_new" using alive(3) I(4) by (auto simp: child_at_def)
    then show ?thesis
      using True alive(1) I(3) by (simp add: coarse_step_def coarse_def call_made_def thread_lives_def s' plain_step_def)
  next
    case False
    then have "coarse s' = coarse s" using alive(1,2) by (simp add: coarse_def call_made_def thread_lives_def s')
    then show ?thesis by (simp add: coarse_step_stay)
  qed
  ultimately show ?thesis ..
qed

lemma plain_main_ok:
  assumes code: "p_code (c_proc s) = ins # rest" and "ins \<noteq> New_worker" "ins \<noteq> Delete_worker" and inv: "child_inv b s"
    and run: "status (c_proc s) = Running" and b: "b \<noteq> 0" and step: "child_main ok live k s = Some r"
  shows "\<exists>s' k'. r = Inr (s', k') \<and> child_inv b s' \<and> c_obj s' = c_obj s \<and>
    coarse_step (Main_acts ok live) k (coarse s) (coarse s') k'"
proof -
  note I = child_invD [OF inv run]
  from step code assms(2,3) have r: "r = bind_result (plain_step ins ok live ((c_proc s)\<lparr>p_code := rest\<rparr>) k) (\<lambda>(p, k'). Inr (s\<lparr>c_proc := p\<rparr>, k'))"
    by (simp add: child_main_def)
  have coarse: "coarse s = (c_proc s)\<lparr>worker := thread_lives (c_obj s)\<rparr>"
    using code assms(2,3) by (simp add: coarse_def call_made_def Let_def)
  have gone: "owner (c_obj s) = Unborn \<Longrightarrow> thr (c_obj s) = No_thread" "owner (c_obj s) = Destroyed \<Longrightarrow> thr (c_obj s) = thread_pc.Exited"
    "owner (c_obj s) = Alive \<Longrightarrow> thr (c_obj s) \<noteq> No_thread \<and> thr (c_obj s) \<noteq> thread_pc.Exited"
    using I(2) by (simp_all add: thread_ok_def runs_def)
  obtain p k' where p: "plain_step ins ok live ((c_proc s)\<lparr>p_code := rest\<rparr>) k = Inr (p, k')"
    "child_inv b (s\<lparr>c_proc := p\<rparr>)"
    "plain_step ins ok live ((coarse s)\<lparr>p_code := rest\<rparr>) k = Inr (coarse (s\<lparr>c_proc := p\<rparr>), k')"
    using I(1,3,4) code run b assms(2,3) gone unfolding coarse
    by (cases ok; auto simp: child_at_def child_inv_def plain_step_def exit_proc_def coarse_def call_made_def thread_lives_def
        split: option.splits)
  moreover have "p_code (coarse s) = ins # rest" using code coarse by simp
  ultimately show ?thesis by (auto simp: r coarse_step_def)
qed

lemma object_main_ok:
  assumes code: "p_code (c_proc s) = ins # rest" and ins: "ins = New_worker \<or> ins = Delete_worker" and inv: "child_inv b s"
    and run: "status (c_proc s) = Running" and step: "child_main ok live k s = Some r"
  shows "\<exists>s' k'. r = Inr (s', k') \<and> child_inv b s' \<and> (c_obj s' = c_obj s \<or> owner_step (c_obj s) = Some (c_obj s')) \<and>
    coarse_step (Main_acts ok live) k (coarse s) (coarse s') k'"
proof -
  note I = child_invD [OF inv run]
  show ?thesis
  proof (cases "ins = New_worker \<and> owner (c_obj s) = Unborn \<and> \<not> ok")
    case True
    then have "thr (c_obj s) = No_thread" using I(2) by (simp add: thread_ok_def)
    moreover have "r = Inr (s\<lparr>c_proc := exit_proc ABORTED (c_proc s)\<rparr>, k)"
      using step code True by (simp add: child_main_def object_call_def)
    ultimately show ?thesis
      using True code I(1)
      by (auto simp: child_inv_def coarse_step_def coarse_def call_made_def thread_lives_def plain_step_def exit_proc_def ABORTED_def)
  next
    case False
    from step code ins False obtain l where l: "owner_step (c_obj s) = Some l"
      and r: "r = Inr (s\<lparr>c_obj := l, c_proc := (if owner l = (if ins = New_worker then Alive else Destroyed)
                             then (c_proc s)\<lparr>p_code := rest\<rparr> else c_proc s)\<rparr>, k)"
      by (auto simp: child_main_def object_call_def split: if_splits)
    have inv': "life_inv l" using owner_step_inv [OF l I(1)] .
    from ins show ?thesis
    proof
      assume new: "ins = New_worker"
      then have at: "rest = after_new" "owner (c_obj s) \<in> {Unborn, Base_built, Derived_begun}" "mapped (c_proc s) \<noteq> None"
        using I(4) code by (auto simp: child_at_def)
      have "thr l \<noteq> No_thread \<and> thr l \<noteq> thread_pc.Exited"
        using at(2) l I(2) by (auto simp: owner_step_def thread_ok_def runs_def)
      moreover have "owner (c_obj s) \<noteq> Unborn \<Longrightarrow> thr (c_obj s) = thr l \<and> thr (c_obj s) \<noteq> No_thread"
        "owner (c_obj s) = Unborn \<Longrightarrow> thr (c_obj s) = No_thread"
        using at(2) l I(2) by (auto simp: owner_step_def thread_ok_def)
      ultimately show ?thesis
        using at r inv' I(3) run code new owner_step_next [OF l] l False
        by (auto simp: child_inv_def child_at_def coarse_step_def coarse_def call_made_def thread_lives_def plain_step_def)
    next
      assume del: "ins = Delete_worker"
      then have at: "rest = tl (tl after_new)" "owner (c_obj s) \<in> {Alive, Derived_gone, Stopping, Joined}" "mapped (c_proc s) \<noteq> None"
        using I(4) code by (auto simp: child_at_def)
      have same: "thr l = thr (c_obj s)" "owner (c_obj s) = Joined \<Longrightarrow> thr (c_obj s) = thread_pc.Exited"
        using at(2) l I(2) by (auto simp: owner_step_def thread_ok_def split: if_splits)
      then have "coarse (fst (projr r)) = coarse s"
        using at r del code owner_step_next [OF l] by (auto simp: coarse_def call_made_def thread_lives_def)
      then show ?thesis
        using at r inv' I(3) run code del owner_step_next [OF l] l
        by (auto simp: child_inv_def child_at_def coarse_step_def)
    qed
  qed
qed

lemma child_main_ok:
  assumes "child_main ok live k s = Some r" and "child_inv b s" and "status (c_proc s) = Running" and "b \<noteq> 0"
  shows "\<exists>s' k'. r = Inr (s', k') \<and> child_inv b s' \<and> (c_obj s' = c_obj s \<or> owner_step (c_obj s) = Some (c_obj s')) \<and>
    coarse_step (Main_acts ok live) k (coarse s) (coarse s') k'"
proof -
  obtain ins rest where "p_code (c_proc s) = ins # rest"
    using assms(1) by (auto simp: child_main_def split: list.splits)
  then show ?thesis
    using plain_main_ok [OF _ _ _ assms(2,3,4,1)] object_main_ok [OF _ _ assms(2,3,1)] by blast
qed

text \<open>Any step that is no fault.\<close>

lemma child_step_ok:
  assumes "child_step e k s = Some (Inr (s', k'))" and "child_inv b s" and "b \<noteq> 0"
  shows "child_inv b s' \<and> coarse_step e k (coarse s) (coarse s') k'"
proof (cases e)
  case (Main_acts ok live)
  with assms(1) have "status (c_proc s) = Running" "child_main ok live k s = Some (Inr (s', k'))" by (simp_all split: if_splits)
  with child_main_ok [OF _ assms(2) _ assms(3)] Main_acts show ?thesis by blast
next
  case Thread_runs
  with assms(1) obtain r0 where r0: "status (c_proc s) = Running" "child_thread s = Some r0"
    "bind_result r0 (\<lambda>s'. Inr (s', k)) = Inr (s', k')" by (auto split: if_splits)
  then have t: "status (c_proc s) = Running" "child_thread s = Some (Inr s')" "k' = k" by (cases r0; simp)+
  from thread_step_ok [OF t(2) assms(2) t(1)] Thread_runs t(3) show ?thesis by simp
qed

text \<open>A thread that sleeps until its object is built has no fault.\<close>

lemma child_step_no_fault:
  assumes "child_step e k s = Some r" and inv: "child_inv b s" and "b \<noteq> 0" and asleep: "asleep_until_built (c_obj s)"
    and in_time: "e = Thread_runs \<longrightarrow> thr (c_obj s) = Sleeping \<longrightarrow> \<not> members_unset (c_obj s)"
  shows "\<exists>s' k'. r = Inr (s', k') \<and> asleep_until_built (c_obj s')"
proof (cases e)
  case (Main_acts ok live)
  with assms(1) have "status (c_proc s) = Running" "child_main ok live k s = Some r" by (simp_all split: if_splits)
  from child_main_ok [OF this(2) inv this(1) assms(3)] show ?thesis using asleep owner_step_asleep by metis
next
  case Thread_runs
  with assms(1) obtain r0 where r0: "status (c_proc s) = Running" "child_thread s = Some r0" "r = bind_result r0 (\<lambda>s'. Inr (s', k))"
    by (auto split: if_splits)
  then obtain l where l: "thread_step (c_obj s) = Some l" by (auto simp: child_thread_def split: option.splits)
  note I = child_invD [OF inv r0(1)]
  have "mapped (c_proc s) \<noteq> None"
    using I(4) thread_step_present [OF l I(1)] by (auto simp: child_at_def present_def)
  moreover have "\<not> members_unset (c_obj s)" if "uses_queue (c_obj s)"
    using uses_queue_moving [OF that] asleep by (auto simp: asleep_until_built_def)
  ultimately have "r0 = Inr (s\<lparr>c_obj := l\<rparr>)" using r0(2) l by (auto simp: child_thread_def split: if_splits)
  with r0(3) thread_step_asleep [OF l asleep] in_time Thread_runs show ?thesis by simp
qed

lemma child_run_ok:
  "child_run es s = Some (Inr s') \<Longrightarrow> child_inv b s \<Longrightarrow> b \<noteq> 0 \<Longrightarrow> child_inv b s'"
proof (induction es arbitrary: s)
  case (Cons ek es)
  obtain e k where ek: "ek = (e, k)" by fastforce
  with Cons.prems(1) obtain s1 k1 where s1: "child_step e k s = Some (Inr (s1, k1))" "child_run es s1 = Some (Inr s')"
    by (auto split: option.splits sum.splits)
  with child_step_ok [OF s1(1) Cons.prems(2,3)] Cons.IH [OF s1(2) _ Cons.prems(3)] show ?case by blast
qed simp

lemma child_run_no_fault:
  "child_run es s = Some r \<Longrightarrow> child_in_time es s \<Longrightarrow> child_inv b s \<Longrightarrow> b \<noteq> 0 \<Longrightarrow> asleep_until_built (c_obj s) \<Longrightarrow> \<exists>s'. r = Inr s'"
proof (induction es arbitrary: s)
  case (Cons ek es)
  obtain e k where ek: "ek = (e, k)" by fastforce
  from Cons.prems(1) ek obtain r1 where r1: "child_step e k s = Some r1" by (auto split: option.splits)
  from child_step_no_fault [OF this Cons.prems(3,4,5)] Cons.prems(2) ek obtain s1 k1 where
    s1: "r1 = Inr (s1, k1)" "asleep_until_built (c_obj s1)" by auto
  with child_step_ok [of e k s s1 k1, OF _ Cons.prems(3,4)] r1 Cons.prems ek show ?case by (intro Cons.IH [of s1]) simp_all
qed auto

lemma child_of_prog:
  obtains b where "b \<noteq> 0" "child_inv b (child_start c)"
proof (cases c)
  case Producer_sim
  have "child_inv (-1) (child_start c)" unfolding Producer_sim by (rule child_inv_start [OF shm_progs(1)])
  then show ?thesis by (rule that [rotated]) simp
next
  case Consumer_sim
  have "child_inv (-2) (child_start c)" unfolding Consumer_sim by (rule child_inv_start [OF shm_progs(2)])
  then show ?thesis by (rule that [rotated]) simp
qed

section \<open>Properties\<close>

text \<open>
  C26: The thread of a child never uses the queue when the shared memory is not mapped. Whatever calls fail (a thread
  that cannot be made aborts the child), whatever other processes do to the kernel's state in between and however \<^verbatim>\<open>main\<close> and
  the thread interleave, on the one condition that the object's constructors take less than the thread's first sleep, there is no fault;
  as long as the thread exists
  the region is mapped; and a child that has left with 0 has destroyed its object, whose thread has ended.
\<close>

theorem shm_child_keeps_region:
  assumes "child_run es (child_start c) = Some r" and "child_in_time es (child_start c)"
  shows "\<exists>s. r = Inr s \<and>
    (status (c_proc s) = Running \<and> thr (c_obj s) \<notin> {No_thread, thread_pc.Exited} \<longrightarrow> mapped (c_proc s) \<noteq> None) \<and>
    (status (c_proc s) = Exited 0 \<longrightarrow> owner (c_obj s) = Destroyed \<and> thr (c_obj s) = thread_pc.Exited)"
proof -
  obtain b where b: "b \<noteq> 0" "child_inv b (child_start c)" by (rule child_of_prog)
  have "asleep_until_built (c_obj (child_start c))"
    by (simp add: child_start_def asleep_until_built_def members_unset_def unborn_def)
  with child_run_no_fault [OF assms b(2,1)] obtain s where s: "r = Inr s" by blast
  with child_run_ok [OF _ b(2,1)] assms(1) have inv: "child_inv b s" by blast
  then have I: "thread_ok (owner (c_obj s)) (thr (c_obj s))" using life_invD(3) by (simp add: child_inv_def)
  have "mapped (c_proc s) \<noteq> None" if "status (c_proc s) = Running" "thr (c_obj s) \<notin> {No_thread, thread_pc.Exited}"
    using inv I that by (auto simp: child_inv_def child_at_def thread_ok_def)
  moreover have "owner (c_obj s) = Destroyed \<and> thr (c_obj s) = thread_pc.Exited" if "status (c_proc s) = Exited 0"
    using inv I that by (simp add: child_inv_def thread_ok_def)
  ultimately show ?thesis using s by blast
qed

text \<open>
  C27: The detailed child refines the process of \<open>Sim_Process\<close>, which has its worker exactly while the detailed child's thread has not left
  \<^verbatim>\<open>run\<close>: each step of \<^verbatim>\<open>main\<close> or the thread from a reachable state, unless it is a fault, is the next call of that process with
  the same outcome and the same effect on the process and on the kernel, or changes neither; of the thread's steps only its last is
  a call, the deletion of the worker. And the process that is refined has no worker once the region is unmapped or
  it has exited: \<^verbatim>\<open>main\<close> cannot overtake the thread.
\<close>

theorem shm_child_refines_process:
  assumes "child_run es (child_start c) = Some (Inr s)" and "child_step e k s = Some (Inr (s', k'))"
  shows "coarse (child_start c) = child_process (shm_prog c) \<and> coarse_step e k (coarse s) (coarse s') k' \<and>
    (worker (coarse s') \<longleftrightarrow> thr (c_obj s') \<notin> {No_thread, thread_pc.Exited}) \<and>
    (worker (coarse s') \<longrightarrow> status (coarse s') = Running \<and> mapped (coarse s') \<noteq> None)"
proof -
  obtain b where b: "b \<noteq> 0" "child_inv b (child_start c)" by (rule child_of_prog)
  have "child_inv b s" by (rule child_run_ok [OF assms(1) b(2,1)])
  from child_step_ok [OF assms(2) this b(1)] have step: "child_inv b s'" "coarse_step e k (coarse s) (coarse s') k'" by simp_all
  have "status (c_proc s') = Running \<and> mapped (c_proc s') \<noteq> None" if "thread_lives (c_obj s')"
    using step(1) that by (auto simp: child_inv_def child_at_def thread_lives_def life_inv_def thread_ok_def split: status.splits if_splits)
  moreover have "coarse (child_start c) = child_process (shm_prog c)"
    by (simp add: coarse_def call_made_def thread_lives_def child_start_def child_process_def unborn_def Let_def shm_producer_main_def
      shm_consumer_main_def)
  ultimately show ?thesis using step(2) by (auto simp: thread_lives_def)
qed

text \<open>A producer that runs to its end, with one call of \<^verbatim>\<open>work\<close>.\<close>

definition sample_kernel :: kernel where
  "sample_kernel = \<lparr>k_name = Some 0, objects = [(True, True)], report_log = []\<rparr>"

definition sample_child_run :: "(child_event \<times> kernel) list" where
  "sample_child_run = map (\<lambda>e. (e, sample_kernel))
     (replicate 5 (Main_acts True 0) @ replicate 4 Thread_runs @ replicate 3 (Main_acts True 0) @ replicate 2 Thread_runs @
      replicate 5 (Main_acts True 0))"

lemmas child_run_simps =
  sample_child_run_def sample_kernel_def child_start_def child_process_def shm_producer_main_def child_main_def object_call_def child_thread_def
  plain_step_def exit_proc_def life_step_defs uses_queue_def members_unset_def numeral_eq_Suc

definition sample_child_end :: shm_child where
  "sample_child_end =
     \<lparr>c_proc = exit_proc 0 ((child_process [])\<lparr>p_fd := Some 0\<rparr>),
      c_obj = \<lparr>owner = Destroyed, thr = thread_pc.Exited, m_run = False, vptr = Base_work, works = [(Derived_work, Alive)]\<rparr>\<rparr>"

lemma sample_child:
  "child_run sample_child_run (child_start Producer_sim) = Some (Inr sample_child_end)"
  "child_in_time sample_child_run (child_start Producer_sim)"
  by (simp_all add: child_run_simps sample_child_end_def)

theorem shm_child_keeps_region_witness:
  "owner (c_obj sample_child_end) = Destroyed \<and> thr (c_obj sample_child_end) = thread_pc.Exited"
proof -
  have "status (c_proc sample_child_end) = Exited 0" by (simp add: sample_child_end_def exit_proc_def)
  with shm_child_keeps_region [OF sample_child] show ?thesis by simp
qed

text \<open>The step in which the producer's thread ends, while \<^verbatim>\<open>main\<close> waits for it.\<close>

definition leaving_run :: "(child_event \<times> kernel) list" where
  "leaving_run = map (\<lambda>e. (e, sample_kernel))
     (replicate 5 (Main_acts True 0) @ replicate 4 Thread_runs @ replicate 3 (Main_acts True 0) @ [Thread_runs])"

theorem shm_child_refines_process_witness:
  "\<exists>s s'. child_run leaving_run (child_start Producer_sim) = Some (Inr s) \<and>
     child_step Thread_runs sample_kernel s = Some (Inr (s', sample_kernel)) \<and>
     worker (coarse s) \<and> \<not> worker (coarse s') \<and> coarse_step Thread_runs sample_kernel (coarse s) (coarse s') sample_kernel"
proof -
  obtain s s' where s: "child_run leaving_run (child_start Producer_sim) = Some (Inr s)"
    "child_step Thread_runs sample_kernel s = Some (Inr (s', sample_kernel))" "thr (c_obj s) = Test_run" "thr (c_obj s') = thread_pc.Exited"
    by (simp add: child_run_simps leaving_run_def)
  from shm_child_refines_process [OF s(1,2)] s(3,4)
  have "coarse_step Thread_runs sample_kernel (coarse s) (coarse s') sample_kernel" "\<not> worker (coarse s')" by auto
  moreover have "worker (coarse s)" using s(3) by (simp add: thread_lives_def)
  ultimately show ?thesis using s(1,2) by blast
qed

end
