(* ===== verification/Net_Item.thy ===== *)
theory Net_Item
  imports Codec
begin

unbundle bit_operations_syntax

text \<open>
  The work item of Chapter 15 that clients send to the server: 512 bytes of data, a checksum of
  16 bits over the data, and a name of 30 bytes. The checksum is computed as the code does it,
  over 32-bit words, and shown equal to a plain description over 16-bit words, from which
  follows what damage it finds and what it does not.
\<close>

definition DATA_LEN :: nat where "DATA_LEN = 512"
definition DATA_SEG_COUNT :: nat where "DATA_SEG_COUNT = DATA_LEN div 4"
definition CHECKSUM_PATTERN :: "32 word" where "CHECKSUM_PATTERN = 0xAF76"
definition NAME_LEN :: nat where "NAME_LEN = 30"

record net_item =
  n_data :: "byte list"
  n_checksum :: "16 word"
  n_name :: "byte list"

definition wf_net_item :: "net_item \<Rightarrow> bool" where
  "wf_net_item x \<longleftrightarrow> length (n_data x) = DATA_LEN \<and> length (n_name x) = NAME_LEN"

section \<open>The checksum\<close>

text \<open>\<^verbatim>\<open>*dataptr\<close>: the 32-bit word at the front of the data, lowest byte first.\<close>

definition load_word :: "byte list \<Rightarrow> 32 word" where
  "load_word d =
     ucast (d ! 0) OR push_bit 8 (ucast (d ! 1)) OR push_bit 16 (ucast (d ! 2)) OR push_bit 24 (ucast (d ! 3))"

fun xor_loop :: "nat \<Rightarrow> byte list \<Rightarrow> 32 word \<Rightarrow> 32 word" where
  "xor_loop 0 d r = r"
| "xor_loop (Suc k) d r = xor_loop k (drop 4 d) (r XOR load_word d)"

definition mix :: "32 word \<Rightarrow> 16 word" where
  "mix r =
     (let r1 = r XOR CHECKSUM_PATTERN;
          r2 = (if r1 AND 0x80000000 \<noteq> 0 then push_bit 1 r1 OR 1 else push_bit 1 r1)
      in ucast (0xFFFF AND (drop_bit 16 r2 XOR r2)))"

definition generateChecksum :: "byte list \<Rightarrow> 16 word" where
  "generateChecksum d = mix (xor_loop DATA_SEG_COUNT d 0)"

section \<open>Construction and validation\<close>

definition c_prefix :: "nat \<Rightarrow> byte list \<Rightarrow> byte list" where
  "c_prefix n src = take n (takeWhile (\<lambda>c. c \<noteq> 0) src)"

text \<open>
  \<^verbatim>\<open>strncpy\<close> into the 30 bytes of the name: up to the terminator or 30 bytes, the rest zeros;
  the source is read past its end when it has neither.
\<close>

definition strncpy :: "nat \<Rightarrow> byte list \<Rightarrow> byte list result" where
  "strncpy n src =
     (let s = c_prefix n src in
      if length s < n \<and> length s = length src then Inl Out_of_bounds
      else Inr (s @ replicate (n - length s) 0))"

definition copy_data :: "byte list option \<Rightarrow> int \<Rightarrow> byte list result" where
  "copy_data data len =
     (case data of
        None \<Rightarrow> Inr (replicate DATA_LEN 0)
      | Some src \<Rightarrow>
          if 0 \<le> len \<and> len \<le> int DATA_LEN \<and> len \<le> int (length src)
          then Inr (take (nat len) src @ replicate (DATA_LEN - nat len) 0)
          else Inl Out_of_bounds)"

definition new_net_item :: "byte list \<Rightarrow> byte list option \<Rightarrow> int \<Rightarrow> net_item result" where
  "new_net_item name data len =
     bind_result (strncpy NAME_LEN name) (\<lambda>nm.
     bind_result (copy_data data len) (\<lambda>d.
       Inr \<lparr>n_data = d, n_checksum = generateChecksum d, n_name = nm\<rparr>))"

definition net_validate :: "net_item \<Rightarrow> bool" where
  "net_validate x \<longleftrightarrow> generateChecksum (n_data x) = n_checksum x"

section \<open>The checksum over 16-bit words\<close>

definition half :: "byte \<Rightarrow> byte \<Rightarrow> 16 word" where
  "half a b = ucast a OR push_bit 8 (ucast b)"

fun half_sum :: "byte list \<Rightarrow> 16 word" where
  "half_sum (a # b # d) = half a b XOR half_sum d"
| "half_sum _ = 0"

text \<open>Rotation to the left by one bit.\<close>

definition rotate_left :: "16 word \<Rightarrow> 16 word" where
  "rotate_left h = push_bit 1 h OR drop_bit 15 h"

definition fold_half :: "32 word \<Rightarrow> 16 word" where
  "fold_half w = ucast w XOR ucast (drop_bit 16 w)"

lemma fold_half_xor: "fold_half (v XOR w) = fold_half v XOR fold_half w"
  by (rule bit_word_eqI) (auto simp: fold_half_def bit_simps)

lemma half_xor: "half (a XOR a') (b XOR b') = half a b XOR half a' b'"
proof (rule bit_word_eqI)
  fix n
  show "bit (half (a XOR a') (b XOR b')) n = bit (half a b XOR half a' b') n"
    by (cases "n < 8") (auto simp: half_def bit_simps dest: bit_imp_le_length)
qed

lemma fold_half_load: "4 \<le> length d \<Longrightarrow> fold_half (load_word d) = half (d ! 0) (d ! 1) XOR half (d ! 2) (d ! 3)"
proof (rule bit_word_eqI)
  fix n assume n: "n < LENGTH(16)"
  show "bit (fold_half (load_word d)) n = bit (half (d ! 0) (d ! 1) XOR half (d ! 2) (d ! 3)) n"
    using n by (cases "n < 8")
      (auto simp: half_def fold_half_def load_word_def bit_simps dest: bit_imp_le_length)
qed

lemma four_bytes:
  assumes "length d = 4 * Suc k"
  obtains a b c e d' where "d = a # b # c # e # d'" "length d' = 4 * k"
  using assms by (cases d; cases "tl d"; cases "tl (tl d)"; cases "tl (tl (tl d))") auto

lemma fold_half_xor_loop:
  "length d = 4 * k \<Longrightarrow> fold_half (xor_loop k d r) = fold_half r XOR half_sum d"
proof (induction k arbitrary: d r)
  case (Suc k)
  from Suc.prems obtain a b c e d' where d: "d = a # b # c # e # d'" "length d' = 4 * k"
    by (rule four_bytes)
  have "fold_half (xor_loop (Suc k) d r) = fold_half (r XOR load_word d) XOR half_sum d'"
    using Suc.IH [OF d(2)] by (simp add: d(1))
  also have "fold_half (r XOR load_word d) = fold_half r XOR (half a b XOR half c e)"
    using fold_half_load [of d] by (simp add: fold_half_xor d(1))
  finally show ?case by (simp add: d(1) xor.assoc)
qed simp

lemma bit_push_one:
  "bit (push_bit 1 (w :: 'a::len word)) n \<longleftrightarrow> n < LENGTH('a) \<and> n \<noteq> 0 \<and> bit w (n - 1)"
  unfolding bit_push_bit_iff by (auto simp: Suc_le_eq possible_bit_word)

lemma bit_rotate_32:
  fixes w :: "32 word"
  assumes "m < 32"
  shows "bit (if bit w 31 then push_bit 1 w OR 1 else push_bit 1 w) m \<longleftrightarrow> bit w (if m = 0 then 31 else m - 1)"
proof (cases "bit w 31")
  case True
  show ?thesis
    unfolding if_P [OF True] bit_or_iff bit_push_one bit_1_iff using True assms by auto
next
  case False
  show ?thesis
    unfolding if_not_P [OF False] bit_push_one using False assms by auto
qed

lemma bit_rotate_left: "n < 16 \<Longrightarrow> bit (rotate_left h) n \<longleftrightarrow> bit h (if n = 0 then 15 else n - 1)"
  unfolding rotate_left_def bit_or_iff bit_push_one by (auto simp: bit_drop_bit_eq dest: bit_imp_le_length)

lemma mix_rotates: "mix r = rotate_left (fold_half (r XOR CHECKSUM_PATTERN))"
proof (rule bit_word_eqI)
  fix n assume n: "n < LENGTH(16)"
  let ?r = "r XOR CHECKSUM_PATTERN"
  let ?r2 = "if ?r AND 0x80000000 \<noteq> 0 then push_bit 1 ?r OR 1 else push_bit 1 ?r"
  have top: "?r AND 0x80000000 \<noteq> 0 \<longleftrightarrow> bit ?r 31"
  proof -
    have "push_bit 31 (1 :: 32 word) = 0x80000000" by simp
    with bit_iff_and_push_bit_not_eq_0 [of ?r 31] show ?thesis by simp
  qed
  have r2: "bit ?r2 m \<longleftrightarrow> bit ?r (if m = 0 then 31 else m - 1)" if "m < 32" for m
    unfolding top using that by (rule bit_rotate_32)
  have mask: "bit (0xFFFF :: 32 word) n"
    using n bit_mask_iff [of 16 n, where 'a = "32 word"] by (simp add: mask_eq_exp_minus_1)
  have "bit (mix r) n \<longleftrightarrow> bit (0xFFFF AND (drop_bit 16 ?r2 XOR ?r2)) n"
    using n by (simp add: mix_def Let_def bit_ucast_iff)
  also have "\<dots> \<longleftrightarrow> bit ?r2 (16 + n) \<noteq> bit ?r2 n"
    using mask by (simp only: bit_and_iff bit_xor_iff bit_drop_bit_eq comp_def) simp
  also have "\<dots> \<longleftrightarrow> bit ?r (15 + n) \<noteq> bit ?r (if n = 0 then 31 else n - 1)"
    using r2 [of "16 + n"] r2 [of n] n by simp
  also have "\<dots> \<longleftrightarrow> bit (fold_half ?r) (if n = 0 then 15 else n - 1)"
    using n by (cases n) (auto simp: fold_half_def bit_xor_iff bit_ucast_iff bit_drop_bit_eq)
  also have "\<dots> \<longleftrightarrow> bit (rotate_left (fold_half ?r)) n"
    using n by (intro bit_rotate_left [symmetric]) simp
  finally show "bit (mix r) n = bit (rotate_left (fold_half ?r)) n" .
qed

lemma generateChecksum_halves:
  assumes "length d = DATA_LEN"
  shows "generateChecksum d = rotate_left (0xAF76 XOR half_sum d)"
proof -
  have "length d = 4 * DATA_SEG_COUNT" using assms by (simp add: DATA_LEN_def DATA_SEG_COUNT_def)
  then have "fold_half (xor_loop DATA_SEG_COUNT d 0) = half_sum d"
    by (simp add: fold_half_xor_loop) (simp add: fold_half_def)
  moreover have "fold_half CHECKSUM_PATTERN = 0xAF76"
    by (simp add: fold_half_def CHECKSUM_PATTERN_def)
  ultimately show ?thesis
    by (simp add: generateChecksum_def mix_rotates fold_half_xor xor.commute)
qed

lemma rotate_left_inj: "rotate_left g = rotate_left h \<longleftrightarrow> g = h"
proof
  assume eq: "rotate_left g = rotate_left h"
  show "g = h"
  proof (rule bit_word_eqI)
    fix n assume n: "n < LENGTH(16)"
    have bits: "bit (rotate_left w) (if n = 15 then 0 else Suc n) = bit w n" for w :: "16 word"
      using n by (auto simp: bit_rotate_left)
    from bits [of g] bits [of h] eq show "bit g n = bit h n" by simp
  qed
qed simp

lemma xor_cancel: "(c :: 'a::len word) XOR a = c XOR b \<longleftrightarrow> a = b"
proof
  assume "c XOR a = c XOR b"
  then have "c XOR (c XOR a) = c XOR (c XOR b)" by simp
  then show "a = b" by (simp flip: xor.assoc)
qed simp

text \<open>Two blocks of data have the same checksum exactly when their sums over 16-bit words agree.\<close>

lemma checksum_eq_iff:
  assumes "length d = DATA_LEN" and "length d' = DATA_LEN"
  shows "generateChecksum d = generateChecksum d' \<longleftrightarrow> half_sum d = half_sum d'"
proof -
  show ?thesis
    unfolding generateChecksum_halves [OF assms(1)] generateChecksum_halves [OF assms(2)]
      rotate_left_inj by (rule xor_cancel)
qed

lemma half_0: "half 0 0 = 0"
  by (simp add: half_def)

lemma half_eq_0: "half a b = 0 \<Longrightarrow> a = 0 \<and> b = 0"
proof -
  assume h: "half a b = 0"
  have "\<not> bit a n" if "n < 8" for n
  proof -
    have "bit (half a b) n = bit a n" using that by (simp add: half_def bit_simps)
    with h show ?thesis by simp
  qed
  moreover have "\<not> bit b n" if "n < 8" for n
  proof -
    have "bit (half a b) (n + 8) = bit b n"
      using that by (auto simp: half_def bit_simps dest: bit_imp_le_length)
    with h show ?thesis by simp
  qed
  ultimately show ?thesis by (auto intro!: bit_word_eqI)
qed

lemma half_zero_iff: "half a b = 0 \<longleftrightarrow> a = 0 \<and> b = 0"
  using half_eq_0 [of a b] half_0 by blast

text \<open>A changed byte changes one of the two bytes of the sum.\<close>

lemma half_sum_update:
  assumes "even (length d)" and "i < length d"
  shows "half_sum (d[i := b]) = half_sum d XOR (if even i then half (d ! i XOR b) 0 else half 0 (d ! i XOR b))"
  using assms
proof (induction d arbitrary: i rule: half_sum.induct)
  case (1 x y d)
  consider "i = 0" | "i = 1" | j where "i = Suc (Suc j)" "j < length d"
    using 1(3) by (cases i; cases "i - 1") auto
  then show ?case
  proof cases
    case 1
    have "half b y = half x y XOR half (x XOR b) 0"
      by (simp flip: half_xor)
    with 1 show ?thesis by (simp add: ac_simps)
  next
    case 2
    have "half x b = half x y XOR half 0 (y XOR b)"
      by (simp flip: half_xor)
    with 2 show ?thesis by (simp add: ac_simps)
  next
    case 3
    with 1 show ?thesis by (simp add: ac_simps)
  qed
qed simp_all

lemma xor_eq_self_iff: "(h :: 'a::len word) XOR e = h \<longleftrightarrow> e = 0"
  using xor_cancel [of h e 0] by simp

lemma byte_xor_0: "(a :: byte) XOR b = 0 \<longleftrightarrow> a = b"
  using xor_cancel [of a b a] by auto

section \<open>Items as bytes\<close>

definition NET_ITEM_SIZE :: nat where "NET_ITEM_SIZE = 544"

definition net_item_bytes :: "net_item \<Rightarrow> byte list" where
  "net_item_bytes x = n_data x @ le_bytes 2 (unat (n_checksum x)) @ n_name x"

definition net_item_of_bytes :: "byte list \<Rightarrow> net_item" where
  "net_item_of_bytes bs =
     \<lparr>n_data = take DATA_LEN bs, n_checksum = of_nat (le_value (take 2 (drop DATA_LEN bs))),
      n_name = drop (DATA_LEN + 2) bs\<rparr>"

interpretation net_codec: fixed_codec net_item_bytes net_item_of_bytes NET_ITEM_SIZE wf_net_item
proof unfold_locales
  show "0 < NET_ITEM_SIZE" by (simp add: NET_ITEM_SIZE_def)
  show "wf_net_item x \<Longrightarrow> length (net_item_bytes x) = NET_ITEM_SIZE" for x
    by (simp add: net_item_bytes_def wf_net_item_def DATA_LEN_def NAME_LEN_def NET_ITEM_SIZE_def)
  show "net_item_of_bytes (net_item_bytes x) = x" if "wf_net_item x" for x
  proof -
    have "unat (n_checksum x) < 2 ^ LENGTH(16)" by (rule unsigned_less)
    then have "le_value (le_bytes 2 (unat (n_checksum x))) = unat (n_checksum x)"
      by (intro le_value_bytes) simp
    with that show ?thesis by (simp add: net_item_of_bytes_def net_item_bytes_def wf_net_item_def)
  qed
qed

section \<open>Names\<close>

text \<open>
  \<^verbatim>\<open>getName\<close> returns the array, which is printed up to its terminator; without one the read
  runs past the item.
\<close>

definition getName :: "net_item \<Rightarrow> byte list result" where
  "getName x = (if 0 \<in> set (n_name x) then Inr (c_string (n_name x)) else Inl Out_of_bounds)"

lemma takeWhile_short: "length (takeWhile P xs) = length xs \<Longrightarrow> takeWhile P xs = xs"
  by (metis takeWhile_eq_take take_all order_refl)

lemma strncpy_ok:
  assumes "0 \<in> set name"
  shows "strncpy n name = Inr (c_prefix n name @ replicate (n - length (c_prefix n name)) 0)"
proof -
  have "length (takeWhile (\<lambda>c. c \<noteq> 0) name) < length name"
    using assms takeWhile_short [of "\<lambda>c. c \<noteq> 0" name] length_takeWhile_le [of "\<lambda>c. c \<noteq> 0" name]
    by (metis le_neq_implies_less set_takeWhileD)
  then have "length (c_prefix n name) \<noteq> length name" by (simp add: c_prefix_def)
  then show ?thesis by (simp add: strncpy_def Let_def)
qed

lemma new_net_item_take:
  assumes "0 \<in> set name" and "0 \<le> len" and "len \<le> int DATA_LEN" and "len \<le> int (length data)"
  shows "\<exists>x. new_net_item name (Some data) len = Inr x \<and> wf_net_item x \<and> net_validate x \<and>
    n_data x = take (nat len) data @ replicate (DATA_LEN - nat len) 0 \<and>
    n_name x = c_prefix NAME_LEN name @ replicate (NAME_LEN - length (c_prefix NAME_LEN name)) 0"
  using assms strncpy_ok [OF assms(1), of NAME_LEN]
  by (simp add: new_net_item_def copy_data_def wf_net_item_def net_validate_def c_prefix_def nat_le_iff)

lemma new_net_item_ok:
  assumes "0 \<in> set name" and "length data \<le> DATA_LEN"
  shows "\<exists>x. new_net_item name (Some data) (int (length data)) = Inr x \<and> wf_net_item x \<and>
    n_data x = data @ replicate (DATA_LEN - length data) 0 \<and> net_validate x"
  using new_net_item_take [OF assms(1), of "int (length data)" data] assms(2) by auto

lemma c_string_zeros:
  assumes "\<forall>c \<in> set s. c \<noteq> 0" and "0 < k"
  shows "c_string (s @ replicate k 0) = s"
proof -
  obtain j where "k = Suc j" using assms(2) by (cases k) auto
  then show ?thesis using c_string_text [of s "replicate j 0"] assms(1) by simp
qed

text \<open>A name of fewer than 30 characters is read back as it was given.\<close>

lemma name_kept:
  assumes "0 \<in> set name" and "length (c_string name) < NAME_LEN"
    and "n_name x = c_prefix NAME_LEN name @ replicate (NAME_LEN - length (c_prefix NAME_LEN name)) 0"
  shows "getName x = Inr (c_string name)"
proof -
  have pre: "c_prefix NAME_LEN name = c_string name"
    using assms(2) by (simp add: c_prefix_def c_string_def)
  then have n: "n_name x = c_string name @ replicate (NAME_LEN - length (c_string name)) 0"
    using assms(3) by simp
  moreover have "c_string (n_name x) = c_string name"
    unfolding n by (rule c_string_zeros) (use assms(2) in \<open>auto simp: c_string_def dest: set_takeWhileD\<close>)
  ultimately show ?thesis using assms(2) by (simp add: getName_def)
qed

section \<open>Properties\<close>

text \<open>
  C34: The checksum, computed over 32-bit words with a rotation and a fold, is the sum (exclusive or)
  of the 256 16-bit words of the data and the pattern 0xAF76, rotated by one bit.
\<close>

theorem checksum_is_rotated_sum:
  assumes "length d = DATA_LEN"
  shows "generateChecksum d = rotate_left (0xAF76 XOR half_sum d)"
  using assms by (rule generateChecksum_halves)

theorem checksum_is_rotated_sum_witness:
  "generateChecksum (replicate 512 0) = 0x5EED"
proof -
  have "half_sum (replicate (2 * k) 0) = 0" for k
    by (induction k) (simp_all add: half_def)
  from this [of 256] have zero: "half_sum (replicate 512 0) = 0" by simp
  have "generateChecksum (replicate 512 0) = rotate_left (0xAF76 XOR half_sum (replicate 512 0))"
    by (rule checksum_is_rotated_sum) (simp add: DATA_LEN_def)
  then show ?thesis unfolding zero by (simp add: rotate_left_def)
qed

text \<open>
  C33: An item made from a name and at most 512 bytes of data carries the data and validates, and its
  validation fails after any single byte of the data was changed to another value.
\<close>

theorem damaged_byte_detected:
  assumes "0 \<in> set name" and "length data \<le> DATA_LEN" and "i < DATA_LEN"
  shows "\<exists>x. new_net_item name (Some data) (int (length data)) = Inr x \<and>
    n_data x = data @ replicate (DATA_LEN - length data) 0 \<and> net_validate x \<and>
    (\<forall>b. net_validate (x\<lparr>n_data := (n_data x)[i := b]\<rparr>) \<longleftrightarrow> b = n_data x ! i)"
proof -
  from new_net_item_ok [OF assms(1,2)] obtain x where
    x: "new_net_item name (Some data) (int (length data)) = Inr x" "wf_net_item x" "net_validate x"
      "n_data x = data @ replicate (DATA_LEN - length data) 0"
    by blast
  have len: "length (n_data x) = DATA_LEN" using x(2) by (simp add: wf_net_item_def)
  have "net_validate (x\<lparr>n_data := (n_data x)[i := b]\<rparr>) \<longleftrightarrow> b = n_data x ! i" for b
  proof -
    have "net_validate (x\<lparr>n_data := (n_data x)[i := b]\<rparr>) \<longleftrightarrow>
        generateChecksum ((n_data x)[i := b]) = generateChecksum (n_data x)"
      using x(3) by (simp add: net_validate_def)
    also have "\<dots> \<longleftrightarrow> half_sum ((n_data x)[i := b]) = half_sum (n_data x)"
      by (rule checksum_eq_iff) (simp_all add: len)
    also have "\<dots> \<longleftrightarrow> (if even i then half (n_data x ! i XOR b) 0 else half 0 (n_data x ! i XOR b)) = 0"
      using half_sum_update [of "n_data x" i b] len assms(3) by (simp add: DATA_LEN_def xor_eq_self_iff)
    also have "\<dots> \<longleftrightarrow> n_data x ! i XOR b = 0"
      by (cases "even i") (simp_all only: half_zero_iff if_True if_False simp_thms)
    also have "\<dots> \<longleftrightarrow> b = n_data x ! i" unfolding byte_xor_0 by (rule eq_commute)
    finally show ?thesis .
  qed
  with x show ?thesis by blast
qed

theorem damaged_byte_detected_witness:
  "\<exists>x. new_net_item [65, 0] (Some [1, 2, 3]) 3 = Inr x \<and> net_validate x \<and>
     \<not> net_validate (x\<lparr>n_data := (n_data x)[1 := 7]\<rparr>)"
  using damaged_byte_detected [of "[65, 0]" "[1, 2, 3]" 1] by (force simp: DATA_LEN_def)

text \<open>
  What the checksum cannot see: data whose 16-bit words are the same in another order, and any
  change of the name.
\<close>

lemma checksum_blind_to_order:
  assumes "length (d1 @ [a, b] @ d2 @ [a', b'] @ d3) = DATA_LEN" and "even (length d1)" and "even (length d2)"
  shows "net_validate (x\<lparr>n_data := d1 @ [a, b] @ d2 @ [a', b'] @ d3\<rparr>) =
         net_validate (x\<lparr>n_data := d1 @ [a', b'] @ d2 @ [a, b] @ d3, n_name := any\<rparr>)"
proof -
  have app: "half_sum (u @ v) = half_sum u XOR half_sum v" if "even (length u)" for u v
    using that by (induction u rule: half_sum.induct) (simp_all add: xor.assoc)
  have "half_sum (d1 @ [a, b] @ d2 @ [a', b'] @ d3) = half_sum (d1 @ [a', b'] @ d2 @ [a, b] @ d3)"
    using assms(2,3) by (simp add: app ac_simps)
  then have "generateChecksum (d1 @ [a, b] @ d2 @ [a', b'] @ d3)
      = generateChecksum (d1 @ [a', b'] @ d2 @ [a, b] @ d3)"
    using assms(1) by (simp add: generateChecksum_halves)
  then show ?thesis by (simp add: net_validate_def)
qed

theorem checksum_blind_to_order_witness:
  "net_validate \<lparr>n_data = [1, 2, 3, 4] @ replicate 508 0, n_checksum = 9, n_name = [65]\<rparr> =
   net_validate \<lparr>n_data = [3, 4, 1, 2] @ replicate 508 0, n_checksum = 9, n_name = [7]\<rparr>"
  using checksum_blind_to_order [of "[]" 1 2 "[]" 3 4 "replicate 508 0"
      "\<lparr>n_data = [], n_checksum = 9, n_name = [65]\<rparr>" "[7]"]
  by (simp add: DATA_LEN_def)

end
