(* ===== verification/Net_Client.thy ===== *)
theory Net_Client
  imports Net_Item
begin

text \<open>
  The client of Chapter 15: it cooks items with random letters and a name made of its id and a
  running number, and writes them to its socket, ten at a time, until its time is up. The
  socket is the list of the bytes written; the clock is the list of the values that
  \<^verbatim>\<open>time(NULL)\<close> returns.
\<close>

definition WORK_TIMES_TO_CHECK_TIME :: nat where "WORK_TIMES_TO_CHECK_TIME = 10"

record client =
  cl_id :: "32 word"
  m_workitem_name :: "byte list"
  m_workitem_data :: "byte list"
  m_workitem_data_len :: int
  m_cooked_count :: "32 word"

text \<open>The constructor; the two arrays hold what their memory held.\<close>

definition new_client :: "byte list \<Rightarrow> byte list \<Rightarrow> 32 word \<Rightarrow> client" where
  "new_client name_junk data_junk cid =
     \<lparr>cl_id = cid, m_workitem_name = name_junk, m_workitem_data = data_junk,
      m_workitem_data_len = 0, m_cooked_count = 0\<rparr>"

definition wf_client :: "client \<Rightarrow> bool" where
  "wf_client c \<longleftrightarrow> length (m_workitem_name c) = NAME_LEN \<and> length (m_workitem_data c) = DATA_LEN"

section \<open>cook_data\<close>

fun fill_data :: "nat \<Rightarrow> nat \<Rightarrow> nat \<Rightarrow> rng \<Rightarrow> byte list \<Rightarrow> (byte list \<times> rng) result" where
  "fill_data base 0 i r d = Inr (d, r)"
| "fill_data base (Suc k) i r d =
     (let (x, r') = rand r
      in bind_result (array_set d (int i) (of_nat (x mod 26 + base))) (\<lambda>d'. fill_data base k (Suc i) r' d'))"

text \<open>The characters that \<^verbatim>\<open>sprintf\<close> makes of the id and the number (\<^verbatim>\<open>%d\<close> reads them as signed).\<close>

definition item_name_text :: "32 word \<Rightarrow> 32 word \<Rightarrow> byte list" where
  "item_name_text cid k =
     bytes ''WorkItem_From_Client_'' @ decimal_text (sint cid) @ bytes ''_'' @ decimal_text (sint k)"

definition sprintf_text :: "byte list \<Rightarrow> byte list \<Rightarrow> byte list result" where
  "sprintf_text buf t =
     (if length t < length buf then Inr (t @ 0 # drop (Suc (length t)) buf) else Inl Out_of_bounds)"

definition cook_data :: "client \<Rightarrow> rng \<Rightarrow> (client \<times> rng) result" where
  "cook_data c r =
     (let (x, r1) = rand r;
          base = (if x mod 3 = 0 then 65 else 97);
          (y, r2) = rand r1;
          len = 1 + y mod DATA_LEN
      in bind_result (fill_data base len 0 r2 (m_workitem_data c)) (\<lambda>(d, r3).
         bind_result (sprintf_text (m_workitem_name c) (item_name_text (cl_id c) (m_cooked_count c))) (\<lambda>nm.
           Inr (c\<lparr>m_workitem_name := nm, m_workitem_data := d, m_workitem_data_len := int len,
                  m_cooked_count := m_cooked_count c + 1\<rparr>, r3))))"

section \<open>Work\<close>

text \<open>The body of the inner loop, \<open>k\<close> times: the items are written to the stream \<open>out\<close>.\<close>

fun send_items :: "nat \<Rightarrow> client \<Rightarrow> rng \<Rightarrow> byte list \<Rightarrow> (client \<times> rng \<times> byte list) result" where
  "send_items 0 c r out = Inr (c, r, out)"
| "send_items (Suc k) c r out =
     bind_result (cook_data c r) (\<lambda>(c1, r1).
     bind_result (new_net_item (m_workitem_name c1) (Some (m_workitem_data c1)) (m_workitem_data_len c1)) (\<lambda>item.
       send_items k c1 r1 (out @ net_item_bytes item)))"

text \<open>
  The loop until the clock has passed \<open>target_time\<close>; \<^verbatim>\<open>None\<close> when the readings of the clock given
  do not get there.
\<close>

fun work_loop :: "int list \<Rightarrow> int \<Rightarrow> client \<Rightarrow> rng \<Rightarrow> byte list \<Rightarrow> (client \<times> rng \<times> byte list) option result" where
  "work_loop [] target_time c r out = Inr None"
| "work_loop (cur_time # ts) target_time c r out =
     (if target_time < cur_time then Inr (Some (c, r, out))
      else bind_result (send_items WORK_TIMES_TO_CHECK_TIME c r out) (\<lambda>(c', r', out').
             work_loop ts target_time c' r' out'))"

definition Work :: "int \<Rightarrow> int list \<Rightarrow> client \<Rightarrow> rng \<Rightarrow> (client \<times> rng \<times> byte list) option result" where
  "Work seconds_to_run ts c r =
     (case ts of
        t0 # t1 # ts' \<Rightarrow> work_loop ts' (seconds_to_run + t1) c r []
      | _ \<Rightarrow> Inr None)"

text \<open>
  \<^verbatim>\<open>main\<close>: the exit code and the bytes sent. \<open>connected\<close> says whether \<^verbatim>\<open>Connect\<close> succeeded.
\<close>

definition client_main ::
    "byte list list \<Rightarrow> bool \<Rightarrow> int list \<Rightarrow> rng \<Rightarrow> byte list \<Rightarrow> byte list \<Rightarrow> (int \<times> byte list) option result" where
  "client_main argv connected ts r name_junk data_junk =
     (case argv of
        [prog, arg] \<Rightarrow>
          bind_result (client_atoi arg) (\<lambda>client_id.
          if \<not> connected then Inr (Some (2, []))
          else bind_result (Work 10 ts (new_client name_junk data_junk (word_of_int client_id)) r) (\<lambda>res.
            Inr (case res of None \<Rightarrow> None | Some (c, r', out) \<Rightarrow> Some (0, out))))
      | _ \<Rightarrow> Inr (Some (1, [])))"

section \<open>Facts\<close>

lemma fill_data_ok:
  "i + k \<le> length d \<Longrightarrow> \<exists>d' r'. fill_data base k i r d = Inr (d', r') \<and> length d' = length d"
proof (induction k arbitrary: i r d)
  case (Suc k)
  obtain x r1 where x: "rand r = (x, r1)" by fastforce
  from Suc.prems have "Suc i + k \<le> length (d[i := of_nat (x mod 26 + base)])" by simp
  from Suc.IH [OF this, of r1] Suc.prems show ?case by (auto simp: x array_set_nat simp del: of_nat_add)
qed simp

text \<open>The name and its terminator fit into the array.\<close>

definition name_fits :: "32 word \<Rightarrow> 32 word \<Rightarrow> bool" where
  "name_fits cid k \<longleftrightarrow> length (decimal_text (sint cid)) + length (decimal_text (sint k)) \<le> 7"

lemma length_item_name_text:
  "length (item_name_text cid k) = 22 + length (decimal_text (sint cid)) + length (decimal_text (sint k))"
  by (simp add: item_name_text_def)

lemma cook_data_spec:
  assumes "wf_client c"
  shows "if name_fits (cl_id c) (m_cooked_count c)
    then (\<exists>c' r' d. cook_data c r = Inr (c', r') \<and> wf_client c' \<and> cl_id c' = cl_id c \<and>
       m_cooked_count c' = m_cooked_count c + 1 \<and> c_string (m_workitem_name c') = item_name_text (cl_id c) (m_cooked_count c) \<and>
       length (m_workitem_data c') = DATA_LEN \<and> 0 \<in> set (m_workitem_name c') \<and> 1 \<le> m_workitem_data_len c' \<and> m_workitem_data_len c' \<le> int DATA_LEN)
    else cook_data c r = Inl Out_of_bounds"
proof -
  obtain x r1 where x: "rand r = (x, r1)" by fastforce
  obtain y r2 where y: "rand r1 = (y, r2)" by fastforce
  have len: "1 + y mod DATA_LEN \<le> DATA_LEN" by (simp add: DATA_LEN_def Suc_le_eq)
  let ?base = "if x mod 3 = 0 then 65 else 97 :: nat"
  from assms len have "0 + (1 + y mod DATA_LEN) \<le> length (m_workitem_data c)" by (simp add: wf_client_def)
  from fill_data_ok [OF this, of ?base r2] obtain d r3 where
    d: "fill_data ?base (1 + y mod DATA_LEN) 0 r2 (m_workitem_data c) = Inr (d, r3)"
      "length d = length (m_workitem_data c)"
    by blast
  let ?t = "item_name_text (cl_id c) (m_cooked_count c)"
  have nz: "b \<noteq> 0" if "b \<in> set ?t" for b
    using that decimal_text_nonzero [of b] by (auto simp: item_name_text_def bytes_def)
  have fits: "name_fits (cl_id c) (m_cooked_count c) \<longleftrightarrow> length ?t < length (m_workitem_name c)"
    using assms by (auto simp: wf_client_def name_fits_def length_item_name_text NAME_LEN_def)
  show ?thesis
  proof (cases "name_fits (cl_id c) (m_cooked_count c)")
    case True
    with fits have s: "sprintf_text (m_workitem_name c) ?t
        = Inr (?t @ 0 # drop (Suc (length ?t)) (m_workitem_name c))"
      by (simp add: sprintf_text_def)
    have "c_string (?t @ 0 # drop (Suc (length ?t)) (m_workitem_name c)) = ?t"
      using nz by (rule c_string_text)
    then show ?thesis
      using True d assms len s fits
      by (simp add: cook_data_def x y Let_def wf_client_def del: of_nat_Suc)
  next
    case False
    with fits d show ?thesis by (simp add: cook_data_def x y Let_def sprintf_text_def)
  qed
qed

text \<open>What the client writes: valid items named in order.\<close>

definition items_from :: "32 word \<Rightarrow> 32 word \<Rightarrow> net_item list \<Rightarrow> bool" where
  "items_from cid k xs \<longleftrightarrow>
     (\<forall>i < length xs. wf_net_item (xs ! i) \<and> net_validate (xs ! i) \<and>
        getName (xs ! i) = Inr (item_name_text cid (k + of_nat i)))"

lemma items_from_Nil [simp]: "items_from cid k []"
  by (simp add: items_from_def)

lemma items_from_Cons:
  "items_from cid k (x # xs) \<longleftrightarrow> wf_net_item x \<and> net_validate x \<and>
     getName x = Inr (item_name_text cid k) \<and> items_from cid (k + 1) xs"
proof -
  have "(\<forall>i < Suc n. P i) \<longleftrightarrow> P 0 \<and> (\<forall>i < n. P (Suc i))" for P and n :: nat
    using less_Suc_eq_0_disj by auto
  then show ?thesis by (simp add: items_from_def ac_simps)
qed

lemma items_from_append:
  "items_from cid k (xs @ ys) \<longleftrightarrow> items_from cid k xs \<and> items_from cid (k + of_nat (length xs)) ys"
  by (induction xs arbitrary: k) (auto simp: items_from_Cons ac_simps)

lemma send_items_spec:
  assumes "wf_client c" and "\<And>i. i < k \<Longrightarrow> name_fits (cl_id c) (m_cooked_count c + of_nat i)"
  shows "\<exists>c' r' xs. send_items k c r out = Inr (c', r', out @ concat (map net_item_bytes xs)) \<and>
    wf_client c' \<and> cl_id c' = cl_id c \<and> m_cooked_count c' = m_cooked_count c + of_nat k \<and>
    length xs = k \<and> items_from (cl_id c) (m_cooked_count c) xs"
  using assms
proof (induction k arbitrary: c r out)
  case 0
  then show ?case by (simp add: items_from_def)
next
  case (Suc k)
  have fits: "name_fits (cl_id c) (m_cooked_count c)" using Suc.prems(2) [of 0] by simp
  with cook_data_spec [OF Suc.prems(1), of r] obtain c1 r1 where
    c1: "cook_data c r = Inr (c1, r1)" "wf_client c1" "cl_id c1 = cl_id c"
      "m_cooked_count c1 = m_cooked_count c + 1"
      "c_string (m_workitem_name c1) = item_name_text (cl_id c) (m_cooked_count c)"
      "length (m_workitem_data c1) = DATA_LEN" "0 \<in> set (m_workitem_name c1)"
      "1 \<le> m_workitem_data_len c1" "m_workitem_data_len c1 \<le> int DATA_LEN"
    by auto
  have "0 \<le> m_workitem_data_len c1" "m_workitem_data_len c1 \<le> int (length (m_workitem_data c1))"
    using c1(6,8,9) by simp_all
  from new_net_item_take [OF c1(7) this(1) c1(9) this(2)] obtain x where
    x: "new_net_item (m_workitem_name c1) (Some (m_workitem_data c1)) (m_workitem_data_len c1) = Inr x"
      "wf_net_item x" "net_validate x"
      "n_name x = c_prefix NAME_LEN (m_workitem_name c1)
         @ replicate (NAME_LEN - length (c_prefix NAME_LEN (m_workitem_name c1))) 0"
    by blast
  have "length (c_string (m_workitem_name c1)) < NAME_LEN"
    using fits unfolding c1(5) length_item_name_text name_fits_def NAME_LEN_def by linarith
  from name_kept [OF c1(7) this x(4)] have name: "getName x = Inr (item_name_text (cl_id c) (m_cooked_count c))"
    unfolding c1(5) .
  have "name_fits (cl_id c1) (m_cooked_count c1 + of_nat i)" if "i < k" for i
    using Suc.prems(2) [of "Suc i"] that by (simp add: c1(3,4) ac_simps)
  from Suc.IH [OF c1(2) this, where r = r1 and out = "out @ net_item_bytes x"] obtain c2 r2 xs where
    c2: "send_items k c1 r1 (out @ net_item_bytes x)
        = Inr (c2, r2, (out @ net_item_bytes x) @ concat (map net_item_bytes xs))"
      "wf_client c2" "cl_id c2 = cl_id c1" "m_cooked_count c2 = m_cooked_count c1 + of_nat k"
      "length xs = k" "items_from (cl_id c1) (m_cooked_count c1) xs"
    by blast
  then show ?case
    using c1(1,3,4) x name by (intro exI [of _ c2] exI [of _ r2] exI [of _ "x # xs"])
      (simp add: items_from_Cons ac_simps)
qed

lemma work_loop_spec:
  assumes "wf_client c" and "list_all (\<lambda>t. t \<le> target) ts" and "target < late"
    and "\<And>i. i < 10 * length ts \<Longrightarrow> name_fits (cl_id c) (m_cooked_count c + of_nat i)"
  shows "\<exists>c' r' xs. work_loop (ts @ late # later) target c r out = Inr (Some (c', r', out @ concat (map net_item_bytes xs))) \<and>
    length xs = 10 * length ts \<and> items_from (cl_id c) (m_cooked_count c) xs"
  using assms
proof (induction ts arbitrary: c r out)
  case Nil
  then show ?case by (simp add: items_from_def)
next
  case (Cons t ts)
  have ten: "WORK_TIMES_TO_CHECK_TIME = 10" by (simp add: WORK_TIMES_TO_CHECK_TIME_def)
  have "name_fits (cl_id c) (m_cooked_count c + of_nat i)" if "i < 10" for i
    using Cons.prems(4) [of i] that by simp
  from send_items_spec [OF Cons.prems(1) this, of 10 r out] obtain c1 r1 xs where
    c1: "send_items 10 c r out = Inr (c1, r1, out @ concat (map net_item_bytes xs))" "wf_client c1"
      "cl_id c1 = cl_id c" "m_cooked_count c1 = m_cooked_count c + of_nat 10" "length xs = 10"
      "items_from (cl_id c) (m_cooked_count c) xs"
    by blast
  have "name_fits (cl_id c1) (m_cooked_count c1 + of_nat i)" if "i < 10 * length ts" for i
    using Cons.prems(4) [of "10 + i"] that by (simp add: c1(3,4) ac_simps)
  moreover have "list_all (\<lambda>t. t \<le> target) ts" using Cons.prems(2) by simp
  ultimately obtain c2 r2 ys where
    c2: "work_loop (ts @ late # later) target c1 r1 (out @ concat (map net_item_bytes xs))
        = Inr (Some (c2, r2, (out @ concat (map net_item_bytes xs)) @ concat (map net_item_bytes ys)))"
      "length ys = 10 * length ts" "items_from (cl_id c1) (m_cooked_count c1) ys"
    using Cons.IH [OF c1(2) _ Cons.prems(3)] by blast
  from c1(5,6) c2(3) have "items_from (cl_id c) (m_cooked_count c) (xs @ ys)"
    by (simp add: items_from_append c1(3,4))
  moreover have "\<not> target < t" using Cons.prems(2) by simp
  ultimately show ?case
    using c1(1,5) c2(1,2) by (intro exI [of _ c2] exI [of _ r2] exI [of _ "xs @ ys"]) (simp add: ten)
qed

lemma short_id_fits:
  assumes "n \<le> 9" and "i < 1000000"
  shows "name_fits (of_nat n) (of_nat i)"
proof -
  have s: "sint (of_nat m :: 32 word) = int m" if "m < 1000000" for m
    using that by (simp add: signed_of_nat signed_take_bit_int_eq_self)
  have "length (numeral_text 10 n) \<le> Suc 0" using numeral_text_length_le [of 10 n 0] assms(1) by simp
  moreover have "length (numeral_text 10 i) \<le> Suc 5" using numeral_text_length_le [of 10 i 5] assms(2) by simp
  ultimately show ?thesis
    using assms by (simp add: name_fits_def s decimal_text_def)
qed

text \<open>The whole run of a client with an id of one digit.\<close>

lemma client_main_stream:
  assumes "n \<le> 9" and "length name_junk = NAME_LEN" and "length data_junk = DATA_LEN"
    and "list_all (\<lambda>t. t \<le> 10 + t1) ts" and "10 + t1 < late" and "10 * length ts \<le> 1000000"
  shows "\<exists>xs. client_main [prog, numeral_text 10 n @ 0 # rest] True (t0 # t1 # ts @ late # later) r name_junk data_junk
      = Inr (Some (0, concat (map net_item_bytes xs))) \<and>
    length xs = 10 * length ts \<and> items_from (of_nat n) 0 xs"
proof -
  let ?c = "new_client name_junk data_junk (of_nat n)"
  have wf: "wf_client ?c" using assms(2,3) by (simp add: wf_client_def new_client_def)
  have start: "cl_id ?c = of_nat n" "m_cooked_count ?c = 0" by (simp_all add: new_client_def)
  have "name_fits (cl_id ?c) (m_cooked_count ?c + of_nat i)" if "i < 10 * length ts" for i
    using short_id_fits [OF assms(1), of i] that assms(6) by (simp add: start)
  from work_loop_spec [OF wf assms(4,5) this, of later r "[]"] obtain c' r' xs where
    w: "work_loop (ts @ late # later) (10 + t1) ?c r [] = Inr (Some (c', r', concat (map net_item_bytes xs)))"
      "length xs = 10 * length ts" "items_from (of_nat n) 0 xs"
    by (auto simp: start)
  have "int n \<le> INT_MAX" using assms(1) by (simp add: INT_MAX_def)
  from client_atoi_numeral [OF this, of rest] w show ?thesis
    by (auto simp: client_main_def Work_def)
qed

section \<open>Properties\<close>

text \<open>
  C38: The name of an item overruns its 30 bytes exactly when the client's id and the item's number have
  more than seven characters together; otherwise \<^verbatim>\<open>cook_data\<close> stays inside both arrays and makes
  the name and between 1 and 512 bytes of data.
\<close>

theorem cook_data_bounds:
  assumes "wf_client c"
  shows "if length (decimal_text (sint (cl_id c))) + length (decimal_text (sint (m_cooked_count c))) \<le> 7
    then (\<exists>c' r'. cook_data c r = Inr (c', r') \<and> wf_client c' \<and>
       c_string (m_workitem_name c') = item_name_text (cl_id c) (m_cooked_count c) \<and>
       1 \<le> m_workitem_data_len c' \<and> m_workitem_data_len c' \<le> int DATA_LEN)
    else cook_data c r = Inl Out_of_bounds"
  using cook_data_spec [OF assms, of r] unfolding name_fits_def by (auto split: if_splits)

theorem cook_data_bounds_witness:
  "cook_data ((new_client (replicate 30 0) (replicate 512 0) 10)\<lparr>m_cooked_count := 1000000\<rparr>) (\<lambda>i. i) = Inl Out_of_bounds"
proof -
  let ?c = "(new_client (replicate 30 0) (replicate 512 0) 10)\<lparr>m_cooked_count := 1000000\<rparr>"
  have wf: "wf_client ?c" by (simp add: wf_client_def new_client_def NAME_LEN_def DATA_LEN_def)
  have "6 < length (numeral_text 10 1000000)" using numeral_text_length_gt [of 10 6 1000000] by simp
  moreover have "1 < length (numeral_text 10 10)" using numeral_text_length_gt [of 10 1 10] by simp
  ultimately have "\<not> length (decimal_text (sint (cl_id ?c))) + length (decimal_text (sint (m_cooked_count ?c))) \<le> 7"
    by (simp add: new_client_def decimal_text_def)
  with cook_data_bounds [OF wf] show ?thesis by (simp only: if_False)
qed

text \<open>
  A client with an id of one digit whose clock passes the end after \<open>length ts\<close> readings exits with
  code 0 and has written ten items per reading (up to a million), one after the other, each of
  which validates and is named after the client and its place in the stream.
\<close>

lemma client_sends_items:
  assumes "n \<le> 9" and "length name_junk = NAME_LEN" and "length data_junk = DATA_LEN"
    and "list_all (\<lambda>t. t \<le> 10 + t1) ts" and "10 + t1 < late" and "10 * length ts \<le> 1000000"
  shows "\<exists>xs. client_main [prog, numeral_text 10 n @ 0 # rest] True (t0 # t1 # ts @ late # later) r name_junk data_junk
      = Inr (Some (0, concat (map net_item_bytes xs))) \<and>
    length xs = 10 * length ts \<and> items_from (of_nat n) 0 xs"
  by (rule client_main_stream [OF assms])

theorem client_sends_items_witness:
  "\<exists>xs. client_main [[0], numeral_text 10 7 @ [0]] True [0, 0, 5, 11] (\<lambda>i. i) (replicate 30 0) (replicate 512 0)
      = Inr (Some (0, concat (map net_item_bytes xs))) \<and> length xs = 10"
  using client_sends_items [of 7 "replicate 30 0" "replicate 512 0" 0 "[5]" 11 "[0]" "[]" 0 "[]" "\<lambda>i. i"]
  by (auto simp: NAME_LEN_def DATA_LEN_def)

end
