(* ===== verification/Net_Server.thy ===== *)
theory Net_Server
  imports Net_Item
begin

text \<open>
  The server's event loop of Chapter 15. Its sockets do not block: \<^verbatim>\<open>recv\<close> returns what has
  arrived, whatever \<^verbatim>\<open>MSG_WAITALL\<close> asks for. The kernel's side of a connection is a buffer of
  arrived bytes; arrivals, hang-ups and the events that \<^verbatim>\<open>epoll_wait\<close> returns come in any order.
\<close>

record connection =
  arrived :: "byte list"
  hung_up :: bool

datatype report =
    New_client
  | Valid_item "byte list"
  | Corrupted_item "byte list"
  | Non_integrated int

record server =
  m_socket :: int
  connections :: "int \<rightharpoonup> connection"
  witem :: "byte list"
  reports :: "report list"

text \<open>
  \<^verbatim>\<open>recv\<close> of up to \<open>n\<close> bytes: its result, the bytes, and the connection after it. It returns -1
  when nothing has arrived (or the descriptor is closed) and 0 when the peer has hung up.
\<close>

definition recv :: "connection option \<Rightarrow> nat \<Rightarrow> int \<times> byte list \<times> connection option" where
  "recv c n =
     (case c of
        None \<Rightarrow> (-1, [], None)
      | Some k \<Rightarrow>
          if arrived k = [] then (if hung_up k then 0 else -1, [], Some k)
          else (int (min n (length (arrived k))), take n (arrived k), Some (k\<lparr>arrived := drop n (arrived k)\<rparr>)))"

definition close_fd :: "int \<Rightarrow> server \<Rightarrow> server" where
  "close_fd fd s = s\<lparr>connections := (connections s)(fd := None)\<rparr>"

definition say :: "report \<Rightarrow> server \<Rightarrow> server" where
  "say r s = s\<lparr>reports := reports s @ [r]\<rparr>"

text \<open>A readable connection.\<close>

definition handle_readable :: "int \<Rightarrow> server \<Rightarrow> server result" where
  "handle_readable fd s =
     (let (n, bs, c) = recv (connections s fd) NET_ITEM_SIZE;
          s1 = s\<lparr>connections := (connections s)(fd := c), witem := bs @ drop (length bs) (witem s)\<rparr>
      in if n = 0 then Inr (close_fd fd s1)
         else if n \<noteq> int NET_ITEM_SIZE then Inr (close_fd fd (say (Non_integrated n) s1))
         else let x = net_item_of_bytes (witem s1) in
           bind_result (getName x) (\<lambda>nm.
             Inr (say (if net_validate x then Valid_item nm else Corrupted_item nm) s1)))"

text \<open>
  One event of \<^verbatim>\<open>epoll_wait\<close>: its descriptor, whether \<^verbatim>\<open>EPOLLIN\<close> is set, and what \<^verbatim>\<open>accept\<close>
  returns if it is the listening socket's.
\<close>

definition handle_event :: "int \<Rightarrow> bool \<Rightarrow> int \<Rightarrow> server \<Rightarrow> server result" where
  "handle_event fd epollin new_fd s =
     (if fd = m_socket s
      then Inr (say New_client
        (if 0 \<le> new_fd then s\<lparr>connections := (connections s)(new_fd \<mapsto> \<lparr>arrived = [], hung_up = False\<rparr>)\<rparr> else s))
      else if epollin then handle_readable fd s
      else Inr s)"

datatype server_event = Arrive int "byte list" | Hang_up int | Epoll int bool int

definition server_step :: "server_event \<Rightarrow> server \<Rightarrow> server result" where
  "server_step e s =
     (case e of
        Arrive fd bs \<Rightarrow> Inr (s\<lparr>connections := (connections s)
          (fd := map_option (\<lambda>c. c\<lparr>arrived := arrived c @ bs\<rparr>) (connections s fd))\<rparr>)
      | Hang_up fd \<Rightarrow> Inr (s\<lparr>connections := (connections s)
          (fd := map_option (\<lambda>c. c\<lparr>hung_up := True\<rparr>) (connections s fd))\<rparr>)
      | Epoll fd epollin new_fd \<Rightarrow> handle_event fd epollin new_fd s)"

fun server_run :: "server_event list \<Rightarrow> server \<Rightarrow> server result" where
  "server_run [] s = Inr s"
| "server_run (e # es) s = bind_result (server_step e s) (server_run es)"

section \<open>One connection\<close>

text \<open>
  A run on one connection in which every event finds at least one whole item arrived; \<open>k\<close> is the
  number of bytes that have arrived and were not read.
\<close>

fun whole_items :: "int \<Rightarrow> nat \<Rightarrow> server_event list \<Rightarrow> bool" where
  "whole_items fd k [] = True"
| "whole_items fd k (Arrive g bs # es) = (g = fd \<and> whole_items fd (k + length bs) es)"
| "whole_items fd k (Epoll g epollin new_fd # es) =
     (g = fd \<and> epollin \<and> NET_ITEM_SIZE \<le> k \<and> whole_items fd (k - NET_ITEM_SIZE) es)"
| "whole_items fd k (Hang_up g # es) = False"

fun arrivals :: "server_event list \<Rightarrow> byte list" where
  "arrivals [] = []"
| "arrivals (Arrive g bs # es) = bs @ arrivals es"
| "arrivals (_ # es) = arrivals es"

fun reads :: "server_event list \<Rightarrow> nat" where
  "reads [] = 0"
| "reads (Epoll g i n # es) = Suc (reads es)"
| "reads (_ # es) = reads es"

definition good_item :: "net_item \<Rightarrow> byte list \<Rightarrow> bool" where
  "good_item x nm \<longleftrightarrow> wf_net_item x \<and> net_validate x \<and> getName x = Inr nm"

text \<open>An event that finds the bytes of a good item reports it and leaves the rest.\<close>

lemma handle_whole_item:
  assumes "fd \<noteq> m_socket s" and "connections s fd = Some \<lparr>arrived = net_item_bytes x @ rest, hung_up = h\<rparr>"
    and "good_item x nm" and "length (witem s) = NET_ITEM_SIZE"
  shows "handle_event fd True g s =
    Inr (say (Valid_item nm) (s\<lparr>connections := (connections s)(fd \<mapsto> \<lparr>arrived = rest, hung_up = h\<rparr>),
          witem := net_item_bytes x\<rparr>))"
proof -
  have x: "wf_net_item x" "net_validate x" "getName x = Inr nm" using assms(3) by (simp_all add: good_item_def)
  have len: "length (net_item_bytes x) = NET_ITEM_SIZE" using x(1) by (rule net_codec.enc_length)
  have pos: "NET_ITEM_SIZE \<noteq> 0" by (simp add: NET_ITEM_SIZE_def)
  with len have ne: "net_item_bytes x \<noteq> []" by auto
  have read: "recv (connections s fd) NET_ITEM_SIZE
      = (int NET_ITEM_SIZE, net_item_bytes x, Some \<lparr>arrived = rest, hung_up = h\<rparr>)"
    using ne len by (simp add: recv_def assms(2))
  show ?thesis
    using assms(1,4) x(2,3) pos net_codec.dec_enc [OF x(1)]
    by (simp add: handle_event_def handle_readable_def read Let_def len)
qed

lemma server_run_whole_items:
  assumes "fd \<noteq> m_socket s" and "connections s fd = Some \<lparr>arrived = b, hung_up = h\<rparr>"
    and "b @ arrivals es = concat (map net_item_bytes xs)" and "list_all2 good_item xs nms"
    and "whole_items fd (length b) es" and "length (witem s) = NET_ITEM_SIZE"
  shows "\<exists>s'. server_run es s = Inr s' \<and>
    reports s' = reports s @ map Valid_item (take (reads es) nms) \<and> reads es \<le> length xs"
  using assms
proof (induction es arbitrary: s b xs nms)
  case Nil
  then show ?case by simp
next
  case (Cons e es)
  show ?case
  proof (cases e)
    case (Arrive g bs)
    let ?s = "s\<lparr>connections := (connections s)(fd \<mapsto> \<lparr>arrived = b @ bs, hung_up = h\<rparr>)\<rparr>"
    have "server_step e s = Inr ?s"
      using Cons.prems(2,5) by (simp add: Arrive server_step_def)
    moreover have "\<exists>s'. server_run es ?s = Inr s' \<and>
        reports s' = reports ?s @ map Valid_item (take (reads es) nms) \<and> reads es \<le> length xs"
      by (rule Cons.IH [where b = "b @ bs"]) (use Cons.prems in \<open>simp_all add: Arrive\<close>)
    ultimately show ?thesis by (simp add: Arrive)
  next
    case (Epoll g epollin new_fd)
    with Cons.prems(5) have e: "g = fd" "epollin" "NET_ITEM_SIZE \<le> length b"
      "whole_items fd (length b - NET_ITEM_SIZE) es"
      by simp_all
    have "b \<noteq> []" using e(3) by (auto simp: NET_ITEM_SIZE_def)
    then have "concat (map net_item_bytes xs) \<noteq> []"
      using Cons.prems(3) by (metis append_is_Nil_conv)
    then obtain x xs' where xs: "xs = x # xs'" by (cases xs) auto
    with Cons.prems(4) obtain nm nms' where nms: "nms = nm # nms'" "good_item x nm" "list_all2 good_item xs' nms'"
      by (auto simp: list_all2_Cons1)
    have len: "length (net_item_bytes x) = NET_ITEM_SIZE"
      using nms(2) by (intro net_codec.enc_length) (simp add: good_item_def)
    from Cons.prems(3) Epoll xs have split: "b @ arrivals es = net_item_bytes x @ concat (map net_item_bytes xs')"
      by simp
    then have "take NET_ITEM_SIZE b = net_item_bytes x"
      using e(3) len by (metis append_eq_append_conv_if append_eq_conv_conj take_all_iff)
    then obtain rest where b: "b = net_item_bytes x @ rest"
      by (metis append_take_drop_id)
    let ?s = "say (Valid_item nm) (s\<lparr>connections := (connections s)(fd \<mapsto> \<lparr>arrived = rest, hung_up = h\<rparr>),
          witem := net_item_bytes x\<rparr>)"
    have "server_step e s = Inr ?s"
      using handle_whole_item [OF Cons.prems(1) _ nms(2) Cons.prems(6), of rest h new_fd] Cons.prems(2) b e(1,2)
      by (simp add: Epoll server_step_def)
    moreover have "\<exists>s'. server_run es ?s = Inr s' \<and>
        reports s' = reports ?s @ map Valid_item (take (reads es) nms') \<and> reads es \<le> length xs'"
      by (rule Cons.IH [where b = rest])
        (use Cons.prems(1) nms(3) split b e(4) len in \<open>simp_all add: say_def\<close>)
    ultimately show ?thesis by (simp add: Epoll nms(1) xs say_def)
  next
    case (Hang_up g)
    with Cons.prems(5) show ?thesis by simp
  qed
qed

section \<open>Properties\<close>

text \<open>
  C37: An event that finds less than a whole item arrived, or nothing at all, on a connection whose peer
  has not hung up makes the server close the connection, and no item is reported: the bytes of
  the item that come later are lost with it.
\<close>

theorem partial_item_closes:
  assumes "fd \<noteq> m_socket s" and "connections s fd = Some c" and "length (arrived c) < NET_ITEM_SIZE"
    and "arrived c \<noteq> [] \<or> \<not> hung_up c"
  shows "\<exists>s'. handle_event fd True g s = Inr s' \<and> connections s' fd = None \<and>
    reports s' = reports s @ [Non_integrated (if arrived c = [] then -1 else int (length (arrived c)))] \<and>
    (\<forall>other. other \<noteq> fd \<longrightarrow> connections s' other = connections s other)"
  using assms
  by (auto simp: handle_event_def handle_readable_def recv_def Let_def close_fd_def say_def min_def)

theorem partial_item_closes_witness:
  "\<exists>s'. server_run [Arrive 5 (replicate 543 1), Epoll 5 True 0, Arrive 5 [1]]
       \<lparr>m_socket = 3, connections = [5 \<mapsto> \<lparr>arrived = [], hung_up = False\<rparr>], witem = replicate 544 0, reports = []\<rparr>
     = Inr s' \<and> connections s' 5 = None \<and> reports s' = [Non_integrated 543]"
proof -
  let ?s = "\<lparr>m_socket = 3, connections = [5 \<mapsto> \<lparr>arrived = [], hung_up = False\<rparr>], witem = replicate 544 0, reports = []\<rparr>"
  let ?s1 = "?s\<lparr>connections := [5 \<mapsto> \<lparr>arrived = replicate 543 1, hung_up = False\<rparr>]\<rparr>"
  have "\<exists>s'. handle_event 5 True 0 ?s1 = Inr s' \<and> connections s' 5 = None \<and> reports s' = [Non_integrated 543]"
    using partial_item_closes [of 5 ?s1 "\<lparr>arrived = replicate 543 1, hung_up = False\<rparr>" 0]
    by (simp add: NET_ITEM_SIZE_def) blast
  then show ?thesis by (auto simp: server_step_def)
qed

end
