(* ===== verification/Net_Setup.thy ===== *)
theory Net_Setup
  imports Net_Client Net_Server
begin

text \<open>
  How the two programs of Chapter 15 set up their sockets: \<^verbatim>\<open>Client::Connect\<close> and \<^verbatim>\<open>Disconnect\<close>, and
  the part of \<^verbatim>\<open>Server::start\<close> before its event loop. The system is given by what its calls
  return; the open sockets of a process are a map from descriptors.
\<close>

section \<open>Sockets\<close>

text \<open>An address and a port.\<close>

type_synonym address = "nat \<times> nat"

record socket_state =
  local_addr :: "address option"
  peer_addr :: "address option"
  listening :: bool
  nonblocking :: bool

type_synonym sockets = "int \<Rightarrow> socket_state option"

record net_env =
  gethostbyname :: "byte list \<Rightarrow> nat option"
  socket_fd :: int
  bind_ok :: bool
  listen_ok :: bool
  connect_ok :: bool

definition new_socket :: "net_env \<Rightarrow> sockets \<Rightarrow> sockets" where
  "new_socket E tbl =
     (if 0 \<le> socket_fd E
      then tbl(socket_fd E \<mapsto> \<lparr>local_addr = None, peer_addr = None, listening = False, nonblocking = False\<rparr>)
      else tbl)"

text \<open>A call on a descriptor that is not open fails.\<close>

definition socket_call :: "bool \<Rightarrow> (socket_state \<Rightarrow> socket_state) \<Rightarrow> int \<Rightarrow> sockets \<Rightarrow> bool \<times> sockets" where
  "socket_call ok f d tbl =
     (case tbl d of
        None \<Rightarrow> (False, tbl)
      | Some k \<Rightarrow> if ok then (True, tbl(d \<mapsto> f k)) else (False, tbl))"

definition close_socket :: "int \<Rightarrow> sockets \<Rightarrow> sockets" where
  "close_socket d tbl = tbl(d := None)"

text \<open>
  A port as \<^verbatim>\<open>htons\<close> receives it, reduced to 16 bits. Ports are kept in the host's byte order: the swap of the bytes is the
  same at both ends of a connection. \<^verbatim>\<open>(short)\<close> reads 16 bits with their sign.
\<close>

definition htons :: "int \<Rightarrow> nat" where
  "htons p = nat (p mod 65536)"

definition to_short :: "int \<Rightarrow> int" where
  "to_short p = sint (word_of_int p :: 16 word)"

lemma htons_short [simp]: "htons (to_short p) = htons p"
proof -
  have "(word_of_int (sint (word_of_int p :: 16 word)) :: 16 word) = word_of_int p" by simp
  then have "uint (word_of_int (sint (word_of_int p :: 16 word)) :: 16 word) = uint (word_of_int p :: 16 word)" by simp
  then have "sint (word_of_int p :: 16 word) mod 65536 = p mod 65536" by (simp only: uint_word_of_int) simp
  then show ?thesis by (simp add: htons_def to_short_def)
qed

abbreviation localhost :: "byte list" where "localhost \<equiv> bytes ''localhost''"

section \<open>The client's end\<close>

definition CLIENT_START_PORT :: nat where "CLIENT_START_PORT = 6666"

text \<open>The members of \<^verbatim>\<open>Client\<close> that concern its connection.\<close>

record endpoint =
  ep_id :: "32 word"
  m_server_name :: "byte list"
  m_server_port :: int
  ep_socket :: int

text \<open>
  \<^verbatim>\<open>strcpy\<close> into 256 bytes; \<open>junk\<close> is what the memory of the descriptor held. The port is 6323 by default; the program
  of \<^verbatim>\<open>Client.cpp\<close> gives both arguments, \<^verbatim>\<open>localhost\<close> and its own 6323.
\<close>

definition new_endpoint :: "int \<Rightarrow> 32 word \<Rightarrow> byte list option \<Rightarrow> int option \<Rightarrow> endpoint result" where
  "new_endpoint junk cid server_name port =
     (let nm = (case server_name of None \<Rightarrow> localhost | Some t \<Rightarrow> t)
      in if length nm < 256
         then Inr \<lparr>ep_id = cid, m_server_name = nm, m_server_port = (case port of None \<Rightarrow> 6323 | Some p \<Rightarrow> p), ep_socket = junk\<rparr>
         else Inl Out_of_bounds)"

definition client_endpoint :: "int \<Rightarrow> 32 word \<Rightarrow> endpoint result" where
  "client_endpoint junk cid = new_endpoint junk cid (Some localhost) (Some 6323)"

definition Connect :: "net_env \<Rightarrow> endpoint \<Rightarrow> sockets \<Rightarrow> bool \<times> endpoint \<times> sockets" where
  "Connect E c tbl =
     (case gethostbyname E localhost of
        None \<Rightarrow> (False, c, tbl)
      | Some a \<Rightarrow>
          let c1 = c\<lparr>ep_socket := socket_fd E\<rparr>;
              tbl1 = new_socket E tbl;
              sin = (a, htons (int CLIENT_START_PORT + uint (ep_id c)));
              (bound, tbl2) = socket_call (bind_ok E) (local_addr_update (\<lambda>_. Some sin)) (ep_socket c1) tbl1
          in if \<not> bound then (False, c1, close_socket (ep_socket c1) tbl2)
             else (case gethostbyname E (m_server_name c1) of
                 None \<Rightarrow> (False, c1, close_socket (ep_socket c1) tbl2)
               | Some b \<Rightarrow>
                   let (connected, tbl3) = socket_call (connect_ok E)
                         (peer_addr_update (\<lambda>_. Some (b, htons (to_short (m_server_port c1))))) (ep_socket c1) tbl2
                   in (connected, c1, tbl3)))"

text \<open>\<^verbatim>\<open>Disconnect\<close> closes the socket and ends without the value it promises.\<close>

definition Disconnect :: "endpoint \<Rightarrow> sockets \<Rightarrow> bool result \<times> sockets" where
  "Disconnect c tbl = (Inl Missing_return, close_socket (ep_socket c) tbl)"

text \<open>
  The whole client program: its result (exit code and bytes sent) and the sockets it leaves. The value of
  \<^verbatim>\<open>Disconnect\<close> is not read.
\<close>

definition client_program ::
    "net_env \<Rightarrow> int \<Rightarrow> byte list list \<Rightarrow> int list \<Rightarrow> rng \<Rightarrow> byte list \<Rightarrow> byte list \<Rightarrow> sockets \<Rightarrow>
     ((int \<times> byte list) option \<times> sockets) result" where
  "client_program E junk argv ts r name_junk data_junk tbl =
     (case argv of
        [prog, arg] \<Rightarrow>
          bind_result (client_atoi arg) (\<lambda>cid.
          bind_result (client_endpoint junk (word_of_int cid)) (\<lambda>ep.
            let (connected, ep', tbl') = Connect E ep tbl
            in bind_result (client_main argv connected ts r name_junk data_junk) (\<lambda>res.
                 Inr (res, if connected \<and> res \<noteq> None then snd (Disconnect ep' tbl') else tbl'))))
      | _ \<Rightarrow> bind_result (client_main argv False ts r name_junk data_junk) (\<lambda>res. Inr (res, tbl)))"

section \<open>The server's end\<close>

definition make_socket_nonblock :: "int \<Rightarrow> sockets \<Rightarrow> sockets" where
  "make_socket_nonblock d tbl = snd (socket_call True (nonblocking_update (\<lambda>_. True)) d tbl)"

text \<open>
  \<^verbatim>\<open>start\<close> up to the event loop: refused (\<^verbatim>\<open>None\<close>, the source's \<^verbatim>\<open>false\<close>), or the server as the loop
  finds it, waiting for events of its listening socket. The result of \<^verbatim>\<open>gethostbyname\<close> is used unchecked.
\<close>

definition server_start :: "net_env \<Rightarrow> int \<Rightarrow> sockets \<Rightarrow> (server option \<times> sockets) result" where
  "server_start E m_port tbl =
     (let d = socket_fd E;
          tbl1 = make_socket_nonblock d (new_socket E tbl)
      in case gethostbyname E localhost of
           None \<Rightarrow> Inl Null_dereference
         | Some a \<Rightarrow>
             let (bound, tbl2) = socket_call (bind_ok E) (local_addr_update (\<lambda>_. Some (a, htons m_port))) d tbl1
             in if \<not> bound then Inr (None, close_socket d tbl2)
                else let (listens, tbl3) = socket_call (listen_ok E) (listening_update (\<lambda>_. True)) d tbl2
                     in if \<not> listens then Inr (None, close_socket d tbl3)
                        else bind_result (new_net_item (bytes ''default'' @ [0]) None 0) (\<lambda>witem.
                          Inr (Some \<lparr>m_socket = d, connections = (\<lambda>_. None), witem = net_item_bytes witem, reports = []\<rparr>,
                               tbl3)))"

text \<open>
  The whole server program, on the events it will find: the members of \<^verbatim>\<open>Server\<close> that are set by its constructor, whose port is 6323 by
  default; \<^verbatim>\<open>main\<close> leaves with 0 when \<^verbatim>\<open>start\<close> was refused, whose result it does not read, and is in the event loop otherwise.
\<close>

record server_object =
  sv_id :: nat
  sv_port :: int

definition new_server :: "nat \<Rightarrow> int option \<Rightarrow> server_object" where
  "new_server sid port = \<lparr>sv_id = sid, sv_port = (case port of None \<Rightarrow> 6323 | Some p \<Rightarrow> p)\<rparr>"

datatype server_end = Left_with int | In_loop server

definition server_main :: "net_env \<Rightarrow> sockets \<Rightarrow> server_event list \<Rightarrow> server_end result" where
  "server_main E tbl es =
     bind_result (server_start E (sv_port (new_server 10 None)) tbl) (\<lambda>(started, tbl').
       case started of
         None \<Rightarrow> Inr (Left_with 0)
       | Some s \<Rightarrow> bind_result (server_run es s) (\<lambda>s'. Inr (In_loop s')))"

text \<open>A server whose address is taken leaves as if nothing had happened.\<close>

lemma refused_server_exits_0:
  assumes "gethostbyname E localhost \<noteq> None" and "\<not> bind_ok E"
  shows "server_main E tbl es = Inr (Left_with 0)"
  using assms by (auto simp: server_main_def server_start_def socket_call_def Let_def split: option.splits)

section \<open>Properties\<close>

lemmas setup_defs = new_socket_def socket_call_def close_socket_def make_socket_nonblock_def

text \<open>
  C36: what \<^verbatim>\<open>Connect\<close> leaves behind, whatever its calls return. It succeeds exactly when every call
  does, and then the socket is bound to port 6666 plus the client's id (modulo 65536) and
  connected to the server's port; otherwise it leaves no socket, except that a refused connection leaves the
  bound socket open.
\<close>

theorem connect_outcome:
  assumes "tbl (socket_fd E) = None"
  shows "Connect E c tbl =
    (case (gethostbyname E localhost, gethostbyname E (m_server_name c)) of
       (None, _) \<Rightarrow> (False, c, tbl)
     | (Some a, srv) \<Rightarrow>
        (let c' = c\<lparr>ep_socket := socket_fd E\<rparr>;
             bound = \<lparr>local_addr = Some (a, (6666 + unat (ep_id c)) mod 65536), peer_addr = None, listening = False, nonblocking = False\<rparr>
         in if 0 \<le> socket_fd E \<and> bind_ok E \<and> srv \<noteq> None
            then (connect_ok E, c', tbl(socket_fd E \<mapsto>
              (if connect_ok E then bound\<lparr>peer_addr := Some (the srv, htons (m_server_port c))\<rparr> else bound)))
            else (False, c', tbl)))"
proof -
  have port: "htons (6666 + uint (ep_id c)) = (6666 + unat (ep_id c)) mod 65536"
    by (simp add: htons_def nat_mod_distrib nat_add_distrib)
  have same: "tbl(socket_fd E := None) = tbl" using assms by (simp add: fun_upd_idem)
  show ?thesis
    using assms same port
    by (auto simp: Connect_def setup_defs Let_def CLIENT_START_PORT_def split: option.split)
qed

theorem connect_outcome_witness:
  "Connect \<lparr>gethostbyname = (\<lambda>_. Some 127), socket_fd = 3, bind_ok = True, listen_ok = True, connect_ok = False\<rparr>
     \<lparr>ep_id = 7, m_server_name = localhost, m_server_port = 6323, ep_socket = 0\<rparr> Map.empty =
   (False, \<lparr>ep_id = 7, m_server_name = localhost, m_server_port = 6323, ep_socket = 3\<rparr>,
    [3 \<mapsto> \<lparr>local_addr = Some (127, 6673), peer_addr = None, listening = False, nonblocking = False\<rparr>])"
  using connect_outcome [of Map.empty "\<lparr>gethostbyname = (\<lambda>_. Some 127), socket_fd = 3, bind_ok = True, listen_ok = True, connect_ok = False\<rparr>"
    "\<lparr>ep_id = 7, m_server_name = localhost, m_server_port = 6323, ep_socket = 0\<rparr>"]
  by simp

lemma net_item_length: "length (net_item_bytes x) = length (n_data x) + 2 + length (n_name x)"
  by (simp add: net_item_bytes_def numeral_2_eq_2)

lemma default_item:
  "\<exists>x. new_net_item (bytes ''default'' @ [0]) None 0 = Inr x \<and> length (net_item_bytes x) = NET_ITEM_SIZE"
proof -
  have "strncpy NAME_LEN (bytes ''default'' @ [0]) = Inr (c_prefix NAME_LEN (bytes ''default'' @ [0])
      @ replicate (NAME_LEN - length (c_prefix NAME_LEN (bytes ''default'' @ [0]))) 0)"
    by (rule strncpy_ok) simp
  moreover have "length (c_prefix NAME_LEN (bytes ''default'' @ [0])) \<le> NAME_LEN" by (simp add: c_prefix_def)
  ultimately show ?thesis
    by (simp add: new_net_item_def copy_data_def net_item_length NET_ITEM_SIZE_def DATA_LEN_def NAME_LEN_def)
qed

text \<open>
  C35: the two programs find each other on one machine (where both look up \<^verbatim>\<open>localhost\<close> alike): a server that has started, with
  the port that its constructor takes by default, listens, without blocking, at the address that
  a client that has connected, with the name and the port that its \<^verbatim>\<open>main\<close> gives it, is connected
  to; it has no connections yet and room for one item.
\<close>

theorem client_reaches_server:
  assumes "server_start Es (sv_port (new_server 10 None)) tbls = Inr (Some s, tbls')"
    and "client_endpoint junk cid = Inr ep" and "Connect Ec ep tblc = (True, ep', tblc')"
    and "gethostbyname Ec localhost = gethostbyname Es localhost"
  shows "\<exists>k l. tblc' (ep_socket ep') = Some k \<and> tbls' (m_socket s) = Some l \<and> listening l \<and> nonblocking l \<and>
    peer_addr k = local_addr l \<and> connections s = Map.empty \<and> length (witem s) = NET_ITEM_SIZE"
proof -
  let ?port = "sv_port (new_server 10 None)"
  obtain x where x: "new_net_item (bytes ''default'' @ [0]) None 0 = Inr x" "length (net_item_bytes x) = NET_ITEM_SIZE"
    using default_item by blast
  from assms(2) have ep: "m_server_name ep = localhost" "m_server_port ep = ?port"
    by (auto simp: client_endpoint_def new_endpoint_def new_server_def Let_def split: if_splits)
  from assms(1) x(1) obtain a l where l: "gethostbyname Es localhost = Some a" "tbls' (m_socket s) = Some l" "listening l"
    "nonblocking l" "local_addr l = Some (a, htons ?port)" "connections s = Map.empty" "witem s = net_item_bytes x"
    by (auto simp: server_start_def setup_defs Let_def split: option.splits if_splits prod.splits)
  from assms(3,4) l(1) ep obtain k where "tblc' (ep_socket ep') = Some k" "peer_addr k = Some (a, htons ?port)"
    by (auto simp: Connect_def setup_defs Let_def split: option.splits if_splits prod.splits)
  with l x(2) show ?thesis by auto
qed

theorem client_reaches_server_witness:
  "\<exists>s tbls' ep ep' tblc' k l.
    server_start \<lparr>gethostbyname = (\<lambda>_. Some 127), socket_fd = 3, bind_ok = True, listen_ok = True, connect_ok = True\<rparr>
      (sv_port (new_server 10 None)) Map.empty = Inr (Some s, tbls') \<and>
    client_endpoint 0 7 = Inr ep \<and>
    Connect \<lparr>gethostbyname = (\<lambda>_. Some 127), socket_fd = 3, bind_ok = True, listen_ok = True, connect_ok = True\<rparr>
      ep Map.empty = (True, ep', tblc') \<and>
    tblc' (ep_socket ep') = Some k \<and> tbls' (m_socket s) = Some l \<and> listening l \<and> peer_addr k = local_addr l"
proof -
  let ?E = "\<lparr>gethostbyname = (\<lambda>_. Some 127), socket_fd = 3, bind_ok = True, listen_ok = True, connect_ok = True\<rparr>"
  obtain x where "new_net_item (bytes ''default'' @ [0]) None 0 = Inr x" using default_item by blast
  then obtain s tbls' where s: "server_start ?E (sv_port (new_server 10 None)) Map.empty = Inr (Some s, tbls')"
    by (simp add: server_start_def setup_defs Let_def)
  obtain ep where e: "client_endpoint 0 7 = Inr ep" by (simp add: client_endpoint_def new_endpoint_def)
  obtain ep' tblc' where c: "Connect ?E ep Map.empty = (True, ep', tblc')"
    by (simp add: Connect_def setup_defs Let_def)
  from client_reaches_server [OF s e c] s e c show ?thesis by auto
qed

text \<open>Clients with different small ids ask for different local ports; ids that differ by 65536 do not.\<close>

lemma client_ports_differ:
  assumes "i < 58870" and "j < 58870" and "i \<noteq> j"
  shows "(6666 + i) mod 65536 \<noteq> (6666 + j) mod (65536 :: nat)"
  using assms by simp

end
