(* ===== verification/Net_Many.thy ===== *)
theory Net_Many
  imports Net_Client Net_Server
begin

text \<open>
  Several clients of Chapter 15 at one server. The server accepts connections, and the bytes of all clients arrive in
  any pieces and in any order between them; the kernel may give a descriptor that was closed to a later client. The events
  of such a run tell which client each of them concerns; the server, which knows nothing
  of clients but descriptors, reports every client's items in order.
\<close>

section \<open>The conversation of a run\<close>

text \<open>
  What the network knows of an open descriptor: its client (clients are numbered in the order in which they are accepted),
  how many of the bytes that have arrived are unread, and whether the client has hung up. \<open>str c\<close> is what client \<open>c\<close> has yet
  to send. Bytes arrive in any pieces, a client hangs up at any moment (also with items unsent), and a connection is reported readable
  at any moment: with a whole item arrived, with a part of one, with nothing, or at its end. \<open>conversation\<close>
  is nothing only when an event does not fit what a kernel does: bytes that are not the client's next ones or come after its hang-up, a
  readable event on a descriptor that is not open, or a descriptor that is in use given to a new connection.
  Bytes and hang-ups for a connection that the server has closed go nowhere.
  Otherwise it lists what the server is to tell: an acceptance (also one that failed), an item of a client, and a client whose
  connection is broken off because a read of a whole item gets only \<open>n\<close> bytes (or -1, when nothing has arrived).
\<close>

type_synonym link = "nat \<times> nat \<times> bool"

datatype telling = New_conn | Item_of nat | Broken_off nat int

fun conversation ::
    "int \<Rightarrow> (nat \<Rightarrow> byte list) \<Rightarrow> nat \<Rightarrow> (int \<rightharpoonup> link) \<Rightarrow> server_event list \<Rightarrow> telling list option" where
  "conversation d str j L [] = Some []"
| "conversation d str j L (Arrive g bs # es) =
     (case L g of
        None \<Rightarrow> conversation d str j L es
      | Some (c, n, h) \<Rightarrow>
          if \<not> h \<and> take (length bs) (str c) = bs
          then conversation d (str(c := drop (length bs) (str c))) j (L(g \<mapsto> (c, n + length bs, False))) es else None)"
| "conversation d str j L (Hang_up g # es) =
     (case L g of
        None \<Rightarrow> conversation d str j L es
      | Some (c, n, h) \<Rightarrow> conversation d str j (L(g \<mapsto> (c, n, True))) es)"
| "conversation d str j L (Epoll g epollin new_fd # es) =
     (if g = d then
        if new_fd < 0 then map_option (\<lambda>ts. New_conn # ts) (conversation d str j L es)
        else if new_fd \<noteq> d \<and> L new_fd = None
        then map_option (\<lambda>ts. New_conn # ts) (conversation d str (Suc j) (L(new_fd \<mapsto> (j, 0, False))) es) else None
      else if \<not> epollin then conversation d str j L es
      else (case L g of
        None \<Rightarrow> None
      | Some (c, n, h) \<Rightarrow>
          if NET_ITEM_SIZE \<le> n
          then map_option (\<lambda>ts. Item_of c # ts) (conversation d str j (L(g \<mapsto> (c, n - NET_ITEM_SIZE, h))) es)
          else if n = 0 \<and> h then conversation d str j (L(g := None)) es
          else map_option (\<lambda>ts. Broken_off c (if n = 0 then - 1 else int n) # ts) (conversation d str j (L(g := None)) es)))"

text \<open>Which client a report is about, and the lengths at which a client's reads broke off.\<close>

fun about :: "telling \<Rightarrow> nat option" where
  "about New_conn = None"
| "about (Item_of c) = Some c"
| "about (Broken_off c n) = Some c"

fun broken_off :: "nat \<Rightarrow> telling list \<Rightarrow> int list" where
  "broken_off c [] = []"
| "broken_off c (Broken_off c' n # ts) = (if c' = c then [n] else []) @ broken_off c ts"
| "broken_off c (t # ts) = broken_off c ts"

text \<open>The reports that the conversation asks for, when \<open>nms c\<close> are the names of client \<open>c\<close>'s items.\<close>

fun answers :: "(nat \<Rightarrow> byte list list) \<Rightarrow> telling list \<Rightarrow> report list" where
  "answers nms [] = []"
| "answers nms (New_conn # ts) = New_client # answers nms ts"
| "answers nms (Item_of c # ts) = Valid_item (hd (nms c)) # answers (nms(c := tl (nms c))) ts"
| "answers nms (Broken_off c n # ts) = Non_integrated n # answers nms ts"

lemma length_answers [simp]: "length (answers nms ts) = length ts"
proof (induction ts arbitrary: nms)
  case (Cons t ts)
  then show ?case by (cases t) simp_all
qed simp

text \<open>The answers that concern one client.\<close>

definition answers_to :: "nat option \<Rightarrow> telling list \<Rightarrow> report list \<Rightarrow> report list" where
  "answers_to who ts rs = map snd (filter (\<lambda>e. about (fst e) = who) (zip ts rs))"

lemma answers_to_simps [simp]:
  "answers_to who [] rs = []"
  "answers_to who (t # ts) (r # rs) = (if about t = who then [r] else []) @ answers_to who ts rs"
  by (simp_all add: answers_to_def)

lemma answers_to_accept: "answers_to None ts (answers nms ts) = replicate (count_list ts New_conn) New_client"
proof (induction ts arbitrary: nms)
  case (Cons t ts)
  then show ?case by (cases t) simp_all
qed simp

text \<open>
  Each client's part of the conversation is a run of items and then, at most, one broken read: a
  connection that was closed is never spoken of again.
\<close>

definition part_of :: "nat \<Rightarrow> telling list \<Rightarrow> telling list" where
  "part_of c ts = filter (\<lambda>t. about t = Some c) ts"

lemma part_of_simps [simp]:
  "part_of c [] = []"
  "part_of c (t # ts) = (if about t = Some c then [t] else []) @ part_of c ts"
  by (simp_all add: part_of_def)

definition well_told :: "nat \<Rightarrow> telling list \<Rightarrow> bool" where
  "well_told c ts \<longleftrightarrow>
     part_of c ts = replicate (count_list ts (Item_of c)) (Item_of c) @ map (Broken_off c) (broken_off c ts) \<and>
     length (broken_off c ts) \<le> 1 \<and> (\<forall>n \<in> set (broken_off c ts). n = -1 \<or> 0 < n \<and> n < int NET_ITEM_SIZE)"

lemma nothing_told: "part_of c ts = [] \<Longrightarrow> count_list ts (Item_of c) = 0 \<and> broken_off c ts = []"
proof (induction ts)
  case (Cons t ts)
  then show ?case by (cases t) (auto split: if_splits)
qed simp

lemma well_told_other [simp]: "about t \<noteq> Some c \<Longrightarrow> well_told c (t # ts) = well_told c ts"
  by (cases t) (auto simp: well_told_def)

lemma well_told_item [simp]: "well_told c (Item_of c # ts) = well_told c ts"
  by (simp add: well_told_def)

lemma well_told_broken:
  "part_of c ts = [] \<Longrightarrow> n = -1 \<or> 0 < n \<and> n < int NET_ITEM_SIZE \<Longrightarrow> well_told c (Broken_off c n # ts)"
  using nothing_told [of c ts] by (simp add: well_told_def)

lemma answers_to_part:
  "count_list ts (Item_of c) \<le> length (nms c) \<Longrightarrow> well_told c ts \<Longrightarrow>
   answers_to (Some c) ts (answers nms ts)
     = map Valid_item (take (count_list ts (Item_of c)) (nms c)) @ map Non_integrated (broken_off c ts)"
proof (induction ts arbitrary: nms)
  case (Cons t ts)
  show ?case
  proof (cases t)
    case New_conn
    with Cons show ?thesis by simp
  next
    case (Item_of c')
    show ?thesis
    proof (cases "c' = c")
      case True
      with Cons.prems Item_of obtain nm rest where nms: "nms c = nm # rest" by (cases "nms c") auto
      with Cons.IH [of "nms(c := rest)"] Cons.prems Item_of True show ?thesis by (simp add: fun_upd_def)
    next
      case False
      with Cons.IH [of "nms(c' := tl (nms c'))"] Cons.prems Item_of show ?thesis by (simp add: fun_upd_def)
    qed
  next
    case (Broken_off c' n)
    show ?thesis
    proof (cases "c' = c")
      case True
      have shape: "Broken_off c n # part_of c ts
          = replicate (count_list ts (Item_of c)) (Item_of c) @ Broken_off c n # map (Broken_off c) (broken_off c ts)"
        and one: "broken_off c ts = []"
        using Cons.prems(2) True Broken_off by (auto simp: well_told_def)
      from shape have "count_list ts (Item_of c) = 0" by (cases "count_list ts (Item_of c)") simp_all
      with shape one have "well_told c ts" by (simp add: well_told_def)
      with Cons.IH [of nms] \<open>count_list ts (Item_of c) = 0\<close> one Broken_off True show ?thesis by simp
    next
      case False
      with Cons.IH [of nms] Cons.prems Broken_off show ?thesis by simp
    qed
  qed
qed simp

text \<open>
  One event of a conversation: the links that it leaves are older ones, at the same descriptor and of the same client, or a new one of a
  new client; what it tells is about a client that was linked.
\<close>

lemma conversation_step:
  assumes "conversation d str j L (e # es) = Some ts"
  obtains str' j' L' told ts' where "conversation d str' j' L' es = Some ts'" and "ts = told @ ts'" and "j \<le> j'"
    and "\<And>g l. L' g = Some l \<Longrightarrow> (\<exists>l0. L g = Some l0 \<and> fst l0 = fst l) \<or> L g = None \<and> fst l = j \<and> j' = Suc j \<and> (\<forall>g'. g' \<noteq> g \<longrightarrow> L' g' = L g')"
    and "told = [] \<or> told = [New_conn] \<or> (\<exists>g l. L g = Some l \<and> (told = [Item_of (fst l)] \<or>
      (\<exists>n. told = [Broken_off (fst l) n] \<and> L' = L(g := None) \<and> j' = j \<and> (n = -1 \<or> 0 < n \<and> n < int NET_ITEM_SIZE))))"
proof (cases e)
  case (Arrive g bs)
  show thesis
  proof (cases "L g")
    case None
    with Arrive assms show thesis by (intro that [of str j L ts "[]"]) auto
  next
    case (Some l)
    obtain c n h where "l = (c, n, h)" by (cases l)
    with Arrive Some assms show thesis
      by (intro that [of "str(c := drop (length bs) (str c))" j "L(g \<mapsto> (c, n + length bs, False))" ts "[]"]) (auto split: if_splits)
  qed
next
  case (Hang_up g)
  show thesis
  proof (cases "L g")
    case None
    with Hang_up assms show thesis by (intro that [of str j L ts "[]"]) auto
  next
    case (Some l)
    obtain c n h where "l = (c, n, h)" by (cases l)
    with Hang_up Some assms show thesis
      by (intro that [of str j "L(g \<mapsto> (c, n, True))" ts "[]"]) (auto split: if_splits)
  qed
next
  case (Epoll g epollin new_fd)
  consider (refused) "g = d" "new_fd < 0" | (accepted) "g = d" "0 \<le> new_fd" | (other) "g \<noteq> d" "\<not> epollin" | (readable) "g \<noteq> d" epollin
    by linarith
  then show thesis
  proof cases
    case refused
    with Epoll assms obtain ts' where "conversation d str j L es = Some ts'" "ts = New_conn # ts'" by auto
    then show thesis by (intro that [of str j L ts' "[New_conn]"]) auto
  next
    case accepted
    with Epoll assms obtain ts' where "L new_fd = None" "conversation d str (Suc j) (L(new_fd \<mapsto> (j, 0, False))) es = Some ts'"
      "ts = New_conn # ts'" by (auto split: if_splits)
    then show thesis by (intro that [of str "Suc j" "L(new_fd \<mapsto> (j, 0, False))" ts' "[New_conn]"]) (auto split: if_splits)
  next
    case other
    with Epoll assms show thesis by (intro that [of str j L ts "[]"]) auto
  next
    case readable
    with Epoll assms obtain l where L: "L g = Some l" by (cases "L g") auto
    obtain c n h where l: "l = (c, n, h)" by (cases l)
    consider (whole) "NET_ITEM_SIZE \<le> n" | (ended) "n < NET_ITEM_SIZE" "n = 0 \<and> h" | (part) "n < NET_ITEM_SIZE" "\<not> (n = 0 \<and> h)" by linarith
    then show thesis
    proof cases
      case whole
      with Epoll assms readable L l obtain ts' where
        "conversation d str j (L(g \<mapsto> (c, n - NET_ITEM_SIZE, h))) es = Some ts'" "ts = Item_of c # ts'" by auto
      with L l show thesis by (intro that [of str j "L(g \<mapsto> (c, n - NET_ITEM_SIZE, h))" ts' "[Item_of c]"]) (auto split: if_splits)
    next
      case ended
      with Epoll assms readable L l have "conversation d str j (L(g := None)) es = Some ts" by auto
      then show thesis by (intro that [of str j "L(g := None)" ts "[]"]) (auto split: if_splits)
    next
      case part
      let ?n = "if n = 0 then - 1 else int n"
      from part Epoll assms readable L l obtain ts' where
        "conversation d str j (L(g := None)) es = Some ts'" "ts = Broken_off c ?n # ts'" by (auto split: if_splits)
      moreover have "?n = -1 \<or> 0 < ?n \<and> ?n < int NET_ITEM_SIZE" using part by auto
      ultimately show thesis using L l
        by (intro that [of str j "L(g := None)" ts' "[Broken_off c ?n]"]) (auto split: if_splits)
    qed
  qed
qed

text \<open>A client whose connection is closed is not heard of again.\<close>

lemma closed_is_silent:
  assumes "conversation d str j L es = Some ts" and "c < j" and "\<And>g l. L g = Some l \<Longrightarrow> fst l \<noteq> c"
  shows "part_of c ts = []"
  using assms
proof (induction es arbitrary: str j L ts)
  case (Cons e es)
  from Cons.prems(1) obtain str' j' L' told ts' where step: "conversation d str' j' L' es = Some ts'" "ts = told @ ts'" "j \<le> j'"
    "\<And>g l. L' g = Some l \<Longrightarrow> (\<exists>l0. L g = Some l0 \<and> fst l0 = fst l) \<or> fst l = j"
    "told = [] \<or> told = [New_conn] \<or> (\<exists>g l. L g = Some l \<and> (told = [Item_of (fst l)] \<or> (\<exists>n. told = [Broken_off (fst l) n])))"
    by (rule conversation_step) blast
  have "part_of c ts' = []"
    using step(3,4) Cons.prems(2,3) by (intro Cons.IH [OF step(1)]) (auto, fastforce+)
  moreover have "part_of c told = []" using step(5) Cons.prems(3) by auto
  ultimately show ?case by (simp add: step(2) part_of_def)
qed simp

lemma conversation_well_told:
  assumes "conversation d str j L es = Some ts" and "\<And>g l. L g = Some l \<Longrightarrow> fst l < j"
    and "\<And>g g' l l'. L g = Some l \<Longrightarrow> L g' = Some l' \<Longrightarrow> fst l = fst l' \<Longrightarrow> g = g'"
  shows "well_told c ts"
  using assms
proof (induction es arbitrary: str j L ts)
  case Nil
  then show ?case by (simp add: well_told_def)
next
  case (Cons e es)
  from Cons.prems(1) obtain str' j' L' told ts' where step: "conversation d str' j' L' es = Some ts'" "ts = told @ ts'" "j \<le> j'"
    "\<And>g l. L' g = Some l \<Longrightarrow> (\<exists>l0. L g = Some l0 \<and> fst l0 = fst l) \<or> L g = None \<and> fst l = j \<and> j' = Suc j \<and> (\<forall>g'. g' \<noteq> g \<longrightarrow> L' g' = L g')"
    "told = [] \<or> told = [New_conn] \<or> (\<exists>g l. L g = Some l \<and> (told = [Item_of (fst l)] \<or>
      (\<exists>n. told = [Broken_off (fst l) n] \<and> L' = L(g := None) \<and> j' = j \<and> (n = -1 \<or> 0 < n \<and> n < int NET_ITEM_SIZE))))"
    by (rule conversation_step) blast
  have less: "fst l < j'" if "L' g = Some l" for g l
    using step(3) step(4) [OF that] Cons.prems(2) by fastforce
  have "g = g'" if "L' g = Some l" "L' g' = Some l'" "fst l = fst l'" for g g' l l'
    using step(4) [OF that(1)] step(4) [OF that(2)] Cons.prems(2,3) that by (metis less_irrefl)
  with Cons.IH [OF step(1)] less have rest: "well_told c ts'" by blast
  from step(5) consider (quiet) "told = [] \<or> told = [New_conn]" | (item) l :: link where "told = [Item_of (fst l)]"
    | (broken) g l n where "L g = Some l" "told = [Broken_off (fst l) n]" "L' = L(g := None)" "j' = j"
        "n = -1 \<or> 0 < n \<and> n < int NET_ITEM_SIZE"
    by (elim disjE exE conjE) blast+
  then show ?case
  proof cases
    case told: (broken g l n)
    note n = told(5)
    show ?thesis
    proof (cases "fst l = c")
      case True
      have "part_of c ts' = []"
      proof (rule closed_is_silent [OF step(1)])
        show "c < j'" using Cons.prems(2) [OF told(1)] told(4) True by simp
        show "fst l' \<noteq> c" if "L' g' = Some l'" for g' l'
          using that Cons.prems(3) [of g' l' g l] told(1,3) True by (auto split: if_splits)
      qed
      then show ?thesis using told(2) step(2) True n by (auto intro: well_told_broken)
    next
      case False
      with told(2) step(2) rest show ?thesis by simp
    qed
  next
    case (item l)
    with step(2) rest show ?thesis by (cases "fst l = c") simp_all
  next
    case quiet
    with step(2) rest show ?thesis by auto
  qed
qed

lemma prefix_of_append:
  assumes "b @ t = x @ y" and "length x \<le> length b"
  obtains rest where "b = x @ rest" and "rest @ t = y"
proof -
  have "take (length x) b = x" using assms by (metis append_eq_append_conv_if append_eq_conv_conj take_all_iff)
  then have "b = x @ drop (length x) b" by (metis append_take_drop_id)
  with assms(1) that show thesis by (metis append.assoc same_append_eq)
qed

section \<open>The server keeps up with the conversation\<close>

text \<open>
  The server's connections are those of the network, and what has arrived on one, together with what is yet to come, are
  the items of its client that are to be read, \<open>xs c\<close>.
\<close>

definition link_ok :: "(nat \<Rightarrow> byte list) \<Rightarrow> nat \<Rightarrow> (nat \<Rightarrow> net_item list) \<Rightarrow> connection option \<Rightarrow> link \<Rightarrow> bool" where
  "link_ok str j xs k l \<longleftrightarrow>
     (case l of (c, n, h) \<Rightarrow> c < j \<and> (\<exists>b. k = Some \<lparr>arrived = b, hung_up = h\<rparr> \<and> length b = n \<and>
        b @ str c = concat (map net_item_bytes (xs c))))"

definition in_step :: "(nat \<Rightarrow> byte list) \<Rightarrow> nat \<Rightarrow> (int \<rightharpoonup> link) \<Rightarrow> (nat \<Rightarrow> net_item list) \<Rightarrow> server \<Rightarrow> bool" where
  "in_step str j L xs s \<longleftrightarrow>
     (\<forall>g l. L g = Some l \<longrightarrow> link_ok str j xs (connections s g) l) \<and>
     (\<forall>g g' l l'. L g = Some l \<longrightarrow> L g' = Some l' \<longrightarrow> fst l = fst l' \<longrightarrow> g = g') \<and>
     (\<forall>c \<ge> j. str c = concat (map net_item_bytes (xs c))) \<and>
     L (m_socket s) = None \<and> length (witem s) = NET_ITEM_SIZE"

lemma in_stepD:
  assumes "in_step str j L xs s"
  shows "\<And>g l. L g = Some l \<Longrightarrow> link_ok str j xs (connections s g) l"
    "\<And>g g' l l'. L g = Some l \<Longrightarrow> L g' = Some l' \<Longrightarrow> fst l = fst l' \<Longrightarrow> g = g'"
    "\<And>c. j \<le> c \<Longrightarrow> str c = concat (map net_item_bytes (xs c))"
    "L (m_socket s) = None" "length (witem s) = NET_ITEM_SIZE"
  using assms unfolding in_step_def by blast+

lemma in_stepI:
  assumes "\<And>g l. L g = Some l \<Longrightarrow> link_ok str j xs (connections s g) l"
    and "\<And>g g' l l'. L g = Some l \<Longrightarrow> L g' = Some l' \<Longrightarrow> fst l = fst l' \<Longrightarrow> g = g'"
    and "\<And>c. j \<le> c \<Longrightarrow> str c = concat (map net_item_bytes (xs c))"
    and "L (m_socket s) = None" and "length (witem s) = NET_ITEM_SIZE"
  shows "in_step str j L xs s"
  unfolding in_step_def using assms by blast

text \<open>A step on descriptor \<open>g\<close>, which concerns its client only.\<close>

lemma in_step_update:
  assumes ok: "in_step str j L xs s" and g: "L g = Some (c, n, h)"
    and b: "b @ str' c = concat (map net_item_bytes (xs' c))"
    and others: "\<And>c'. c' \<noteq> c \<Longrightarrow> str' c' = str c' \<and> xs' c' = xs c'" and w: "length w = NET_ITEM_SIZE"
  shows "in_step str' j (L(g \<mapsto> (c, length b, h'))) xs'
    (s\<lparr>connections := (connections s)(g \<mapsto> \<lparr>arrived = b, hung_up = h'\<rparr>), witem := w, reports := rs\<rparr>)"
proof -
  note I = in_stepD [OF ok]
  have c: "c < j" using I(1) [OF g] by (auto simp: link_ok_def)
  have alone: "fst l \<noteq> c" if "L g' = Some l" "g' \<noteq> g" for g' l
    using I(2) [OF that(1) g] that(2) by auto
  show ?thesis
  proof (rule in_stepI)
    fix g' l assume l: "(L(g \<mapsto> (c, length b, h'))) g' = Some l"
    let ?k = "connections (s\<lparr>connections := (connections s)(g \<mapsto> \<lparr>arrived = b, hung_up = h'\<rparr>), witem := w, reports := rs\<rparr>) g'"
    show "link_ok str' j xs' ?k l"
    proof (cases "g' = g")
      case True
      with l b c show ?thesis by (auto simp: link_ok_def)
    next
      case False
      with l have "L g' = Some l" by simp
      from I(1) [OF this] others [OF alone [OF this False]] False show ?thesis by (auto simp: link_ok_def)
    qed
  next
    fix g1 g2 l1 l2
    assume "(L(g \<mapsto> (c, length b, h'))) g1 = Some l1" "(L(g \<mapsto> (c, length b, h'))) g2 = Some l2" "fst l1 = fst l2"
    then show "g1 = g2" using alone [of g1 l1] alone [of g2 l2] I(2) [of g1 l1 g2 l2] by (auto split: if_splits)
  next
    fix c' assume "j \<le> c'"
    with I(3) [of c'] others [of c'] c show "str' c' = concat (map net_item_bytes (xs' c'))" by auto
  next
    have "g \<noteq> m_socket s" using g I(4) by auto
    with I(4) show "(L(g \<mapsto> (c, length b, h')))
        (m_socket (s\<lparr>connections := (connections s)(g \<mapsto> \<lparr>arrived = b, hung_up = h'\<rparr>), witem := w, reports := rs\<rparr>)) = None"
      by simp
  qed (simp add: w)
qed

lemma in_step_close:
  assumes ok: "in_step str j L xs s" and w: "length w = NET_ITEM_SIZE"
  shows "in_step str j (L(g := None)) xs (s\<lparr>connections := (connections s)(g := k), witem := w, reports := rs\<rparr>)"
proof -
  note I = in_stepD [OF ok]
  show ?thesis
  proof (rule in_stepI)
    fix g' l assume "(L(g := None)) g' = Some l"
    with I(1) [of g' l] show "link_ok str j xs (connections (s\<lparr>connections := (connections s)(g := k), witem := w, reports := rs\<rparr>) g') l"
      by (auto split: if_splits)
  next
    fix g1 g2 l1 l2 assume "(L(g := None)) g1 = Some l1" "(L(g := None)) g2 = Some l2" "fst l1 = fst l2"
    with I(2) [of g1 l1 g2 l2] show "g1 = g2" by (auto split: if_splits)
  qed (use I(3,4) w in simp_all)
qed

lemma in_step_accept:
  assumes ok: "in_step str j L xs s" and new: "L g = None" and not_listening: "g \<noteq> m_socket s"
  shows "in_step str (Suc j) (L(g \<mapsto> (j, 0, False))) xs
    (say New_client (s\<lparr>connections := (connections s)(g \<mapsto> \<lparr>arrived = [], hung_up = False\<rparr>)\<rparr>))"
proof -
  note I = in_stepD [OF ok]
  have older: "fst l < j" if "L g' = Some l" for g' l using I(1) [OF that] by (auto simp: link_ok_def)
  show ?thesis
  proof (rule in_stepI)
    fix g' l assume l: "(L(g \<mapsto> (j, 0, False))) g' = Some l"
    with I(1) [of g' l] I(3) [of j]
    show "link_ok str (Suc j) xs
        (connections (say New_client (s\<lparr>connections := (connections s)(g \<mapsto> \<lparr>arrived = [], hung_up = False\<rparr>)\<rparr>)) g') l"
      by (auto simp: link_ok_def say_def split: if_splits)
  next
    fix g1 g2 l1 l2
    assume "(L(g \<mapsto> (j, 0, False))) g1 = Some l1" "(L(g \<mapsto> (j, 0, False))) g2 = Some l2" "fst l1 = fst l2"
    with I(2) [of g1 l1 g2 l2] older [of g1 l1] older [of g2 l2] show "g1 = g2" by (auto split: if_splits)
  qed (use I(3-5) not_listening in \<open>simp_all add: say_def\<close>)
qed

text \<open>A read that gets nothing or a part of an item.\<close>

lemma handle_broken:
  assumes "fd \<noteq> m_socket s" and "connections s fd = Some \<lparr>arrived = b, hung_up = h\<rparr>" and "length b < NET_ITEM_SIZE"
    and "\<not> (b = [] \<and> h)" and "length (witem s) = NET_ITEM_SIZE"
  shows "\<exists>w. length w = NET_ITEM_SIZE \<and> handle_event fd True g s =
    Inr (s\<lparr>connections := (connections s)(fd := None), witem := w,
      reports := reports s @ [Non_integrated (if b = [] then -1 else int (length b))]\<rparr>)"
proof -
  have twice: "(connections s)(fd := k, fd := None) = (connections s)(fd := None)" for k by simp
  show ?thesis
  proof (cases "b = []")
    case True
    with assms show ?thesis
      by (intro exI [of _ "witem s"]) (simp add: handle_event_def handle_readable_def recv_def Let_def close_fd_def say_def twice
        NET_ITEM_SIZE_def del: fun_upd_apply)
  next
    case False
    with assms show ?thesis
      by (intro exI [of _ "b @ drop (length b) (witem s)"]) (simp add: handle_event_def handle_readable_def recv_def Let_def close_fd_def
        say_def twice NET_ITEM_SIZE_def del: fun_upd_apply)
  qed
qed

lemma server_follows:
  assumes "conversation (m_socket s) str j L es = Some ts" and "in_step str j L xs s"
    and "\<And>c. list_all2 good_item (xs c) (nms c)"
  shows "\<exists>s'. server_run es s = Inr s' \<and> reports s' = reports s @ answers nms ts \<and>
    (\<forall>c. count_list ts (Item_of c) \<le> length (xs c))"
  using assms
proof (induction es arbitrary: s str j L ts xs nms)
  case Nil
  then show ?case by simp
next
  case (Cons e es)
  note I = in_stepD [OF Cons.prems(2)]
  have same: "s\<lparr>connections := k\<rparr> = s\<lparr>connections := k, witem := witem s, reports := reports s\<rparr>" for k by simp
  have unlinked: "in_step str j L xs (s\<lparr>connections := (connections s)(g := k)\<rparr>)" if "L g = None" for g k
    using in_step_close [OF Cons.prems(2) I(5), where g = g and k = k and rs = "reports s"] that by (simp add: fun_upd_idem)
  show ?case
  proof (cases e)
    case (Arrive g bs)
    show ?thesis
    proof (cases "L g")
      case None
      with Cons.prems(1) Arrive have conv: "conversation (m_socket s) str j L es = Some ts" by simp
      from Cons.IH [OF _ unlinked [OF None] Cons.prems(3)] conv show ?thesis by (simp add: Arrive server_step_def)
    next
      case (Some l)
      with Arrive Cons.prems(1) obtain c n where L: "L g = Some (c, n, False)" "take (length bs) (str c) = bs"
        and conv: "conversation (m_socket s) (str(c := drop (length bs) (str c))) j (L(g \<mapsto> (c, n + length bs, False))) es = Some ts"
        by (cases l) (auto split: if_splits)
      from I(1) [OF L(1)] obtain b where b: "connections s g = Some \<lparr>arrived = b, hung_up = False\<rparr>" "length b = n"
        "b @ str c = concat (map net_item_bytes (xs c))" by (auto simp: link_ok_def)
      let ?s = "s\<lparr>connections := (connections s)(g \<mapsto> \<lparr>arrived = b @ bs, hung_up = False\<rparr>), witem := witem s, reports := reports s\<rparr>"
      have step: "server_step e s = Inr ?s" by (simp add: Arrive server_step_def b(1))
      have "(b @ bs) @ drop (length bs) (str c) = concat (map net_item_bytes (xs c))"
        using L(2) b(3) by (metis append.assoc append_take_drop_id)
      then have "in_step (str(c := drop (length bs) (str c))) j (L(g \<mapsto> (c, length (b @ bs), False))) xs ?s"
        by (intro in_step_update [OF Cons.prems(2) L(1) _ _ I(5)]) simp_all
      with Cons.IH [of ?s, OF _ _ Cons.prems(3)] conv b(2) step show ?thesis by simp
    qed
  next
    case (Hang_up g)
    show ?thesis
    proof (cases "L g")
      case None
      with Cons.prems(1) Hang_up have conv: "conversation (m_socket s) str j L es = Some ts" by simp
      from Cons.IH [OF _ unlinked [OF None] Cons.prems(3)] conv show ?thesis by (simp add: Hang_up server_step_def)
    next
      case (Some l)
      with Hang_up Cons.prems(1) obtain c n h where L: "L g = Some (c, n, h)"
        and conv: "conversation (m_socket s) str j (L(g \<mapsto> (c, n, True))) es = Some ts"
        by (cases l) auto
      from I(1) [OF L] obtain b where b: "connections s g = Some \<lparr>arrived = b, hung_up = h\<rparr>" "length b = n"
        "b @ str c = concat (map net_item_bytes (xs c))" by (auto simp: link_ok_def)
      let ?s = "s\<lparr>connections := (connections s)(g \<mapsto> \<lparr>arrived = b, hung_up = True\<rparr>), witem := witem s, reports := reports s\<rparr>"
      have step: "server_step e s = Inr ?s" by (simp add: Hang_up server_step_def b(1))
      have "in_step str j (L(g \<mapsto> (c, length b, True))) xs ?s"
        by (intro in_step_update [OF Cons.prems(2) L _ _ I(5)]) (simp_all add: b(3))
      with Cons.IH [of ?s, OF _ _ Cons.prems(3)] conv b(2) step show ?thesis by simp
    qed
  next
    case (Epoll g epollin new_fd)
    consider (refused) "g = m_socket s" "new_fd < 0" | (accepted) "g = m_socket s" "0 \<le> new_fd"
      | (other) "g \<noteq> m_socket s" "\<not> epollin" | (readable) "g \<noteq> m_socket s" epollin
      by linarith
    then show ?thesis
    proof cases
      case refused
      with Epoll Cons.prems(1) obtain ts' where conv: "conversation (m_socket s) str j L es = Some ts'" "ts = New_conn # ts'" by auto
      have step: "server_step e s = Inr (say New_client s)" using refused by (simp add: Epoll server_step_def handle_event_def)
      have "in_step str j L xs (say New_client s)" using Cons.prems(2) by (simp add: in_step_def say_def)
      with Cons.IH [OF _ this Cons.prems(3), of ts'] conv step show ?thesis by (auto simp: say_def)
    next
      case accepted
      with Epoll Cons.prems(1) obtain ts' where new: "new_fd \<noteq> m_socket s" "L new_fd = None"
        and conv: "conversation (m_socket s) str (Suc j) (L(new_fd \<mapsto> (j, 0, False))) es = Some ts'" "ts = New_conn # ts'"
        by (auto split: if_splits)
      let ?s = "say New_client (s\<lparr>connections := (connections s)(new_fd \<mapsto> \<lparr>arrived = [], hung_up = False\<rparr>)\<rparr>)"
      have step: "server_step e s = Inr ?s" using accepted by (simp add: Epoll server_step_def handle_event_def)
      have "m_socket ?s = m_socket s" "reports ?s = reports s @ [New_client]" by (simp_all add: say_def)
      moreover from this conv(1) have "conversation (m_socket ?s) str (Suc j) (L(new_fd \<mapsto> (j, 0, False))) es = Some ts'" by metis
      note Cons.IH [OF this in_step_accept [OF Cons.prems(2) new(2,1)] Cons.prems(3)]
      ultimately show ?thesis using conv(2) step by auto
    next
      case other
      with Epoll Cons.prems(1) Cons.IH [OF _ Cons.prems(2,3)] show ?thesis
        by (auto simp: server_step_def handle_event_def)
    next
      case readable
      with Epoll Cons.prems(1) obtain l where Ll: "L g = Some l" by (cases "L g") auto
      obtain c n h where l: "l = (c, n, h)" by (cases l)
      note L = Ll [unfolded l]
      from I(1) [OF L] obtain b where b: "connections s g = Some \<lparr>arrived = b, hung_up = h\<rparr>" "length b = n"
        "b @ str c = concat (map net_item_bytes (xs c))" by (auto simp: link_ok_def)
      consider (whole) "NET_ITEM_SIZE \<le> n" | (ended) "n < NET_ITEM_SIZE" "n = 0 \<and> h" | (part) "n < NET_ITEM_SIZE" "\<not> (n = 0 \<and> h)" by linarith
      then show ?thesis
      proof cases
        case whole
        with Epoll Cons.prems(1) readable L obtain ts' where
          conv: "conversation (m_socket s) str j (L(g \<mapsto> (c, n - NET_ITEM_SIZE, h))) es = Some ts'" "ts = Item_of c # ts'" by auto
        have "b \<noteq> []" using whole b(2) by (auto simp: NET_ITEM_SIZE_def)
        with b(3) obtain x xs' where x: "xs c = x # xs'" by (cases "xs c") auto
        with Cons.prems(3) [of c] obtain nm nms' where nm: "nms c = nm # nms'" "good_item x nm" "list_all2 good_item xs' nms'"
          by (auto simp: list_all2_Cons1)
        have len: "length (net_item_bytes x) = NET_ITEM_SIZE"
          using nm(2) by (intro net_codec.enc_length) (simp add: good_item_def)
        have split: "b @ str c = net_item_bytes x @ concat (map net_item_bytes xs')" using b(3) x by simp
        obtain rest where rest: "b = net_item_bytes x @ rest" "rest @ str c = concat (map net_item_bytes xs')"
          by (rule prefix_of_append [OF split]) (use whole b(2) len in simp)
        let ?s = "s\<lparr>connections := (connections s)(g \<mapsto> \<lparr>arrived = rest, hung_up = h\<rparr>), witem := net_item_bytes x,
            reports := reports s @ [Valid_item nm]\<rparr>"
        have step: "server_step e s = Inr ?s"
          using handle_whole_item [OF readable(1) _ nm(2) I(5), of rest h new_fd] b(1) rest(1) readable(2) Epoll
          by (simp add: server_step_def say_def)
        have "in_step str j (L(g \<mapsto> (c, length rest, h))) (xs(c := xs')) ?s"
          by (rule in_step_update [OF Cons.prems(2) L]) (simp_all add: rest(2) len)
        moreover have "n - NET_ITEM_SIZE = length rest" using b(2) rest(1) len by simp
        moreover have "list_all2 good_item ((xs(c := xs')) c') ((nms(c := tl (nms c))) c')" for c'
          using Cons.prems(3) [of c'] nm by simp
        ultimately obtain s' where s': "server_run es ?s = Inr s'" "reports s' = reports ?s @ answers (nms(c := tl (nms c))) ts'"
          "\<And>c'. count_list ts' (Item_of c') \<le> length ((xs(c := xs')) c')"
          using Cons.IH [of ?s str j _ ts' "xs(c := xs')" "nms(c := tl (nms c))"] conv(1) by fastforce
        have "count_list ts (Item_of c') \<le> length (xs c')" for c'
          using s'(3) [of c'] conv(2) x by (auto split: if_splits)
        with s' step conv(2) nm(1) show ?thesis by simp
      next
        case ended
        with Epoll Cons.prems(1) readable L have conv: "conversation (m_socket s) str j (L(g := None)) es = Some ts" by auto
        let ?s = "s\<lparr>connections := (connections s)(g := None), witem := witem s, reports := reports s\<rparr>"
        have twice: "(connections s)(g := k, g := None) = (connections s)(g := None)" for k by simp
        have step: "server_step e s = Inr ?s"
          using ended b(1,2) readable Epoll
          by (simp add: server_step_def handle_event_def handle_readable_def recv_def Let_def close_fd_def twice del: fun_upd_apply)
        have "m_socket ?s = m_socket s" "reports ?s = reports s" by simp_all
        with Cons.IH [OF _ in_step_close [OF Cons.prems(2) I(5), where g = g and k = None and rs = "reports s"] Cons.prems(3)] conv step
        show ?thesis by (simp add: fun_upd_def)
      next
        case part
        let ?n = "if n = 0 then - 1 else int n"
        from part Epoll Cons.prems(1) readable L obtain ts' where
          conv: "conversation (m_socket s) str j (L(g := None)) es = Some ts'" "ts = Broken_off c ?n # ts'" by (auto split: if_splits)
        obtain w where w: "length w = NET_ITEM_SIZE" "handle_event g True new_fd s =
            Inr (s\<lparr>connections := (connections s)(g := None), witem := w, reports := reports s @ [Non_integrated ?n]\<rparr>)"
          using handle_broken [OF readable(1) b(1) _ _ I(5), of new_fd] part b(2) by (auto split: if_splits)
        have step: "server_step e s =
            Inr (s\<lparr>connections := (connections s)(g := None), witem := w, reports := reports s @ [Non_integrated ?n]\<rparr>)"
          using w(2) readable(2) by (simp add: Epoll server_step_def)
        from Cons.IH [OF _ in_step_close [OF Cons.prems(2) w(1), where g = g and k = None and rs = "reports s @ [Non_integrated ?n]"] Cons.prems(3)] conv step
        show ?thesis by (simp add: fun_upd_def split: if_splits)
      qed
    qed
  qed
qed

section \<open>What the clients send\<close>

lemma items_from_good:
  assumes "items_from cid 0 xs"
  shows "list_all2 good_item xs (map (\<lambda>i. item_name_text cid (of_nat i)) [0..<length xs])"
  using assms by (simp add: items_from_def good_item_def list_all2_conv_all_nth)

lemma length_item_stream:
  "list_all wf_net_item xs \<Longrightarrow> length (concat (map net_item_bytes xs)) = NET_ITEM_SIZE * length xs"
  by (induction xs) (simp_all add: net_codec.enc_length)

lemma items_from_wf: "items_from cid k xs \<Longrightarrow> list_all wf_net_item xs"
  by (simp add: items_from_def list_all_length)

text \<open>
  The run of a client: its arguments, the clock's readings, the draws of \<^verbatim>\<open>rand\<close> and what the memory of its object held. It is
  usual when the id has one digit and the clock passes the ten seconds that a client works.
\<close>

record client_run =
  run_id :: nat
  run_prog :: "byte list"
  run_rest :: "byte list"
  run_start :: int
  run_from :: int
  run_ticks :: "int list"
  run_late :: int
  run_later :: "int list"
  run_draws :: rng
  run_name :: "byte list"
  run_data :: "byte list"

definition usual_run :: "client_run \<Rightarrow> bool" where
  "usual_run c \<longleftrightarrow>
     run_id c \<le> 9 \<and> length (run_name c) = NAME_LEN \<and> length (run_data c) = DATA_LEN \<and>
     list_all (\<lambda>t. t \<le> 10 + run_from c) (run_ticks c) \<and> 10 + run_from c < run_late c \<and>
     10 * length (run_ticks c) \<le> 1000000"

definition run_client :: "client_run \<Rightarrow> (int \<times> byte list) option result" where
  "run_client c =
     client_main [run_prog c, numeral_text 10 (run_id c) @ 0 # run_rest c] True
       (run_start c # run_from c # run_ticks c @ run_late c # run_later c) (run_draws c) (run_name c) (run_data c)"

lemma usual_run_items:
  assumes "usual_run c" and "run_client c = Inr (Some (code, sent))"
  shows "\<exists>xs. sent = concat (map net_item_bytes xs) \<and> length xs = 10 * length (run_ticks c) \<and>
    list_all2 good_item xs (map (\<lambda>i. item_name_text (of_nat (run_id c)) (of_nat i)) [0..<10 * length (run_ticks c)])"
proof -
  have u: "run_id c \<le> 9" "length (run_name c) = NAME_LEN" "length (run_data c) = DATA_LEN"
    "list_all (\<lambda>t. t \<le> 10 + run_from c) (run_ticks c)" "10 + run_from c < run_late c" "10 * length (run_ticks c) \<le> 1000000"
    using assms(1) by (simp_all add: usual_run_def)
  from client_main_stream [OF u, of "run_prog c" "run_rest c" "run_start c" "run_later c" "run_draws c"] assms(2)
  obtain xs where xs: "sent = concat (map net_item_bytes xs)" "length xs = 10 * length (run_ticks c)"
    "items_from (of_nat (run_id c)) 0 xs"
    by (auto simp: run_client_def)
  from items_from_good [OF xs(3)] xs(1,2) show ?thesis by auto
qed

lemma in_step_start:
  assumes "connections s = Map.empty" and "length (witem s) = NET_ITEM_SIZE"
    and "\<And>c. str c = concat (map net_item_bytes (xs c))"
  shows "in_step str 0 Map.empty xs s"
  using assms by (intro in_stepI) simp_all

end
