(* ===== verification/Tree_Heap.thy ===== *)
theory Tree_Heap
  imports Prelude "HOL-Library.Tree"
begin

text \<open>
  The binary trees of Chapter 10 and their test helpers, on a heap: nodes are records at
  addresses, 0 is \<^verbatim>\<open>NULL\<close>. What a function reads from a freed or unallocated address, or frees
  there, is a fault. Comparison and destruction recurse over pointers and so need not end on a
  heap with a cycle: they are partial functions, and the theorems say that they return.
\<close>

record tnode =
  data :: int
  left :: nat
  right :: nat

text \<open>
  The allocator: the next fresh address (never 0) and how many nodes it can still provide.
\<close>

record heap =
  cells :: "nat \<rightharpoonup> tnode"
  fresh :: nat
  room :: nat

definition heap_ok :: "heap \<Rightarrow> bool" where
  "heap_ok h \<longleftrightarrow> 0 < fresh h \<and> (\<forall>a \<in> dom (cells h). 0 < a \<and> a < fresh h)"

definition tmalloc :: "heap \<Rightarrow> nat \<times> heap" where
  "tmalloc h =
     (if room h = 0 then (0, h)
      else (fresh h, h\<lparr>cells := (cells h)(fresh h \<mapsto> \<lparr>data = 0, left = 0, right = 0\<rparr>),
                       fresh := Suc (fresh h), room := room h - 1\<rparr>))"

definition tread :: "heap \<Rightarrow> nat \<Rightarrow> tnode result" where
  "tread h a = (case cells h a of None \<Rightarrow> Inl Null_dereference | Some n \<Rightarrow> Inr n)"

definition tmodify :: "heap \<Rightarrow> nat \<Rightarrow> (tnode \<Rightarrow> tnode) \<Rightarrow> heap result" where
  "tmodify h a f =
     (case cells h a of None \<Rightarrow> Inl Null_dereference
      | Some n \<Rightarrow> Inr (h\<lparr>cells := (cells h)(a \<mapsto> f n)\<rparr>))"

definition tfree :: "heap \<Rightarrow> nat \<Rightarrow> heap result" where
  "tfree h a =
     (case cells h a of None \<Rightarrow> Inl Invalid_free
      | Some n \<Rightarrow> Inr (h\<lparr>cells := (cells h)(a := None), room := Suc (room h)\<rparr>))"

section \<open>The functions\<close>

definition MAX_RANDOM_TREE_NODE :: nat where "MAX_RANDOM_TREE_NODE = 100000"

text \<open>
  \<^verbatim>\<open>generate_tree_internal\<close>. The counter is passed by value, so it counts the depth. The result
  of \<^verbatim>\<open>malloc\<close> is used unchecked.
\<close>

function generate_tree_internal :: "nat \<Rightarrow> nat \<Rightarrow> rng \<Rightarrow> heap \<Rightarrow> (nat \<times> rng \<times> heap) result" where
  "generate_tree_internal random_degree node_count r h =
     (if node_count > MAX_RANDOM_TREE_NODE then Inr (0, r, h)
      else let (x, r1) = rand r in
        if x mod random_degree = 0 then Inr (0, r1, h)
        else let (root, h1) = tmalloc h; (y, r2) = rand r1 in
          (case tmodify h1 root (\<lambda>n. n\<lparr>data := int y\<rparr>) of
             Inl e \<Rightarrow> Inl e
           | Inr h2 \<Rightarrow>
          (case generate_tree_internal random_degree (Suc node_count) r2 h2 of
             Inl e \<Rightarrow> Inl e
           | Inr (p, r3, h3) \<Rightarrow>
          (case tmodify h3 root (\<lambda>n. n\<lparr>left := p\<rparr>) of
             Inl e \<Rightarrow> Inl e
           | Inr h4 \<Rightarrow>
          (case generate_tree_internal random_degree (Suc node_count) r3 h4 of
             Inl e \<Rightarrow> Inl e
           | Inr (q, r5, h5) \<Rightarrow>
          (case tmodify h5 root (\<lambda>n. n\<lparr>right := q\<rparr>) of
             Inl e \<Rightarrow> Inl e
           | Inr h6 \<Rightarrow> Inr (root, r5, h6)))))))"
  by pat_completeness auto
termination
  by (relation "measure (\<lambda>(d, c, r, h). Suc MAX_RANDOM_TREE_NODE - c)") auto

declare generate_tree_internal.simps [simp del]

definition generate_tree :: "nat \<Rightarrow> rng \<Rightarrow> heap \<Rightarrow> (nat \<times> rng \<times> heap) result" where
  "generate_tree random_degree r h =
     (if random_degree < 2 then Inr (0, r, h) else generate_tree_internal random_degree 0 r h)"

partial_function (option) is_same_tree :: "heap \<Rightarrow> nat \<Rightarrow> nat \<Rightarrow> bool result option" where
  "is_same_tree h root1 root2 =
     (if root1 = 0 \<and> root2 = 0 then Some (Inr True)
      else if root1 = 0 \<or> root2 = 0 then Some (Inr False)
      else (case tread h root1 of
              Inl e \<Rightarrow> Some (Inl e)
            | Inr n1 \<Rightarrow>
           (case tread h root2 of
              Inl e \<Rightarrow> Some (Inl e)
            | Inr n2 \<Rightarrow>
                if data n1 \<noteq> data n2 then Some (Inr False)
                else Option.bind (is_same_tree h (left n1) (left n2)) (\<lambda>b.
                  (case b of
                     Inl e \<Rightarrow> Some (Inl e)
                   | Inr same \<Rightarrow>
                       if same then is_same_tree h (right n1) (right n2) else Some (Inr False))))))"

partial_function (option) destroy_tree :: "nat \<Rightarrow> heap \<Rightarrow> heap result option" where
  "destroy_tree root h =
     (if root = 0 then Some (Inr h)
      else (case tread h root of
              Inl e \<Rightarrow> Some (Inl e)
            | Inr n \<Rightarrow>
                Option.bind (destroy_tree (left n) h) (\<lambda>r1.
                  (case r1 of
                     Inl e \<Rightarrow> Some (Inl e)
                   | Inr h1 \<Rightarrow>
                  (case tread h1 root of
                     Inl e \<Rightarrow> Some (Inl e)
                   | Inr n1 \<Rightarrow>
                Option.bind (destroy_tree (right n1) h1) (\<lambda>r2.
                  (case r2 of
                     Inl e \<Rightarrow> Some (Inl e)
                   | Inr h2 \<Rightarrow> Some (tfree h2 root))))))))"

section \<open>Trees on the heap\<close>

text \<open>A tree whose nodes are labelled with their addresses and data.\<close>

type_synonym ltree = "(nat \<times> int) tree"

fun address :: "ltree \<Rightarrow> nat" where
  "address Leaf = 0"
| "address (Node l (a, d) r) = a"

fun on_heap :: "heap \<Rightarrow> ltree \<Rightarrow> bool" where
  "on_heap h Leaf = True"
| "on_heap h (Node l (a, d) r) =
     (0 < a \<and> cells h a = Some \<lparr>data = d, left = address l, right = address r\<rparr> \<and> on_heap h l \<and> on_heap h r)"

definition nodes :: "ltree \<Rightarrow> nat list" where
  "nodes t = map fst (inorder t)"

lemma nodes_simps [simp]: "nodes Leaf = []" "nodes (Node l (a, d) r) = nodes l @ a # nodes r"
  by (simp_all add: nodes_def)

lemma on_heap_cong:
  "(\<And>a. a \<in> set (nodes t) \<Longrightarrow> cells h' a = cells h a) \<Longrightarrow> on_heap h' t = on_heap h t"
  by (induction h t rule: on_heap.induct) auto

lemma on_heap_dom: "on_heap h t \<Longrightarrow> set (nodes t) \<subseteq> dom (cells h)"
  by (induction h t rule: on_heap.induct) auto

lemma address_0: "on_heap h t \<Longrightarrow> address t = 0 \<longleftrightarrow> t = Leaf"
  by (cases t rule: address.cases) auto

section \<open>Comparison\<close>

lemma is_same_tree_on_heap:
  "on_heap h t \<Longrightarrow> on_heap h u \<Longrightarrow>
   is_same_tree h (address t) (address u) = Some (Inr (map_tree snd t = map_tree snd u))"
proof (induction t arbitrary: u)
  case Leaf
  then show ?case
    by (cases u rule: address.cases; subst is_same_tree.simps) simp_all
next
  case (Node l x r)
  obtain a d where x: "x = (a, d)" by fastforce
  show ?case
  proof (cases u rule: address.cases)
    case 1
    with Node.prems show ?thesis by (subst is_same_tree.simps) (simp add: x)
  next
    case (2 l' a' d' r')
    with Node.prems have t: "0 < a" "cells h a = Some \<lparr>data = d, left = address l, right = address r\<rparr>"
      "0 < a'" "cells h a' = Some \<lparr>data = d', left = address l', right = address r'\<rparr>"
      by (simp_all add: x)
    have "is_same_tree h (address l) (address l') = Some (Inr (map_tree snd l = map_tree snd l'))"
      "is_same_tree h (address r) (address r') = Some (Inr (map_tree snd r = map_tree snd r'))"
      using Node 2 by (simp_all add: x)
    with t show ?thesis
      by (subst is_same_tree.simps) (simp add: tread_def x 2)
  qed
qed

section \<open>Destruction\<close>

lemma destroy_tree_on_heap:
  "on_heap h t \<Longrightarrow> distinct (nodes t) \<Longrightarrow>
   destroy_tree (address t) h
   = Some (Inr (h\<lparr>cells := (cells h) |` (- set (nodes t)), room := room h + length (nodes t)\<rparr>))"
proof (induction t arbitrary: h)
  case Leaf
  have "h = h\<lparr>cells := cells h |` UNIV\<rparr>" by (cases h) (simp add: restrict_map_def)
  then show ?case by (subst destroy_tree.simps) simp
next
  case (Node l x r)
  obtain a d where x: "x = (a, d)" by fastforce
  let ?h1 = "h\<lparr>cells := (cells h) |` (- set (nodes l)), room := room h + length (nodes l)\<rparr>"
  let ?h2 = "?h1\<lparr>cells := (cells ?h1) |` (- set (nodes r)), room := room ?h1 + length (nodes r)\<rparr>"
  have t: "0 < a" "cells h a = Some \<lparr>data = d, left = address l, right = address r\<rparr>"
    "on_heap h l" "on_heap h r" "a \<notin> set (nodes l)" "a \<notin> set (nodes r)" "distinct (nodes l)"
    "distinct (nodes r)" "set (nodes l) \<inter> set (nodes r) = {}"
    using Node.prems by (auto simp: x)
  have l: "destroy_tree (address l) h = Some (Inr ?h1)"
    using Node.IH(1) t(3,7) .
  have here: "cells ?h1 a = Some \<lparr>data = d, left = address l, right = address r\<rparr>"
    using t(2,5) by simp
  have "on_heap ?h1 r"
    using t(4,9) by (subst on_heap_cong [of r ?h1 h]) (auto intro!: restrict_in)
  then have r: "destroy_tree (address r) ?h1 = Some (Inr ?h2)"
    using Node.IH(2) t(8) by blast
  have there: "cells ?h2 a = Some \<lparr>data = d, left = address l, right = address r\<rparr>"
    using here t(5,6) by (simp add: restrict_map_def)
  have "tfree ?h2 a = Inr (?h2\<lparr>cells := (cells ?h2)(a := None), room := Suc (room ?h2)\<rparr>)"
    unfolding tfree_def there by simp
  also have "(cells ?h2)(a := None) = cells h |` (- set (nodes (Node l x r)))"
    by (auto simp: restrict_map_def fun_eq_iff x)
  finally have free: "tfree ?h2 a = Inr (h\<lparr>cells := (cells h) |` (- set (nodes (Node l x r))),
      room := room h + length (nodes (Node l x r))\<rparr>)"
    by (simp add: x)
  obtain h1 h2 where hs: "h1 = ?h1" "h2 = ?h2" by blast
  have "tread h a = Inr \<lparr>data = d, left = address l, right = address r\<rparr>"
    "tread h1 a = Inr \<lparr>data = d, left = address l, right = address r\<rparr>"
    unfolding tread_def hs(1) t(2) here by simp_all
  moreover have "destroy_tree (address l) h = Some (Inr h1)" "destroy_tree (address r) h1 = Some (Inr h2)"
    unfolding hs by (fact l r)+
  ultimately have "destroy_tree (address (Node l x r)) h = Some (tfree h2 a)"
    using t(1) by (subst destroy_tree.simps) (simp add: x)
  then have "destroy_tree (address (Node l x r)) h = Some (tfree ?h2 a)" unfolding hs(2) .
  then show ?case unfolding free .
qed

section \<open>Generation\<close>

text \<open>The tree \<open>t\<close> was added to the heap \<open>h\<close>, at addresses that were free, and nothing else changed.\<close>

definition grown :: "heap \<Rightarrow> heap \<Rightarrow> ltree \<Rightarrow> bool" where
  "grown h h' t \<longleftrightarrow>
     heap_ok h' \<and> on_heap h' t \<and> distinct (nodes t) \<and> set (nodes t) \<inter> dom (cells h) = {} \<and>
     (\<forall>a. a \<notin> set (nodes t) \<longrightarrow> cells h' a = cells h a) \<and> room h' + length (nodes t) = room h"

lemma grown_Leaf: "heap_ok h \<Longrightarrow> grown h h Leaf"
  by (simp add: grown_def)

text \<open>Changing a field of a node keeps the heap and the trees that do not contain it.\<close>

lemma tmodify_Inr: "tmodify h a f = Inr h' \<longleftrightarrow> (\<exists>n. cells h a = Some n \<and> h' = h\<lparr>cells := (cells h)(a \<mapsto> f n)\<rparr>)"
  by (auto simp: tmodify_def split: option.splits)

lemma heap_ok_update: "heap_ok h \<Longrightarrow> cells h a = Some n \<Longrightarrow> heap_ok (h\<lparr>cells := (cells h)(a \<mapsto> m)\<rparr>)"
  by (auto simp: heap_ok_def)

lemma grow_node:
  assumes h: "heap_ok h" and some: "room h \<noteq> 0"
    and l: "grown (h\<lparr>cells := (cells h)(fresh h \<mapsto> n), fresh := Suc (fresh h), room := room h - 1\<rparr>) h3 l"
    and n: "data n = d"
    and h4: "tmodify h3 (fresh h) (\<lambda>n. n\<lparr>left := address l\<rparr>) = Inr h4"
    and r: "grown h4 h5 r"
    and h6: "tmodify h5 (fresh h) (\<lambda>n. n\<lparr>right := address r\<rparr>) = Inr h6"
  shows "grown h h6 (Node l (fresh h, d) r)"
proof -
  let ?a = "fresh h"
  let ?h2 = "h\<lparr>cells := (cells h)(?a \<mapsto> n), fresh := Suc ?a, room := room h - 1\<rparr>"
  have a: "0 < ?a" "?a \<notin> dom (cells h)" using h by (auto simp: heap_ok_def)
  have al: "?a \<notin> set (nodes l)" using l by (auto simp: grown_def)
  then have "cells h3 ?a = Some n" using l by (simp add: grown_def)
  with h4 have c4: "h4 = h3\<lparr>cells := (cells h3)(?a \<mapsto> n\<lparr>left := address l\<rparr>)\<rparr>"
    by (auto simp: tmodify_Inr)
  have ar: "?a \<notin> set (nodes r)" using r c4 by (auto simp: grown_def)
  then have "cells h5 ?a = Some (n\<lparr>left := address l\<rparr>)" using r c4 by (simp add: grown_def)
  with h6 have c6: "h6 = h5\<lparr>cells := (cells h5)(?a \<mapsto> n\<lparr>left := address l, right := address r\<rparr>)\<rparr>"
    and at: "cells h5 ?a \<noteq> None"
    by (auto simp: tmodify_Inr)
  have dom_l: "set (nodes l) \<subseteq> dom (cells h4)" using on_heap_dom [of h3 l] l c4 by (auto simp: grown_def)
  then have lr: "set (nodes l) \<inter> set (nodes r) = {}" using r by (auto simp: grown_def)
  have on_l: "on_heap h6 l"
  proof -
    have "cells h6 b = cells h3 b" if "b \<in> set (nodes l)" for b
      using that al lr r c4 c6 by (auto simp: grown_def)
    then show ?thesis using l on_heap_cong [of l h6 h3] by (simp add: grown_def)
  qed
  have on_r: "on_heap h6 r"
  proof -
    have "cells h6 b = cells h5 b" if "b \<in> set (nodes r)" for b
      using that ar c6 by auto
    then show ?thesis using r on_heap_cong [of r h6 h5] by (simp add: grown_def)
  qed
  have free_r: "set (nodes r) \<inter> dom (cells h) = {}"
  proof -
    have "b \<in> dom (cells h4)" if "b \<in> dom (cells h)" for b
    proof (cases "b \<in> set (nodes l)")
      case True
      with dom_l show ?thesis by blast
    next
      case False
      with that l a(2) show ?thesis by (auto simp: c4 grown_def dom_def)
    qed
    with r show ?thesis by (auto simp: grown_def)
  qed
  have "heap_ok h6"
    using heap_ok_update [of h5 ?a] r at c6 by (auto simp: grown_def)
  moreover have "cells h6 b = cells h b" if "b \<notin> set (nodes l) \<union> {?a} \<union> set (nodes r)" for b
    using that l r by (simp add: c6 c4 grown_def)
  moreover have "room h6 + length (nodes (Node l (?a, d) r)) = room h"
  proof -
    have "room h3 + length (nodes l) = room h - 1" "room h5 + length (nodes r) = room h3"
      using l r by (simp_all add: c4 grown_def)
    with some show ?thesis by (simp add: c6)
  qed
  moreover have "set (nodes l) \<inter> dom (cells h) = {}" using l by (auto simp: grown_def)
  ultimately show ?thesis
    unfolding grown_def using on_l on_r free_r a al ar lr l r n
    by (auto simp: c6 grown_def)
qed

lemma generate_tree_internal_ok:
  assumes "heap_ok h" and "generate_tree_internal dg c r h = Inr (p, r', h')"
  shows "\<exists>t. p = address t \<and> grown h h' t \<and> height t \<le> Suc MAX_RANDOM_TREE_NODE - c"
  using assms
proof (induction dg c r h arbitrary: p r' h' rule: generate_tree_internal.induct)
  case (1 dg c r h)
  obtain x r1 where x: "rand r = (x, r1)" by fastforce
  obtain y r2 where y: "rand r1 = (y, r2)" by fastforce
  show ?case
  proof (cases "c > MAX_RANDOM_TREE_NODE \<or> x mod dg = 0")
    case True
    with 1(4) x have "p = 0" "h' = h" by (subst (asm) generate_tree_internal.simps; auto split: if_splits)+
    then show ?thesis using grown_Leaf [OF 1(3)] by (intro exI [of _ Leaf]) simp
  next
    case False
    obtain root h1 where m: "tmalloc h = (root, h1)" by fastforce
    from 1(4) False x y m obtain h2 where h2: "tmodify h1 root (\<lambda>n. n\<lparr>data := int y\<rparr>) = Inr h2"
      by (subst (asm) generate_tree_internal.simps) (auto split: sum.splits)
    from 1(4) False x y m h2 obtain pl r3 h3 where
      h3: "generate_tree_internal dg (Suc c) r2 h2 = Inr (pl, r3, h3)"
      by (subst (asm) generate_tree_internal.simps) (auto split: sum.splits)
    from 1(4) False x y m h2 h3 obtain h4 where h4: "tmodify h3 root (\<lambda>n. n\<lparr>left := pl\<rparr>) = Inr h4"
      by (subst (asm) generate_tree_internal.simps) (auto split: sum.splits)
    from 1(4) False x y m h2 h3 h4 obtain pr r5 h5 where
      h5: "generate_tree_internal dg (Suc c) r3 h4 = Inr (pr, r5, h5)"
      by (subst (asm) generate_tree_internal.simps) (auto split: sum.splits)
    from 1(4) False x y m h2 h3 h4 h5 have
      h6: "tmodify h5 root (\<lambda>n. n\<lparr>right := pr\<rparr>) = Inr h'" "p = root"
      by (subst (asm) generate_tree_internal.simps; auto split: sum.splits)+
    have some: "room h \<noteq> 0"
    proof
      assume "room h = 0"
      with m h2 1(3) show False by (auto simp: tmalloc_def tmodify_Inr heap_ok_def)
    qed
    with m have root: "root = fresh h" by (simp add: tmalloc_def split: if_splits)
    let ?n = "\<lparr>data = int y, left = 0, right = 0\<rparr>"
    have h2': "h2 = h\<lparr>cells := (cells h)(fresh h \<mapsto> ?n), fresh := Suc (fresh h), room := room h - 1\<rparr>"
      using m h2 some by (auto simp: tmalloc_def tmodify_Inr)
    have "heap_ok h2" using 1(3) by (auto simp: h2' heap_ok_def less_SucI)
    from "1.IH"(1) [OF _ x [symmetric] refl _ m [symmetric] refl y [symmetric] refl h2 this h3] False
    obtain l where l: "pl = address l" "grown h2 h3 l" "height l \<le> Suc MAX_RANDOM_TREE_NODE - Suc c"
      by auto
    have "heap_ok h4"
      using h4 l(2) heap_ok_update by (auto simp: tmodify_Inr grown_def)
    from "1.IH"(2) [OF _ x [symmetric] refl _ m [symmetric] refl y [symmetric] refl h2 h3 refl refl h4 this h5] False
    obtain t where t: "pr = address t" "grown h4 h5 t" "height t \<le> Suc MAX_RANDOM_TREE_NODE - Suc c"
      by auto
    have "grown h h' (Node l (fresh h, int y) t)"
      using grow_node [OF 1(3) some l(2) [unfolded h2'] _ _ t(2)] h4 h6(1) root l(1) t(1) by simp
    moreover have "height (Node l (fresh h, int y) t) \<le> Suc MAX_RANDOM_TREE_NODE - c"
      using l(3) t(3) False by (simp add: Suc_diff_le)
    ultimately show ?thesis using h6(2) root by (intro exI [of _ "Node l (fresh h, int y) t"]) simp
  qed
qed

lemma generate_tree_ok:
  assumes "heap_ok h" and "generate_tree dg r h = Inr (p, r', h')"
  shows "\<exists>t. p = address t \<and> grown h h' t \<and> height t \<le> Suc MAX_RANDOM_TREE_NODE"
proof (cases "dg < 2")
  case True
  with assms grown_Leaf show ?thesis by (intro exI [of _ Leaf]) (simp add: generate_tree_def)
next
  case False
  with assms generate_tree_internal_ok [of h dg 0 r p r' h'] show ?thesis by (simp add: generate_tree_def)
qed

section \<open>Properties\<close>

text \<open>
  On two trees stored on the heap, which may share nodes, \<^verbatim>\<open>is_same_tree\<close> returns, and returns
  whether the trees have the same shape and the same data.
\<close>

lemma is_same_tree_correct:
  assumes "on_heap h t" and "on_heap h u"
  shows "is_same_tree h (address t) (address u) = Some (Inr (map_tree snd t = map_tree snd u))"
  using assms by (rule is_same_tree_on_heap)

theorem is_same_tree_correct_witness:
  "is_same_tree \<lparr>cells = [1 \<mapsto> \<lparr>data = 5, left = 0, right = 0\<rparr>, 2 \<mapsto> \<lparr>data = 5, left = 0, right = 0\<rparr>,
       3 \<mapsto> \<lparr>data = 6, left = 1, right = 0\<rparr>], fresh = 4, room = 0\<rparr> 1 2 = Some (Inr True) \<and>
   is_same_tree \<lparr>cells = [1 \<mapsto> \<lparr>data = 5, left = 0, right = 0\<rparr>, 2 \<mapsto> \<lparr>data = 5, left = 0, right = 0\<rparr>,
       3 \<mapsto> \<lparr>data = 6, left = 1, right = 0\<rparr>], fresh = 4, room = 0\<rparr> 1 3 = Some (Inr False)"
proof -
  let ?h = "\<lparr>cells = [1 \<mapsto> \<lparr>data = 5, left = 0, right = 0\<rparr>, 2 \<mapsto> \<lparr>data = 5, left = 0, right = 0\<rparr>,
       3 \<mapsto> \<lparr>data = 6, left = 1, right = 0\<rparr>], fresh = 4, room = 0\<rparr>"
  have t: "on_heap ?h (Node Leaf (1, 5) Leaf)" "on_heap ?h (Node Leaf (2, 5) Leaf)"
    "on_heap ?h (Node (Node Leaf (1, 5) Leaf) (3, 6) Leaf)"
    by simp_all
  from is_same_tree_correct [OF t(1,2)] is_same_tree_correct [OF t(1,3)] show ?thesis by simp
qed

text \<open>
  C32: \<^verbatim>\<open>generate_tree\<close> returns, whatever \<^verbatim>\<open>rand\<close> does, unless memory runs out. Its result is a tree of
  at most 100001 levels in new memory, equal to itself for \<^verbatim>\<open>is_same_tree\<close>, and \<^verbatim>\<open>destroy_tree\<close>
  of it returns and gives back exactly the memory taken: every node is freed once, nothing
  else is touched, and nothing leaks.
\<close>

theorem generated_tree_destroyed:
  assumes "heap_ok h" and "generate_tree dg r h = Inr (p, r', h')"
  shows "\<exists>t. p = address t \<and> on_heap h' t \<and> height t \<le> 100001 \<and>
    (\<forall>a \<in> dom (cells h). cells h' a = cells h a) \<and>
    is_same_tree h' p p = Some (Inr True) \<and>
    (\<exists>h''. destroy_tree p h' = Some (Inr h'') \<and> cells h'' = cells h \<and> room h'' = room h)"
proof -
  from generate_tree_ok [OF assms] obtain t where
    t: "p = address t" "grown h h' t" "height t \<le> Suc MAX_RANDOM_TREE_NODE"
    by blast
  then have on: "on_heap h' t" "distinct (nodes t)" "set (nodes t) \<inter> dom (cells h) = {}"
    "\<And>a. a \<notin> set (nodes t) \<Longrightarrow> cells h' a = cells h a" "room h' + length (nodes t) = room h"
    by (simp_all add: grown_def)
  have "cells h a = None" if "a \<in> set (nodes t)" for a
    using on(3) that by (cases "cells h a") auto
  then have "cells h' |` (- set (nodes t)) = cells h"
    using on(4) by (auto simp: restrict_map_def fun_eq_iff)
  then have "\<exists>h''. destroy_tree p h' = Some (Inr h'') \<and> cells h'' = cells h \<and> room h'' = room h"
    unfolding t(1) destroy_tree_on_heap [OF on(1,2)] using on(5) by simp
  moreover have "is_same_tree h' p p = Some (Inr True)"
    unfolding t(1) is_same_tree_on_heap [OF on(1,1)] by simp
  moreover have "\<forall>a \<in> dom (cells h). cells h' a = cells h a" using on(3,4) by blast
  ultimately show ?thesis using t(1,3) on(1) by (auto simp: MAX_RANDOM_TREE_NODE_def)
qed

theorem generated_tree_destroyed_witness:
  "\<exists>r' h'. generate_tree 2 (\<lambda>i. if i < 2 then 1 else 0) \<lparr>cells = Map.empty, fresh = 1, room = 9\<rparr> = Inr (1, r', h') \<and>
     (\<exists>h''. destroy_tree 1 h' = Some (Inr h'') \<and> cells h'' = Map.empty \<and> room h'' = 9)"
proof -
  let ?h = "\<lparr>cells = Map.empty, fresh = 1, room = 9\<rparr>"
  have h: "heap_ok ?h" by (simp add: heap_ok_def)
  have leaf: "generate_tree_internal 2 (Suc 0) (\<lambda>i. 0) h2 = Inr (0, (\<lambda>i. 0), h2)" for h2
    by (subst generate_tree_internal.simps) (simp add: rand_def MAX_RANDOM_TREE_NODE_def)
  have "\<exists>h'. generate_tree 2 (\<lambda>i. if i < 2 then 1 else 0) ?h = Inr (1, (\<lambda>i. 0), h')"
    unfolding generate_tree_def
    by (subst generate_tree_internal.simps)
      (simp add: rand_def tmalloc_def tmodify_def leaf MAX_RANDOM_TREE_NODE_def)
  then obtain h' where g: "generate_tree 2 (\<lambda>i. if i < 2 then 1 else 0) ?h = Inr (1, (\<lambda>i. 0), h')" by blast
  from generated_tree_destroyed [OF h g] g show ?thesis by auto
qed

end
