(* ===== verification/Tree_Serial.thy ===== *)
theory Tree_Serial
  imports Tree_Heap Getopt
begin

text \<open>
  The serialisation of Chapter 10 as it stands: \<^verbatim>\<open>serialize\<close> writes nothing, \<^verbatim>\<open>deserialize\<close> reads
  nothing and returns \<^verbatim>\<open>NULL\<close>; and the test program, whose loop over trees is commented
  out, so that it only reads its options and prints. A file is its bytes.
\<close>

definition serialize :: "byte list \<Rightarrow> heap \<Rightarrow> nat \<Rightarrow> byte list" where
  "serialize outfile h root = outfile"

definition deserialize :: "byte list \<Rightarrow> nat" where
  "deserialize infile = 0"

datatype test_line = Help | Invalid_option byte | This_is_out_test | Test_finished

text \<open>The settings \<open>(exp_times, rand_degree)\<close> and what is printed; \<^verbatim>\<open>-h\<close> does not leave.\<close>

fun test_options :: "option_read list \<Rightarrow> int \<times> int \<Rightarrow> test_line list \<Rightarrow> ((int \<times> int) \<times> test_line list) result" where
  "test_options [] s out = Inr (s, out)"
| "test_options (Flag c # os) s out =
     test_options os s (if c = 104 then out @ [Help] else out)"
| "test_options (Valued c v # os) (n, d) out =
     (if c = 100 then bind_result (c_atoi (v @ [0])) (\<lambda>x. test_options os (n, x) out)
      else if c = 110 then bind_result (c_atoi (v @ [0])) (\<lambda>x. test_options os (x, d) out)
      else test_options os (n, d) out)"
| "test_options (Bad c # os) s out = test_options os s (out @ [Invalid_option c])"

definition test_main :: "byte list list \<Rightarrow> (int \<times> test_line list) result" where
  "test_main args =
     bind_result (test_options (getopt (bytes ''hd:n:'') args) (1, 10) []) (\<lambda>(s, out).
       Inr (0, out @ [This_is_out_test, Test_finished]))"

text \<open>
  The check of the commented-out loop, \<^verbatim>\<open>assert(is_same_tree(root_org, root_regenerated))\<close>, would hold exactly for
  the empty tree.
\<close>

lemma roundtrip_only_empty:
  assumes "on_heap h t"
  shows "is_same_tree h (address t) (deserialize (serialize [] h (address t))) = Some (Inr (t = Leaf))"
  using is_same_tree_on_heap [OF assms, of Leaf] by (cases t) (simp_all add: deserialize_def)

text \<open>The test passes whatever happens, unless a number overflows.\<close>

lemma test_always_passes: "test_main args = Inr (code, out) \<Longrightarrow> code = 0 \<and> last out = Test_finished"
  by (auto simp: test_main_def)

end
