(* ===== verification/Thread_Pool.thy ===== *)
theory Thread_Pool
  imports Posix
begin

text \<open>
  The thread pool: its configuration, the creation of queues and workers, the statistics that
  the timer thread keeps, and the choice of a worker for a job. Unsigned 32-bit arithmetic is
  written with \<open>u32\<close>. Workers and queues are classes the repository does not contain; they are
  parameters (how one is made, what \<^verbatim>\<open>assignQ\<close> does to it). The source does not compile as it is
  (undeclared names in the timer's function and in \<^verbatim>\<open>addJob\<close>, a misspelt member, a missing call
  operator); it is read as it evidently means there.
\<close>

definition u32 :: "nat \<Rightarrow> nat" where
  "u32 x = x mod 4294967296"

lemma u32_small [simp]: "x < 4294967296 \<Longrightarrow> u32 x = x"
  by (simp add: u32_def)

definition MAX_WORKER_COUNT :: nat where "MAX_WORKER_COUNT = 128"

section \<open>Configuration\<close>

datatype worker_type = JOBWORKER_TYPE_INDEPENDENT | JOBWORKER_TYPE_HELP_ADJACENT | JOBWORKER_TYPE_MAX

datatype queue_type = JOBQUEUE_TYPE_EXCLUSIVE | JOBQUEUE_TYPE_SHARED | JOBQUEUE_TYPE_MAX

record worker_config =
  mJobWorkerType :: worker_type
  mThreadPolicy :: policy
  mThreadPriority :: int
  mWhichCore :: nat

record pool_config = worker_config +
  mJobQueueType :: queue_type
  mWorkersPerCore :: nat
  mQueueLength :: nat
  mQueueShareFactor :: nat
  mUpdatingStatisticsTime :: timespec

text \<open>The product is computed in 32 bits before it is widened.\<close>

definition setStatisticsUpdatingTimeInMs :: "nat \<Rightarrow> pool_config \<Rightarrow> pool_config" where
  "setStatisticsUpdatingTimeInMs time c =
     (let updateTimeNs = u32 (time * 1000000)
      in c\<lparr>mUpdatingStatisticsTime :=
             Timespec (int (updateTimeNs div 1000000000)) (int (updateTimeNs mod 1000000000))\<rparr>)"

definition UPDATING_POOL_STATISTICS_TIME_DEFAULT :: nat where
  "UPDATING_POOL_STATISTICS_TIME_DEFAULT = 20"

text \<open>
  The constructor does not store its parameter \<^verbatim>\<open>queueShareFactor\<close>: the member keeps what the
  memory held, \<open>junk\<close>.
\<close>

definition new_pool_config ::
    "nat \<Rightarrow> nat \<Rightarrow> policy \<Rightarrow> int \<Rightarrow> worker_type \<Rightarrow> queue_type \<Rightarrow> nat \<Rightarrow> nat \<Rightarrow> pool_config" where
  "new_pool_config junk workersPerCore pol priority wt qt queueLength queueShareFactor =
     setStatisticsUpdatingTimeInMs UPDATING_POOL_STATISTICS_TIME_DEFAULT
       \<lparr>mJobWorkerType = wt, mThreadPolicy = pol, mThreadPriority = priority, mWhichCore = 0,
        mJobQueueType = qt, mWorkersPerCore = workersPerCore, mQueueLength = queueLength,
        mQueueShareFactor = junk, mUpdatingStatisticsTime = Timespec 0 0\<rparr>"

section \<open>The pool\<close>

text \<open>
  A slot of the two pointer arrays that was never written is \<open>None\<close>; \<open>mTimerThread\<close> tells whether
  the timer thread was created.
\<close>

record ('w, 'q) pool =
  mConfig :: pool_config
  mJobWorkerArr :: "'w option list"
  mJobWorkerCount :: nat
  mJobQueueArr :: "'q option list"
  mJobQueueCount :: nat
  mWorkerProcessedCountArr :: "nat list"
  mNextGlobalJobWorker :: nat
  mNextJobWorkerOnEachCoreArr :: "nat list"
  mJobWorkerWithLeastJob :: nat
  mJobWorkerWithLeastJobOnEachCoreArr :: "nat list"
  mTimerThread :: bool
  mTimerRun :: bool

definition initializeStatistics :: "('w, 'q) pool \<Rightarrow> ('w, 'q) pool" where
  "initializeStatistics p =
     (let starts = map (\<lambda>i. u32 (i * mWorkersPerCore (mConfig p))) [0..<MAX_WORKER_COUNT]
      in p\<lparr>mWorkerProcessedCountArr := replicate MAX_WORKER_COUNT 0,
           mNextGlobalJobWorker := 0, mJobWorkerWithLeastJob := 0,
           mNextJobWorkerOnEachCoreArr := starts, mJobWorkerWithLeastJobOnEachCoreArr := starts\<rparr>)"

text \<open>
  \<^verbatim>\<open>checkAndAjustConfig\<close>: refused (false), or accepted; the accepting path ends without a
  \<^verbatim>\<open>return\<close>. For shared queues the source divides by \<^verbatim>\<open>mConfig.getQueueShareFactor\<close>, a member function that it does
  not call, which no compiler accepts; the model reads it as the call that the same line makes before.
\<close>

datatype check = Refused | Accepted

definition adjusted_priority :: "(policy \<Rightarrow> int) \<Rightarrow> (policy \<Rightarrow> int) \<Rightarrow> policy \<Rightarrow> int \<Rightarrow> int" where
  "adjusted_priority pmin pmax pol prio =
     (let p1 = (if prio < pmin pol then pmin pol else if prio > pmax pol then pmax pol else prio)
      in if pol = SCHED_FIFO \<and> p1 = pmax pol
         then (let p2 = pmax pol - 2 in if p2 < pmin pol then pmin pol else p2)
         else p1)"

definition checkAndAdjustConfig ::
    "(policy \<Rightarrow> int) \<Rightarrow> (policy \<Rightarrow> int) \<Rightarrow> nat \<Rightarrow> int \<Rightarrow> ('w, 'q) pool \<Rightarrow> (check \<times> ('w, 'q) pool) result" where
  "checkAndAdjustConfig pmin pmax core_num uid p =
     (let c = mConfig p;
          count = u32 (core_num * mWorkersPerCore c);
          p1 = p\<lparr>mJobWorkerCount := count\<rparr>
      in if count > MAX_WORKER_COUNT then Inr (Refused, p1)
         else if mThreadPolicy c \<noteq> SCHED_OTHER \<and> uid \<noteq> 0 then Inr (Refused, p1)
         else let p2 = p1\<lparr>mConfig := c\<lparr>mThreadPriority :=
                    adjusted_priority pmin pmax (mThreadPolicy c) (mThreadPriority c)\<rparr>\<rparr>
           in (case mJobQueueType c of
                 JOBQUEUE_TYPE_EXCLUSIVE \<Rightarrow> Inr (Accepted, p2\<lparr>mJobQueueCount := count\<rparr>)
               | JOBQUEUE_TYPE_SHARED \<Rightarrow>
                   if mQueueShareFactor c = 0 then Inl Division_by_zero
                   else Inr (Accepted, p2\<lparr>mJobQueueCount :=
                     u32 (count + mQueueShareFactor c + 4294967295) div mQueueShareFactor c\<rparr>)
               | JOBQUEUE_TYPE_MAX \<Rightarrow> Inl Assertion_failed))"

text \<open>\<open>newq i qt\<close> is the queue that the \<open>i\<close>-th call of \<^verbatim>\<open>createJobQueue\<close> makes.\<close>

fun create_queues :: "(nat \<Rightarrow> queue_type \<Rightarrow> 'q) \<Rightarrow> queue_type \<Rightarrow> nat \<Rightarrow> nat \<Rightarrow> 'q option list \<Rightarrow> 'q option list result" where
  "create_queues newq qt 0 i arr = Inr arr"
| "create_queues newq qt (Suc k) i arr =
     bind_result (array_set arr (int i) (Some (newq i qt))) (create_queues newq qt k (Suc i))"

definition createJobQueues :: "(nat \<Rightarrow> queue_type \<Rightarrow> 'q) \<Rightarrow> ('w, 'q) pool \<Rightarrow> ('w, 'q) pool result" where
  "createJobQueues newq p =
     bind_result (create_queues newq (mJobQueueType (mConfig p)) (mJobQueueCount p) 0 (mJobQueueArr p))
       (\<lambda>arr. Inr (p\<lparr>mJobQueueArr := arr\<rparr>))"

text \<open>The two nested loops: \<open>k\<close> workers to go on one core, the next one being \<open>wid\<close>.\<close>

fun create_on_core ::
    "(nat \<Rightarrow> worker_config \<Rightarrow> 'w) \<Rightarrow> nat \<Rightarrow> worker_config \<Rightarrow> nat \<Rightarrow> 'w option list \<Rightarrow> (nat \<times> 'w option list) result" where
  "create_on_core mk 0 workerConfig wid arr = Inr (wid, arr)"
| "create_on_core mk (Suc k) workerConfig wid arr =
     bind_result (array_set arr (int wid) (Some (mk wid workerConfig))) (create_on_core mk k workerConfig (Suc wid))"

fun create_on_cores ::
    "(nat \<Rightarrow> worker_config \<Rightarrow> 'w) \<Rightarrow> nat \<Rightarrow> nat \<Rightarrow> nat \<Rightarrow> worker_config \<Rightarrow> nat \<Rightarrow> 'w option list \<Rightarrow> 'w option list result" where
  "create_on_cores mk wpc 0 core workerConfig wid arr = Inr arr"
| "create_on_cores mk wpc (Suc n) core workerConfig wid arr =
     bind_result (create_on_core mk wpc (workerConfig\<lparr>mWhichCore := core\<rparr>) wid arr) (\<lambda>(wid', arr').
       create_on_cores mk wpc n (Suc core) workerConfig wid' arr')"

definition createJobWorkers :: "(nat \<Rightarrow> worker_config \<Rightarrow> 'w) \<Rightarrow> nat \<Rightarrow> ('w, 'q) pool \<Rightarrow> ('w, 'q) pool result" where
  "createJobWorkers mk core_num p =
     bind_result (create_on_cores mk (mWorkersPerCore (mConfig p)) core_num 0 (worker_config.truncate (mConfig p)) 0
         (mJobWorkerArr p))
       (\<lambda>arr. Inr (p\<lparr>mJobWorkerArr := arr\<rparr>))"

text \<open>A call of a method of the worker in slot \<open>i\<close>.\<close>

definition call_worker :: "('w \<Rightarrow> 'w) \<Rightarrow> nat \<Rightarrow> 'w option list \<Rightarrow> 'w option list result" where
  "call_worker f i arr =
     bind_result (array_get arr (int i)) (\<lambda>w.
       (case w of None \<Rightarrow> Inl Null_dereference | Some w' \<Rightarrow> Inr (arr[i := Some (f w')])))"

text \<open>
  \<^verbatim>\<open>assignQueuesToWorkers\<close>: the inner loop with \<open>k\<close> workers to go for one queue, the outer one
  with \<open>n\<close> queues to go from \<open>q\<close> on.
\<close>

fun assign_one :: "('q option \<Rightarrow> 'w \<Rightarrow> 'w) \<Rightarrow> nat \<Rightarrow> 'q option \<Rightarrow> nat \<Rightarrow> 'w option list \<Rightarrow> (nat \<times> 'w option list) result" where
  "assign_one asg 0 q wid arr = Inr (wid, arr)"
| "assign_one asg (Suc k) q wid arr =
     bind_result (call_worker (asg q) wid arr) (assign_one asg k q (Suc wid))"

fun assign_all ::
    "('q option \<Rightarrow> 'w \<Rightarrow> 'w) \<Rightarrow> nat \<Rightarrow> 'q option list \<Rightarrow> nat \<Rightarrow> nat \<Rightarrow> nat \<Rightarrow> 'w option list \<Rightarrow> 'w option list result" where
  "assign_all asg f qs 0 q wid arr = Inr arr"
| "assign_all asg f qs (Suc n) q wid arr =
     bind_result (array_get qs (int q)) (\<lambda>qu.
     bind_result (assign_one asg f qu wid arr) (\<lambda>(wid', arr').
       assign_all asg f qs n (Suc q) wid' arr'))"

definition assignQueuesToWorkers :: "('q option \<Rightarrow> 'w \<Rightarrow> 'w) \<Rightarrow> ('w, 'q) pool \<Rightarrow> ('w, 'q) pool result" where
  "assignQueuesToWorkers asg p =
     bind_result (assign_all asg (mQueueShareFactor (mConfig p)) (mJobQueueArr p) (mJobQueueCount p) 0 0 (mJobWorkerArr p))
       (\<lambda>arr. Inr (p\<lparr>mJobWorkerArr := arr\<rparr>))"

fun start_workers :: "('w \<Rightarrow> 'w) \<Rightarrow> nat \<Rightarrow> nat \<Rightarrow> 'w option list \<Rightarrow> 'w option list result" where
  "start_workers st 0 i arr = Inr arr"
| "start_workers st (Suc k) i arr = bind_result (call_worker st i arr) (start_workers st k (Suc i))"

text \<open>\<open>rc\<close> is the result of \<^verbatim>\<open>pthread_create\<close>.\<close>

definition createTimer :: "int \<Rightarrow> ('w, 'q) pool \<Rightarrow> ('w, 'q) pool result" where
  "createTimer rc p = (if rc = 0 then Inr (p\<lparr>mTimerRun := True, mTimerThread := True\<rparr>) else Inl Assertion_failed)"

text \<open>
  What the pool relies on: the system (priorities, number of cores, user, result of creating
  the timer) and the classes of workers and queues. \<^verbatim>\<open>checkAndAjustConfig\<close> ends without a \<^verbatim>\<open>return\<close> when it accepts a configuration;
  its caller reads the value, which is undefined behaviour. \<open>fell_off\<close> is what the implementation makes of it: \<open>Inl Missing_return\<close> as the
  C++ standard has it, or some value.
\<close>

record ('w, 'q) pool_env =
  priority_min :: "policy \<Rightarrow> int"
  priority_max :: "policy \<Rightarrow> int"
  core_number :: nat
  user_id :: int
  timer_rc :: int
  fell_off :: "bool result"
  createJobQueue :: "nat \<Rightarrow> queue_type \<Rightarrow> 'q"
  createJobWorker :: "nat \<Rightarrow> worker_config \<Rightarrow> 'w"
  assignQ :: "'q option \<Rightarrow> 'w \<Rightarrow> 'w"
  startWorker :: "'w \<Rightarrow> 'w"

definition configAndStartWorkers :: "('w, 'q) pool_env \<Rightarrow> ('w, 'q) pool \<Rightarrow> (bool \<times> ('w, 'q) pool) result" where
  "configAndStartWorkers E p =
     bind_result (checkAndAdjustConfig (priority_min E) (priority_max E) (core_number E) (user_id E) p) (\<lambda>(verdict, p1).
       if verdict = Refused then Inr (False, p1)
       else bind_result (fell_off E) (\<lambda>b.
            if \<not> b then Inr (False, p1)
            else bind_result (createJobQueues (createJobQueue E) p1) (\<lambda>p2.
            bind_result (createJobWorkers (createJobWorker E) (core_number E) p2) (\<lambda>p3.
            bind_result (assignQueuesToWorkers (assignQ E) p3) (\<lambda>p4.
            bind_result (start_workers (startWorker E) (mJobWorkerCount p4) 0 (mJobWorkerArr p4)) (\<lambda>arr.
            bind_result (createTimer (timer_rc E) (p4\<lparr>mJobWorkerArr := arr\<rparr>)) (\<lambda>p5. Inr (True, p5))))))))"

text \<open>The constructor, on the memory \<open>p0\<close> of the object; a pool that was refused is kept as it is.\<close>

definition new_pool :: "('w, 'q) pool_env \<Rightarrow> pool_config \<Rightarrow> ('w, 'q) pool \<Rightarrow> ('w, 'q) pool result" where
  "new_pool E config p0 =
     bind_result (configAndStartWorkers E (initializeStatistics (p0\<lparr>mConfig := config\<rparr>))) (\<lambda>(started, p). Inr p)"

text \<open>Joining a thread that was never created, and deleting a pointer that was never set, are undefined.\<close>

fun delete_all :: "nat \<Rightarrow> nat \<Rightarrow> 'a option list \<Rightarrow> 'a option list result" where
  "delete_all 0 i arr = Inr arr"
| "delete_all (Suc k) i arr =
     bind_result (array_get arr (int i)) (\<lambda>x.
       (case x of None \<Rightarrow> Inl Invalid_free | Some _ \<Rightarrow> delete_all k (Suc i) (arr[i := None])))"

definition stopWorkers :: "('w, 'q) pool \<Rightarrow> ('w, 'q) pool result" where
  "stopWorkers p =
     (let p1 = p\<lparr>mTimerRun := False\<rparr>
      in if \<not> mTimerThread p1 then Inl Bad_thread
         else bind_result (delete_all (mJobWorkerCount p1) 0 (mJobWorkerArr p1)) (\<lambda>ws.
              bind_result (delete_all (mJobQueueCount p1) 0 (mJobQueueArr p1)) (\<lambda>qs.
                Inr (p1\<lparr>mJobWorkerArr := ws, mJobQueueArr := qs\<rparr>))))"

section \<open>The timer's statistics\<close>

text \<open>The policy and priority the timer thread asks for.\<close>

definition timer_sched :: "(policy \<Rightarrow> int) \<Rightarrow> int \<Rightarrow> policy \<times> int" where
  "timer_sched pmax uid = (if uid = 0 then (SCHED_FIFO, pmax SCHED_FIFO) else (SCHED_OTHER, 0))"

text \<open>
  \<open>jobs i\<close> is what \<^verbatim>\<open>getJobCount\<close> of worker \<open>i\<close> returns in one scan. The scan for the worker with
  the fewest jobs goes from \<open>i\<close> on with \<open>k\<close> workers to go.
\<close>

definition getJobCount :: "'w option list \<Rightarrow> (nat \<Rightarrow> nat) \<Rightarrow> nat \<Rightarrow> nat result" where
  "getJobCount arr jobs i =
     bind_result (array_get arr (int i)) (\<lambda>w. if w = None then Inl Null_dereference else Inr (jobs i))"

fun least_scan :: "(nat \<Rightarrow> nat result) \<Rightarrow> nat \<Rightarrow> nat \<Rightarrow> nat \<Rightarrow> nat \<Rightarrow> nat result" where
  "least_scan count 0 i leastJobs leastJobWorker = Inr leastJobWorker"
| "least_scan count (Suc k) i leastJobs leastJobWorker =
     bind_result (count i) (\<lambda>jobNum.
       if jobNum < leastJobs then least_scan count k (Suc i) jobNum i
       else least_scan count k (Suc i) leastJobs leastJobWorker)"

definition least_of :: "(nat \<Rightarrow> nat result) \<Rightarrow> nat \<Rightarrow> nat \<Rightarrow> nat result" where
  "least_of count startingWorkerIndex n =
     bind_result (count startingWorkerIndex) (\<lambda>leastJobs.
       least_scan count (n - 1) (Suc startingWorkerIndex) leastJobs startingWorkerIndex)"

fun least_on_cores :: "(nat \<Rightarrow> nat result) \<Rightarrow> nat \<Rightarrow> nat \<Rightarrow> nat \<Rightarrow> nat \<Rightarrow> nat list \<Rightarrow> nat list result" where
  "least_on_cores count wpc 0 core startingWorkerIndex arr = Inr arr"
| "least_on_cores count wpc (Suc n) core startingWorkerIndex arr =
     bind_result (least_of count startingWorkerIndex wpc) (\<lambda>leastJobWorker.
     bind_result (array_set arr (int core) leastJobWorker) (\<lambda>arr'.
       least_on_cores count wpc n (Suc core) (startingWorkerIndex + wpc) arr'))"

text \<open>
  One turn of the timer's loop; the two scans read the counts at different times, \<open>jobs\<close> and
  \<open>jobs'\<close>.
\<close>

definition timer_round :: "nat \<Rightarrow> (nat \<Rightarrow> nat) \<Rightarrow> (nat \<Rightarrow> nat) \<Rightarrow> ('w, 'q) pool \<Rightarrow> ('w, 'q) pool result" where
  "timer_round core_count jobs jobs' p =
     bind_result (least_of (getJobCount (mJobWorkerArr p) jobs) 0 (mJobWorkerCount p)) (\<lambda>leastJobWorker.
     bind_result (least_on_cores (getJobCount (mJobWorkerArr p) jobs') (mWorkersPerCore (mConfig p)) core_count 0 0
         (mJobWorkerWithLeastJobOnEachCoreArr p)) (\<lambda>arr.
       Inr (p\<lparr>mJobWorkerWithLeastJob := leastJobWorker, mJobWorkerWithLeastJobOnEachCoreArr := arr\<rparr>)))"

section \<open>The choice of a worker\<close>

datatype assign_policy =
    JOB_ASSIGN_SAME_CORE_ROUND_ROBIN
  | JOB_ASSIGN_SAME_CORE_LEAST_JOBS
  | JOB_ASSIGN_ROUND_ROBIN
  | JOB_ASSIGN_LEAST_JOBS
  | JOB_ASSIGN_SAME_CORE_RANDOM
  | JOB_ASSIGN_RANDOM
  | JOB_ASSIGN_MAX

text \<open>
  The \<^verbatim>\<open>switch\<close> of \<^verbatim>\<open>addJob\<close>: the worker's index and the pool. \<open>cur_core\<close> is the result of
  \<^verbatim>\<open>sched_getcpu\<close>, \<open>draw\<close> that of \<^verbatim>\<open>rand\<close>. The semaphores around the two counters
  make each case one action; \<open>Pool_Locks\<close> shows this.
\<close>

definition choose_worker :: "assign_policy \<Rightarrow> nat \<Rightarrow> nat \<Rightarrow> ('w, 'q) pool \<Rightarrow> (nat \<times> ('w, 'q) pool) result" where
  "choose_worker pol cur_core draw p =
     (let wpc = mWorkersPerCore (mConfig p) in
      case pol of
        JOB_ASSIGN_SAME_CORE_ROUND_ROBIN \<Rightarrow>
          bind_result (array_get (mNextJobWorkerOnEachCoreArr p) (int cur_core)) (\<lambda>whichWorker.
            (let nxt = u32 (whichWorker + 1);
                 nxt' = (if nxt = u32 (u32 (cur_core + 1) * wpc) then u32 (cur_core * wpc) else nxt)
             in Inr (whichWorker, p\<lparr>mNextJobWorkerOnEachCoreArr := (mNextJobWorkerOnEachCoreArr p)[cur_core := nxt']\<rparr>)))
      | JOB_ASSIGN_SAME_CORE_LEAST_JOBS \<Rightarrow>
          bind_result (array_get (mJobWorkerWithLeastJobOnEachCoreArr p) (int cur_core)) (\<lambda>w. Inr (w, p))
      | JOB_ASSIGN_ROUND_ROBIN \<Rightarrow>
          (let whichWorker = mNextGlobalJobWorker p;
               nxt = u32 (whichWorker + 1);
               nxt' = (if nxt = mJobWorkerCount p then 0 else nxt)
           in Inr (whichWorker, p\<lparr>mNextGlobalJobWorker := nxt'\<rparr>))
      | JOB_ASSIGN_LEAST_JOBS \<Rightarrow> Inr (mJobWorkerWithLeastJob p, p)
      | JOB_ASSIGN_SAME_CORE_RANDOM \<Rightarrow>
          (if wpc = 0 then Inl Division_by_zero else Inr (u32 (cur_core * wpc + draw mod wpc), p))
      | JOB_ASSIGN_RANDOM \<Rightarrow>
          (if mJobWorkerCount p = 0 then Inl Division_by_zero else Inr (draw mod mJobWorkerCount p, p))
      | JOB_ASSIGN_MAX \<Rightarrow> Inl Assertion_failed)"

text \<open>\<open>add\<close> is the worker's \<^verbatim>\<open>addJob\<close>: its result and the worker afterwards.\<close>

definition addJob ::
    "('w \<Rightarrow> bool \<times> 'w) \<Rightarrow> assign_policy \<Rightarrow> nat \<Rightarrow> nat \<Rightarrow> ('w, 'q) pool \<Rightarrow> (bool \<times> ('w, 'q) pool) result" where
  "addJob add pol cur_core draw p =
     bind_result (choose_worker pol cur_core draw p) (\<lambda>(whichWorker, p1).
     bind_result (array_get (mJobWorkerArr p1) (int whichWorker)) (\<lambda>w.
       (case w of
          None \<Rightarrow> Inl Null_dereference
        | Some w' \<Rightarrow> (let (ok, w'') = add w'
                      in Inr (ok, p1\<lparr>mJobWorkerArr := (mJobWorkerArr p1)[whichWorker := Some w'']\<rparr>)))))"

section \<open>Round robin\<close>

text \<open>
  Both counters of \<^verbatim>\<open>addJob\<close>, the global one and that of a core, promise the same: they stay in a
  window of \<open>n\<close> workers from \<open>lo\<close> on and go round it.
\<close>

fun picks :: "('s \<Rightarrow> (nat \<times> 's) result) \<Rightarrow> nat \<Rightarrow> 's \<Rightarrow> (nat list \<times> 's) result" where
  "picks pick 0 s = Inr ([], s)"
| "picks pick (Suc k) s =
     bind_result (pick s) (\<lambda>(w, s1). bind_result (picks pick k s1) (\<lambda>(ws, s2). Inr (w # ws, s2)))"

locale rr_cursor =
  fixes pick :: "'s \<Rightarrow> (nat \<times> 's) result"
    and pos :: "'s \<Rightarrow> nat"
    and ok :: "'s \<Rightarrow> bool"
    and lo :: nat
    and n :: nat
  assumes pos_range: "ok s \<Longrightarrow> lo \<le> pos s \<and> pos s < lo + n"
    and pick_next: "ok s \<Longrightarrow> \<exists>s'. pick s = Inr (pos s, s') \<and> ok s' \<and>
      pos s' = (if Suc (pos s) = lo + n then lo else Suc (pos s))"
begin

lemma picks_cycle:
  "ok s \<Longrightarrow> \<exists>s'. picks pick k s = Inr (map (\<lambda>i. lo + (pos s - lo + i) mod n) [0..<k], s') \<and> ok s'"
proof (induction k arbitrary: s)
  case (Suc k)
  from pick_next [OF Suc.prems] obtain s1 where
    s1: "pick s = Inr (pos s, s1)" "ok s1" "pos s1 = (if Suc (pos s) = lo + n then lo else Suc (pos s))"
    by blast
  from Suc.IH [OF s1(2)] obtain s2 where
    s2: "picks pick k s1 = Inr (map (\<lambda>i. lo + (pos s1 - lo + i) mod n) [0..<k], s2)" "ok s2"
    by blast
  have r: "lo \<le> pos s" "pos s < lo + n" using pos_range [OF Suc.prems] by simp_all
  then have shift: "(pos s1 - lo + i) mod n = (pos s - lo + Suc i) mod n" for i
  proof (cases "Suc (pos s) = lo + n")
    case True
    then have "pos s - lo + Suc i = n + i" using r by simp
    then have "(pos s - lo + Suc i) mod n = i mod n" by (simp only: mod_add_self1)
    then show ?thesis using True s1(3) by simp
  next
    case False
    then show ?thesis using r s1(3) by (simp add: Suc_diff_le)
  qed
  obtain b where b: "pos s = lo + b" "b < n" using r le_Suc_ex by auto
  have "map (\<lambda>i. lo + (pos s - lo + i) mod n) [0..<Suc k]
      = pos s # map (\<lambda>i. lo + (pos s - lo + Suc i) mod n) [0..<k]"
    using b by (simp add: upt_conv_Cons map_Suc_upt [symmetric] comp_def del: upt_Suc)
  then show ?case using s1(1) s2 by (simp add: shift)
qed simp

text \<open>Of \<open>n\<close> picks in a row every worker of the window gets exactly one.\<close>

lemma round_covers:
  assumes "ok s"
  shows "\<exists>ws s'. picks pick n s = Inr (ws, s') \<and> ok s' \<and> distinct ws \<and> set ws = {lo..<lo + n}"
proof -
  let ?ws = "map (\<lambda>i. lo + (pos s - lo + i) mod n) [0..<n]"
  from picks_cycle [OF assms] obtain s' where s': "picks pick n s = Inr (?ws, s')" "ok s'" by blast
  have n: "0 < n" using pos_range [OF assms] by simp
  have inj: "i = j" if "i < n" "j < n" "(b + i) mod n = (b + j) mod n" for i j b
  proof -
    have "int ((b + i) mod n) = int ((b + j) mod n)" using that(3) by simp
    then have "(int b + int i) mod int n = (int b + int j) mod int n" by (simp add: zmod_int)
    then have "int b + int i = int b + int j" by (rule mod_window_inj) (use that in simp)
    then show ?thesis by simp
  qed
  have "inj_on (\<lambda>i. lo + (pos s - lo + i) mod n) (set [0..<n])"
  proof (rule inj_onI)
    fix i j assume ij: "i \<in> set [0..<n]" "j \<in> set [0..<n]"
      and "lo + (pos s - lo + i) mod n = lo + (pos s - lo + j) mod n"
    then have "(pos s - lo + i) mod n = (pos s - lo + j) mod n" by linarith
    then show "i = j" by (rule inj [rotated 2]) (use ij in simp_all)
  qed
  then have d: "distinct ?ws" by (simp only: distinct_map distinct_upt)
  moreover have "set ?ws \<subseteq> {lo..<lo + n}" using n by auto
  moreover have "card (set ?ws) = n" using distinct_card [OF d] by simp
  ultimately have "set ?ws = {lo..<lo + n}"
    by (intro card_subset_eq) simp_all
  with s' d show ?thesis by blast
qed

end

section \<open>The pool's statistics are in range\<close>

text \<open>The counters and the least-jobs entries of every core point to workers of that core.\<close>

definition core_entry_ok :: "nat \<Rightarrow> nat \<Rightarrow> nat \<Rightarrow> bool" where
  "core_entry_ok wpc core w \<longleftrightarrow> core * wpc \<le> w \<and> w < core * wpc + wpc"

definition pool_ok :: "nat \<Rightarrow> ('w, 'q) pool \<Rightarrow> bool" where
  "pool_ok cores p \<longleftrightarrow>
     mJobWorkerCount p = cores * mWorkersPerCore (mConfig p) \<and> 0 < mJobWorkerCount p \<and>
     mJobWorkerCount p \<le> MAX_WORKER_COUNT \<and>
     length (mNextJobWorkerOnEachCoreArr p) = MAX_WORKER_COUNT \<and>
     length (mJobWorkerWithLeastJobOnEachCoreArr p) = MAX_WORKER_COUNT \<and>
     mNextGlobalJobWorker p < mJobWorkerCount p \<and> mJobWorkerWithLeastJob p < mJobWorkerCount p \<and>
     (\<forall>core < cores. core_entry_ok (mWorkersPerCore (mConfig p)) core (mNextJobWorkerOnEachCoreArr p ! core) \<and>
        core_entry_ok (mWorkersPerCore (mConfig p)) core (mJobWorkerWithLeastJobOnEachCoreArr p ! core))"

lemma pool_okD:
  assumes "pool_ok cores p" and "core < cores"
  shows "core * mWorkersPerCore (mConfig p) + mWorkersPerCore (mConfig p) \<le> mJobWorkerCount p"
    "core < MAX_WORKER_COUNT" "0 < mWorkersPerCore (mConfig p)"
    "core_entry_ok (mWorkersPerCore (mConfig p)) core (mNextJobWorkerOnEachCoreArr p ! core)"
    "core_entry_ok (mWorkersPerCore (mConfig p)) core (mJobWorkerWithLeastJobOnEachCoreArr p ! core)"
proof -
  let ?w = "mWorkersPerCore (mConfig p)"
  from assms(1) have "mJobWorkerCount p = cores * ?w" "0 < mJobWorkerCount p" "mJobWorkerCount p \<le> MAX_WORKER_COUNT"
    unfolding pool_ok_def by blast+
  then have count: "mJobWorkerCount p = cores * ?w" "0 < cores * ?w" "cores * ?w \<le> MAX_WORKER_COUNT"
    by simp_all
  from count(2) show w: "0 < ?w" by (cases ?w) simp_all
  have "Suc core * ?w \<le> cores * ?w" using assms(2) by (intro mult_le_mono1) simp
  then show fits: "core * ?w + ?w \<le> mJobWorkerCount p" using count(1) by simp
  have "core * 1 + 1 \<le> core * ?w + ?w" using w by (intro add_mono mult_le_mono2) simp_all
  with fits count show "core < MAX_WORKER_COUNT" by linarith
  from assms show "core_entry_ok ?w core (mNextJobWorkerOnEachCoreArr p ! core)"
    "core_entry_ok ?w core (mJobWorkerWithLeastJobOnEachCoreArr p ! core)"
    by (simp_all add: pool_ok_def)
qed

lemma pool_ok_small:
  assumes "pool_ok cores p"
  shows "mJobWorkerCount p \<le> 128" "mNextGlobalJobWorker p < mJobWorkerCount p"
  using assms by (simp_all add: pool_ok_def MAX_WORKER_COUNT_def)

text \<open>The state after the configuration was accepted.\<close>

lemma initializeStatistics_ok:
  assumes "mJobWorkerCount p = cores * mWorkersPerCore (mConfig p)" and "0 < mJobWorkerCount p"
    and "mJobWorkerCount p \<le> 128"
  shows "pool_ok cores (initializeStatistics p)"
proof -
  let ?w = "mWorkersPerCore (mConfig p)"
  have "u32 (core * ?w) = core * ?w \<and> core < 128 \<and> 0 < ?w" if "core < cores" for core
  proof -
    have w: "0 < ?w" using assms by simp
    have "Suc core * ?w \<le> cores * ?w" using that by (intro mult_le_mono1) simp
    then have le: "core * ?w + ?w \<le> 128" using assms(1,3) by simp
    have "core * 1 + 1 \<le> core * ?w + ?w" using w by (intro add_mono mult_le_mono2) simp_all
    with le w show ?thesis by simp
  qed
  with assms show ?thesis
    by (simp add: pool_ok_def initializeStatistics_def Let_def MAX_WORKER_COUNT_def core_entry_ok_def)
qed

text \<open>The two counters, as cursors.\<close>

lemma global_pick:
  assumes "pool_ok cores p"
  shows "choose_worker JOB_ASSIGN_ROUND_ROBIN core draw p = Inr (mNextGlobalJobWorker p,
    p\<lparr>mNextGlobalJobWorker := (if Suc (mNextGlobalJobWorker p) = mJobWorkerCount p then 0
      else Suc (mNextGlobalJobWorker p))\<rparr>)"
  using pool_ok_small [OF assms] by (simp add: choose_worker_def Let_def)

lemma core_pick:
  assumes "pool_ok cores p" and "core < cores"
  shows "choose_worker JOB_ASSIGN_SAME_CORE_ROUND_ROBIN core draw p =
    (let w = mNextJobWorkerOnEachCoreArr p ! core; wpc = mWorkersPerCore (mConfig p) in
     Inr (w, p\<lparr>mNextJobWorkerOnEachCoreArr := (mNextJobWorkerOnEachCoreArr p)[core :=
       (if Suc w = core * wpc + wpc then core * wpc else Suc w)]\<rparr>))"
proof -
  let ?w = "mNextJobWorkerOnEachCoreArr p ! core" and ?wpc = "mWorkersPerCore (mConfig p)"
  note D = pool_okD [OF assms]
  have small: "core * ?wpc + ?wpc \<le> 128" "core < 128" "?w < 128"
    using D(1,2,4) pool_ok_small(1) [OF assms(1)] by (simp_all add: MAX_WORKER_COUNT_def core_entry_ok_def)
  then have "u32 (u32 (core + 1) * ?wpc) = core * ?wpc + ?wpc" by (simp add: add.commute)
  moreover have "array_get (mNextJobWorkerOnEachCoreArr p) (int core) = Inr ?w"
    using assms D(2) by (simp add: array_get_def pool_ok_def)
  ultimately show ?thesis
    using small by (simp add: choose_worker_def Let_def)
qed

interpretation global_cursor: rr_cursor "choose_worker JOB_ASSIGN_ROUND_ROBIN core draw" mNextGlobalJobWorker
    "\<lambda>p. pool_ok cores p \<and> mJobWorkerCount p = n" 0 n
  for core draw cores n :: nat
proof unfold_locales
  fix p :: "('w, 'q) pool"
  assume p: "pool_ok cores p \<and> mJobWorkerCount p = n"
  then show "0 \<le> mNextGlobalJobWorker p \<and> mNextGlobalJobWorker p < 0 + n" by (simp add: pool_ok_def)
  show "\<exists>s'. choose_worker JOB_ASSIGN_ROUND_ROBIN core draw p = Inr (mNextGlobalJobWorker p, s') \<and>
      (pool_ok cores s' \<and> mJobWorkerCount s' = n) \<and>
      mNextGlobalJobWorker s' = (if Suc (mNextGlobalJobWorker p) = 0 + n then 0 else Suc (mNextGlobalJobWorker p))"
    using p global_pick [of cores p core draw] by (auto simp: pool_ok_def)
qed

lemma pool_ok_set_next:
  assumes "pool_ok cores p" and "core_entry_ok (mWorkersPerCore (mConfig p)) core m"
  shows "pool_ok cores (p\<lparr>mNextJobWorkerOnEachCoreArr := (mNextJobWorkerOnEachCoreArr p)[core := m]\<rparr>)"
proof -
  have "core_entry_ok (mWorkersPerCore (mConfig p)) c ((mNextJobWorkerOnEachCoreArr p)[core := m] ! c)"
    if "c < cores" for c
    using pool_okD(2,4) [OF assms(1) that] assms by (cases "c = core") (simp_all add: pool_ok_def)
  with assms(1) show ?thesis by (auto simp: pool_ok_def)
qed

interpretation core_cursor: rr_cursor "choose_worker JOB_ASSIGN_SAME_CORE_ROUND_ROBIN core draw"
    "\<lambda>p. mNextJobWorkerOnEachCoreArr p ! core"
    "\<lambda>p. pool_ok cores p \<and> core < cores \<and> mWorkersPerCore (mConfig p) = n" "core * n" n
  for core draw cores n :: nat
proof unfold_locales
  fix p :: "('w, 'q) pool"
  assume p: "pool_ok cores p \<and> core < cores \<and> mWorkersPerCore (mConfig p) = n"
  then have here: "core_entry_ok n core (mNextJobWorkerOnEachCoreArr p ! core)" and len: "core < length (mNextJobWorkerOnEachCoreArr p)"
    and n: "0 < n"
    using pool_okD [of cores p core] by (auto simp: pool_ok_def)
  then show "core * n \<le> mNextJobWorkerOnEachCoreArr p ! core \<and> mNextJobWorkerOnEachCoreArr p ! core < core * n + n"
    by (simp add: core_entry_ok_def)
  let ?next = "if Suc (mNextJobWorkerOnEachCoreArr p ! core) = core * n + n then core * n
    else Suc (mNextJobWorkerOnEachCoreArr p ! core)"
  have "core_entry_ok n core ?next" using here n by (auto simp: core_entry_ok_def)
  then have "pool_ok cores (p\<lparr>mNextJobWorkerOnEachCoreArr := (mNextJobWorkerOnEachCoreArr p)[core := ?next]\<rparr>)"
    using p by (intro pool_ok_set_next) simp_all
  then show "\<exists>s'. choose_worker JOB_ASSIGN_SAME_CORE_ROUND_ROBIN core draw p = Inr (mNextJobWorkerOnEachCoreArr p ! core, s') \<and>
      (pool_ok cores s' \<and> core < cores \<and> mWorkersPerCore (mConfig s') = n) \<and>
      mNextJobWorkerOnEachCoreArr s' ! core = ?next"
    using p core_pick [of cores p core draw] len by (simp add: Let_def)
qed

section \<open>The fewest jobs\<close>

lemma least_scan_correct:
  assumes "leastJobs = jobs w" and "start \<le> w" and "w < i" and "\<And>v. start \<le> v \<Longrightarrow> v < i \<Longrightarrow> jobs w \<le> jobs v"
    and "\<And>v. start \<le> v \<Longrightarrow> v < i + k \<Longrightarrow> count v = Inr (jobs v)"
  shows "\<exists>m. least_scan count k i leastJobs w = Inr m \<and> start \<le> m \<and> m < i + k \<and>
    (\<forall>v. start \<le> v \<longrightarrow> v < i + k \<longrightarrow> jobs m \<le> jobs v)"
  using assms
proof (induction k arbitrary: i w leastJobs)
  case (Suc k)
  have here: "count i = Inr (jobs i)" using Suc.prems(2,3,5) by simp
  show ?case
  proof (cases "jobs i < leastJobs")
    case True
    have "jobs i \<le> jobs v" if "start \<le> v" "v < Suc i" for v
      using that Suc.prems(1,4) True by (cases "v = i") (auto intro: less_imp_le order_trans)
    with Suc.IH [of "jobs i" i "Suc i"] Suc.prems(2,3,5) True here show ?thesis by simp
  next
    case False
    have "jobs w \<le> jobs v" if "start \<le> v" "v < Suc i" for v
      using that Suc.prems(1,4) False by (cases "v = i") auto
    with Suc.IH [of leastJobs w "Suc i"] Suc.prems(1-3,5) False here show ?thesis by simp
  qed
qed auto

definition least_in :: "(nat \<Rightarrow> nat) \<Rightarrow> nat \<Rightarrow> nat \<Rightarrow> nat \<Rightarrow> bool" where
  "least_in jobs lo n m \<longleftrightarrow> lo \<le> m \<and> m < lo + n \<and> (\<forall>v \<in> {lo..<lo + n}. jobs m \<le> jobs v)"

lemma least_of_correct:
  assumes "0 < n" and "\<And>v. start \<le> v \<Longrightarrow> v < start + n \<Longrightarrow> count v = Inr (jobs v)"
  shows "\<exists>m. least_of count start n = Inr m \<and> least_in jobs start n m"
proof -
  have "\<exists>m. least_scan count (n - 1) (Suc start) (jobs start) start = Inr m \<and> start \<le> m \<and> m < Suc start + (n - 1) \<and>
    (\<forall>v. start \<le> v \<longrightarrow> v < Suc start + (n - 1) \<longrightarrow> jobs m \<le> jobs v)"
  proof (rule least_scan_correct)
    show "jobs start \<le> jobs v" if "start \<le> v" "v < Suc start" for v using that by (simp add: le_antisym less_Suc_eq_le)
    show "count v = Inr (jobs v)" if "start \<le> v" "v < Suc start + (n - 1)" for v using that assms by simp
  qed simp_all
  with assms show ?thesis by (auto simp: least_of_def least_in_def)
qed

section \<open>Loops over the arrays\<close>

text \<open>Every loop that fills or calls the slots of an array rewrites a slice of it.\<close>

definition slice_done :: "(nat \<Rightarrow> 'a \<Rightarrow> 'a) \<Rightarrow> nat \<Rightarrow> nat \<Rightarrow> 'a list \<Rightarrow> 'a list \<Rightarrow> bool" where
  "slice_done f lo hi xs ys \<longleftrightarrow>
     length ys = length xs \<and> (\<forall>i < length xs. ys ! i = (if lo \<le> i \<and> i < hi then f i (xs ! i) else xs ! i))"

named_theorems slices \<open>composition of slices\<close>

lemma slice_none [slices]: "slice_done f lo lo xs xs"
  by (auto simp: slice_done_def)

lemma slice_one [slices]: "slice_done f lo (Suc lo) xs (xs[lo := f lo (xs ! lo)])"
  by (auto simp: slice_done_def nth_list_update less_Suc_eq_le dest: le_antisym)

lemma slice_join:
  "slice_done f lo mid xs ys \<Longrightarrow> slice_done f mid hi ys zs \<Longrightarrow> lo \<le> mid \<Longrightarrow> mid \<le> hi \<Longrightarrow>
   slice_done f lo hi xs zs"
  by (auto simp: slice_done_def)

lemma slice_length: "slice_done f lo hi xs ys \<Longrightarrow> length ys = length xs"
  by (simp add: slice_done_def)

lemma slice_cong:
  "slice_done f lo hi xs ys \<Longrightarrow> (\<And>i x. lo \<le> i \<Longrightarrow> i < hi \<Longrightarrow> f i x = g i x) \<Longrightarrow> slice_done g lo hi xs ys"
  by (auto simp: slice_done_def)

lemma slice_nth:
  "slice_done f lo hi xs ys \<Longrightarrow> i < length xs \<Longrightarrow> ys ! i = (if lo \<le> i \<and> i < hi then f i (xs ! i) else xs ! i)"
  by (simp add: slice_done_def)

lemma create_queues_ok:
  "i + k \<le> length arr \<Longrightarrow>
   \<exists>arr'. create_queues newq qt k i arr = Inr arr' \<and> slice_done (\<lambda>j _. Some (newq j qt)) i (i + k) arr arr'"
proof (induction k arbitrary: i arr)
  case (Suc k)
  then obtain arr' where arr': "create_queues newq qt k (Suc i) (arr[i := Some (newq i qt)]) = Inr arr'"
    "slice_done (\<lambda>j _. Some (newq j qt)) (Suc i) (i + Suc k) (arr[i := Some (newq i qt)]) arr'"
    using Suc.IH [of "Suc i" "arr[i := Some (newq i qt)]"] by auto
  then have "slice_done (\<lambda>j _. Some (newq j qt)) i (i + Suc k) arr arr'"
    using slice_join [OF slice_one] by fastforce
  with arr'(1) Suc.prems show ?case by (simp add: array_set_nat)
qed (simp add: slice_none)

lemma create_on_core_ok:
  "wid + k \<le> length arr \<Longrightarrow>
   \<exists>arr'. create_on_core mk k cfg wid arr = Inr (wid + k, arr') \<and>
     slice_done (\<lambda>j _. Some (mk j cfg)) wid (wid + k) arr arr'"
proof (induction k arbitrary: wid arr)
  case (Suc k)
  then obtain arr' where arr': "create_on_core mk k cfg (Suc wid) (arr[wid := Some (mk wid cfg)]) = Inr (Suc wid + k, arr')"
    "slice_done (\<lambda>j _. Some (mk j cfg)) (Suc wid) (wid + Suc k) (arr[wid := Some (mk wid cfg)]) arr'"
    using Suc.IH [of "Suc wid" "arr[wid := Some (mk wid cfg)]"] by auto
  then have "slice_done (\<lambda>j _. Some (mk j cfg)) wid (wid + Suc k) arr arr'"
    using slice_join [OF slice_one] by fastforce
  with arr'(1) Suc.prems show ?case by (simp add: array_set_nat)
qed (simp add: slice_none)

lemma create_on_cores_ok:
  "core * wpc + n * wpc \<le> length arr \<Longrightarrow>
   \<exists>arr'. create_on_cores mk wpc n core cfg (core * wpc) arr = Inr arr' \<and>
     slice_done (\<lambda>j _. Some (mk j (cfg\<lparr>mWhichCore := j div wpc\<rparr>))) (core * wpc) (core * wpc + n * wpc) arr arr'"
proof (induction n arbitrary: core arr)
  case (Suc n)
  let ?f = "\<lambda>j (_::'a option). Some (mk j (cfg\<lparr>mWhichCore := j div wpc\<rparr>))"
  have "core * wpc + wpc \<le> length arr" using Suc.prems by simp
  from create_on_core_ok [OF this, of mk "cfg\<lparr>mWhichCore := core\<rparr>"] obtain arr1 where
    arr1: "create_on_core mk wpc (cfg\<lparr>mWhichCore := core\<rparr>) (core * wpc) arr = Inr (core * wpc + wpc, arr1)"
    "slice_done (\<lambda>j _. Some (mk j (cfg\<lparr>mWhichCore := core\<rparr>))) (core * wpc) (core * wpc + wpc) arr arr1"
    by blast
  have div: "j div wpc = core" if "core * wpc \<le> j" "j < core * wpc + wpc" for j
    by (rule div_nat_eqI) (use that in \<open>simp_all add: mult.commute\<close>)
  have f1: "slice_done ?f (core * wpc) (core * wpc + wpc) arr arr1"
    by (rule slice_cong [OF arr1(2)]) (simp add: div)
  obtain arr2 where
    arr2: "create_on_cores mk wpc n (Suc core) cfg (Suc core * wpc) arr1 = Inr arr2"
    "slice_done ?f (Suc core * wpc) (Suc core * wpc + n * wpc) arr1 arr2"
    using Suc.IH [of "Suc core" arr1] Suc.prems slice_length [OF arr1(2)] by auto
  have eq: "Suc core * wpc = core * wpc + wpc" "core * wpc + wpc + n * wpc = core * wpc + Suc n * wpc"
    by simp_all
  from arr2(2) have f2: "slice_done ?f (core * wpc + wpc) (core * wpc + Suc n * wpc) arr1 arr2"
    by (simp only: eq)
  have "slice_done ?f (core * wpc) (core * wpc + Suc n * wpc) arr arr2"
    by (rule slice_join [OF f1 f2]) simp_all
  with arr1(1) arr2(1) show ?case by (simp add: add.commute)
qed (simp add: slice_none)

text \<open>Calling the workers of a slice needs all of them to be there.\<close>

definition filled :: "'a option list \<Rightarrow> nat \<Rightarrow> nat \<Rightarrow> bool" where
  "filled arr lo hi \<longleftrightarrow> (\<forall>i \<in> {lo..<hi}. i < length arr \<and> arr ! i \<noteq> None)"

lemma call_worker_ok:
  "i < length arr \<Longrightarrow> arr ! i \<noteq> None \<Longrightarrow> call_worker f i arr = Inr (arr[i := map_option f (arr ! i)])"
  by (auto simp: call_worker_def array_get_def)

lemma call_worker_gone:
  "\<not> (i < length arr \<and> arr ! i \<noteq> None) \<Longrightarrow> \<not> succeeds (call_worker f i arr)"
  by (auto simp: call_worker_def array_get_def)

lemma filled_after: "filled arr (Suc i) hi \<Longrightarrow> filled (arr[i := x]) (Suc i) hi"
  by (auto simp: filled_def)

lemma filled_update:
  assumes "filled arr lo hi"
  shows "filled (arr[i := Some x]) lo hi"
proof -
  have "arr[i := Some x] ! j \<noteq> None" if "j \<in> {lo..<hi}" for j
    using assms that by (cases "j = i") (simp_all add: filled_def)
  with assms show ?thesis by (simp add: filled_def)
qed

lemma start_workers_ok:
  "filled arr i (i + k) \<Longrightarrow>
   \<exists>arr'. start_workers st k i arr = Inr arr' \<and> slice_done (\<lambda>_. map_option st) i (i + k) arr arr'"
proof (induction k arbitrary: i arr)
  case (Suc k)
  let ?arr = "arr[i := map_option st (arr ! i)]"
  have "filled arr (Suc i) (Suc i + k)" using Suc.prems by (simp add: filled_def)
  then obtain arr' where arr': "start_workers st k (Suc i) ?arr = Inr arr'"
    "slice_done (\<lambda>_. map_option st) (Suc i) (Suc i + k) ?arr arr'"
    using Suc.IH [of ?arr "Suc i"] filled_after by blast
  then have "slice_done (\<lambda>_. map_option st) i (i + Suc k) arr arr'"
    using slice_join [OF slice_one] by fastforce
  with arr'(1) Suc.prems show ?case by (simp add: call_worker_ok filled_def)
qed (simp add: slice_none)

lemma assign_one_ok:
  "filled arr wid (wid + k) \<Longrightarrow>
   \<exists>arr'. assign_one asg k q wid arr = Inr (wid + k, arr') \<and>
     slice_done (\<lambda>_. map_option (asg q)) wid (wid + k) arr arr'"
proof (induction k arbitrary: wid arr)
  case (Suc k)
  let ?arr = "arr[wid := map_option (asg q) (arr ! wid)]"
  have "filled arr (Suc wid) (Suc wid + k)" using Suc.prems by (simp add: filled_def)
  then obtain arr' where arr': "assign_one asg k q (Suc wid) ?arr = Inr (Suc wid + k, arr')"
    "slice_done (\<lambda>_. map_option (asg q)) (Suc wid) (Suc wid + k) ?arr arr'"
    using Suc.IH [of ?arr "Suc wid"] filled_after by blast
  then have "slice_done (\<lambda>_. map_option (asg q)) wid (wid + Suc k) arr arr'"
    using slice_join [OF slice_one] by fastforce
  with arr'(1) Suc.prems show ?case by (simp add: call_worker_ok filled_def)
qed (simp add: slice_none)

lemma filled_slice: "slice_done f lo mid xs ys \<Longrightarrow> filled xs mid hi \<Longrightarrow> filled ys mid hi"
  by (auto simp: filled_def slice_done_def)

lemma filled_split: "lo \<le> mid \<Longrightarrow> mid \<le> hi \<Longrightarrow> filled arr lo hi \<longleftrightarrow> filled arr lo mid \<and> filled arr mid hi"
  by (simp add: filled_def ivl_disj_un_two(3) [of lo mid hi, symmetric] ball_Un)

lemma assign_all_ok:
  "q + n \<le> length qs \<Longrightarrow> filled arr (q * f) ((q + n) * f) \<Longrightarrow>
   \<exists>arr'. assign_all asg f qs n q (q * f) arr = Inr arr' \<and>
     slice_done (\<lambda>j. map_option (asg (qs ! (j div f)))) (q * f) ((q + n) * f) arr arr'"
proof (induction n arbitrary: q arr)
  case (Suc n)
  let ?g = "\<lambda>j. map_option (asg (qs ! (j div f)))"
  have eq: "Suc q * f = q * f + f" "(q + Suc n) * f = (Suc q + n) * f" by simp_all
  have parts: "filled arr (q * f) (q * f + f)" "filled arr (Suc q * f) ((Suc q + n) * f)"
    using filled_split [of "q * f" "q * f + f" "(q + Suc n) * f" arr] Suc.prems(2) by (simp_all add: algebra_simps)
  from assign_one_ok [OF parts(1), of asg "qs ! q"] obtain arr1 where
    arr1: "assign_one asg f (qs ! q) (q * f) arr = Inr (q * f + f, arr1)"
    "slice_done (\<lambda>_. map_option (asg (qs ! q))) (q * f) (q * f + f) arr arr1"
    by blast
  have div: "j div f = q" if "q * f \<le> j" "j < q * f + f" for j
    by (rule div_nat_eqI) (use that in \<open>simp_all add: mult.commute\<close>)
  have f1: "slice_done ?g (q * f) (q * f + f) arr arr1"
    by (rule slice_cong [OF arr1(2)]) (simp add: div)
  have "filled arr1 (Suc q * f) ((Suc q + n) * f)"
    using filled_slice [OF f1, of "(Suc q + n) * f"] parts(2) by (simp only: eq)
  then obtain arr2 where arr2: "assign_all asg f qs n (Suc q) (Suc q * f) arr1 = Inr arr2"
    "slice_done ?g (Suc q * f) ((Suc q + n) * f) arr1 arr2"
    using Suc.IH [of "Suc q" arr1] Suc.prems(1) by auto
  from arr2(2) have f2: "slice_done ?g (q * f + f) ((q + Suc n) * f) arr1 arr2" by (simp only: eq)
  have "slice_done ?g (q * f) ((q + Suc n) * f) arr arr2"
    by (rule slice_join [OF f1 f2]) simp_all
  with arr1(1) arr2(1) Suc.prems(1) show ?case by (simp add: array_get_def add.commute)
qed (simp add: slice_none)

lemma assign_one_fails: "\<not> filled arr wid (wid + k) \<Longrightarrow> \<not> succeeds (assign_one asg k q wid arr)"
proof (induction k arbitrary: wid arr)
  case (Suc k)
  show ?case
  proof (cases "wid < length arr \<and> arr ! wid \<noteq> None")
    case True
    let ?arr = "arr[wid := map_option (asg q) (arr ! wid)]"
    have "\<not> filled arr (Suc wid) (Suc wid + k)"
      using Suc.prems True filled_split [of wid "Suc wid" "wid + Suc k" arr] by (auto simp: filled_def)
    moreover have "filled ?arr (Suc wid) (Suc wid + k) \<longleftrightarrow> filled arr (Suc wid) (Suc wid + k)"
      by (simp add: filled_def)
    ultimately show ?thesis using Suc.IH [of ?arr "Suc wid"] True by (simp add: call_worker_ok)
  next
    case False
    then show ?thesis using call_worker_gone [OF False, of "asg q"]
      by (cases "call_worker (asg q) wid arr") simp_all
  qed
qed (simp add: filled_def)

lemma assign_all_fails:
  "q + n \<le> length qs \<Longrightarrow> \<not> filled arr (q * f) ((q + n) * f) \<Longrightarrow> \<not> succeeds (assign_all asg f qs n q (q * f) arr)"
proof (induction n arbitrary: q arr)
  case (Suc n)
  show ?case
  proof (cases "filled arr (q * f) (q * f + f)")
    case True
    from assign_one_ok [OF True, of asg "qs ! q"] obtain arr1 where
      arr1: "assign_one asg f (qs ! q) (q * f) arr = Inr (q * f + f, arr1)"
      "slice_done (\<lambda>_. map_option (asg (qs ! q))) (q * f) (q * f + f) arr arr1"
      by blast
    have rest: "\<not> filled arr (q * f + f) ((q + Suc n) * f)"
      using Suc.prems(2) True filled_split [of "q * f" "q * f + f" "(q + Suc n) * f" arr] by simp
    have "\<not> filled arr1 (Suc q * f) ((Suc q + n) * f)"
      using rest arr1(2) by (auto simp: filled_def slice_done_def add.commute)
    with Suc.IH [of "Suc q" arr1] Suc.prems(1) arr1(1) show ?thesis
      by (simp add: array_get_def add.commute)
  next
    case False
    from assign_one_fails [OF False, of asg "qs ! q"] Suc.prems(1) show ?thesis
      by (cases "assign_one asg f (qs ! q) (q * f) arr") (simp_all add: array_get_def)
  qed
qed (simp add: filled_def)

section \<open>The life of a pool\<close>

text \<open>The pool is in range and all its workers are there.\<close>

definition pool_ready :: "nat \<Rightarrow> ('w, 'q) pool \<Rightarrow> bool" where
  "pool_ready cores p \<longleftrightarrow> pool_ok cores p \<and> length (mJobWorkerArr p) = MAX_WORKER_COUNT \<and>
     filled (mJobWorkerArr p) 0 (mJobWorkerCount p)"

text \<open>How many queues the configuration asks for \<open>n\<close> workers.\<close>

definition queues_for :: "pool_config \<Rightarrow> nat \<Rightarrow> nat" where
  "queues_for c n =
     (if mJobQueueType c = JOBQUEUE_TYPE_SHARED then (n + mQueueShareFactor c - 1) div mQueueShareFactor c else n)"

definition adjusted :: "('w, 'q) pool_env \<Rightarrow> pool_config \<Rightarrow> pool_config" where
  "adjusted E c = c\<lparr>mThreadPriority := adjusted_priority (priority_min E) (priority_max E) (mThreadPolicy c) (mThreadPriority c)\<rparr>"

lemma adjusted_simps [simp]:
  "mWorkersPerCore (adjusted E c) = mWorkersPerCore c" "mQueueShareFactor (adjusted E c) = mQueueShareFactor c"
  "mJobQueueType (adjusted E c) = mJobQueueType c"
  by (simp_all add: adjusted_def)

text \<open>The configurations that \<^verbatim>\<open>checkAndAdjustConfig\<close> accepts without a fault.\<close>

definition acceptable :: "('w, 'q) pool_env \<Rightarrow> pool_config \<Rightarrow> bool" where
  "acceptable E c \<longleftrightarrow>
     0 < core_number E * mWorkersPerCore c \<and> core_number E * mWorkersPerCore c \<le> MAX_WORKER_COUNT \<and>
     (mThreadPolicy c = SCHED_OTHER \<or> user_id E = 0) \<and>
     (mJobQueueType c = JOBQUEUE_TYPE_EXCLUSIVE \<or>
      mJobQueueType c = JOBQUEUE_TYPE_SHARED \<and> 0 < mQueueShareFactor c \<and> mQueueShareFactor c \<le> 4294967168)"

lemma check_accepts:
  assumes "acceptable E c" and "mConfig p = c"
  shows "checkAndAdjustConfig (priority_min E) (priority_max E) (core_number E) (user_id E) p =
    Inr (Accepted, p\<lparr>mJobWorkerCount := core_number E * mWorkersPerCore c, mConfig := adjusted E c,
      mJobQueueCount := queues_for c (core_number E * mWorkersPerCore c)\<rparr>)"
proof -
  let ?n = "core_number E * mWorkersPerCore c"
  have n: "0 < ?n" "?n \<le> 128" using assms(1) by (auto simp: acceptable_def MAX_WORKER_COUNT_def)
  have wrap: "u32 (?n + f + 4294967295) = ?n + f - 1" if "0 < f" "f \<le> 4294967168" for f
  proof -
    have "?n + f + 4294967295 = (?n + f - 1) + 4294967296" using that by simp
    then have "u32 (?n + f + 4294967295) = u32 (?n + f - 1)" by (simp only: u32_def mod_add_self2)
    also have "\<dots> = ?n + f - 1" using n that by (intro u32_small) simp
    finally show ?thesis .
  qed
  have u: "u32 ?n = ?n" using n by simp
  consider "mJobQueueType c = JOBQUEUE_TYPE_EXCLUSIVE"
    | "mJobQueueType c = JOBQUEUE_TYPE_SHARED" "0 < mQueueShareFactor c" "mQueueShareFactor c \<le> 4294967168"
    using assms(1) by (auto simp: acceptable_def)
  then show ?thesis
  proof cases
    case 1
    then show ?thesis using assms u
      by (auto simp: checkAndAdjustConfig_def acceptable_def Let_def queues_for_def adjusted_def)
  next
    case 2
    then show ?thesis using assms u wrap [of "mQueueShareFactor c"]
      by (auto simp: checkAndAdjustConfig_def acceptable_def Let_def queues_for_def adjusted_def)
  qed
qed

lemma queues_for_le:
  assumes "acceptable E c"
  shows "queues_for c n \<le> n"
proof (cases "mJobQueueType c = JOBQUEUE_TYPE_SHARED")
  case True
  let ?f = "mQueueShareFactor c"
  have f: "0 < ?f" using assms True by (simp add: acceptable_def)
  then have "n + ?f - 1 < Suc n * ?f" by (cases ?f) simp_all
  then have "(n + ?f - 1) div ?f < Suc n" by (rule less_mult_imp_div_less)
  then show ?thesis using True by (simp add: queues_for_def)
qed (simp add: queues_for_def)

lemma slice_from_0:
  "slice_done f 0 n xs ys \<Longrightarrow> i < n \<Longrightarrow> n \<le> length xs \<Longrightarrow> ys ! i = f i (xs ! i)"
  by (simp add: slice_nth)

lemma pool_built:
  assumes "acceptable E c" and "mConfig p = adjusted E c" and "mJobWorkerCount p = core_number E * mWorkersPerCore c"
    and "mJobQueueCount p = queues_for c (core_number E * mWorkersPerCore c)"
    and "length (mJobWorkerArr p) = MAX_WORKER_COUNT" and "length (mJobQueueArr p) = MAX_WORKER_COUNT"
  obtains qs ws where
    "createJobQueues newq p = Inr (p\<lparr>mJobQueueArr := qs\<rparr>)"
    "createJobWorkers mk (core_number E) (p\<lparr>mJobQueueArr := qs\<rparr>) = Inr (p\<lparr>mJobQueueArr := qs, mJobWorkerArr := ws\<rparr>)"
    "slice_done (\<lambda>j _. Some (newq j (mJobQueueType c))) 0 (mJobQueueCount p) (mJobQueueArr p) qs"
    "slice_done (\<lambda>j _. Some (mk j ((worker_config.truncate (adjusted E c))\<lparr>mWhichCore := j div mWorkersPerCore c\<rparr>)))
       0 (mJobWorkerCount p) (mJobWorkerArr p) ws"
proof -
  let ?n = "core_number E * mWorkersPerCore c"
  have n: "?n \<le> MAX_WORKER_COUNT" using assms(1) by (simp add: acceptable_def)
  have cfg: "mJobQueueType (mConfig p) = mJobQueueType c" "mWorkersPerCore (mConfig p) = mWorkersPerCore c"
    by (simp_all add: assms(2) adjusted_def)
  have "0 + mJobQueueCount p \<le> length (mJobQueueArr p)" using n assms queues_for_le [OF assms(1), of ?n] by simp
  from create_queues_ok [OF this, of newq "mJobQueueType c"] obtain qs where
    qs: "create_queues newq (mJobQueueType c) (mJobQueueCount p) 0 (mJobQueueArr p) = Inr qs"
    "slice_done (\<lambda>j _. Some (newq j (mJobQueueType c))) 0 (mJobQueueCount p) (mJobQueueArr p) qs"
    by auto
  have "0 * mWorkersPerCore c + core_number E * mWorkersPerCore c \<le> length (mJobWorkerArr p)" using n assms by simp
  from create_on_cores_ok [OF this, of mk "worker_config.truncate (adjusted E c)"] obtain ws where
    ws: "create_on_cores mk (mWorkersPerCore c) (core_number E) 0 (worker_config.truncate (adjusted E c)) 0 (mJobWorkerArr p) = Inr ws"
    "slice_done (\<lambda>j _. Some (mk j ((worker_config.truncate (adjusted E c))\<lparr>mWhichCore := j div mWorkersPerCore c\<rparr>)))
       0 ?n (mJobWorkerArr p) ws"
    by auto
  show ?thesis
  proof (rule that)
    show "createJobQueues newq p = Inr (p\<lparr>mJobQueueArr := qs\<rparr>)"
      using qs(1) by (simp add: createJobQueues_def cfg)
    show "createJobWorkers mk (core_number E) (p\<lparr>mJobQueueArr := qs\<rparr>) = Inr (p\<lparr>mJobQueueArr := qs, mJobWorkerArr := ws\<rparr>)"
      using ws(1) by (simp add: createJobWorkers_def cfg assms(2) del: worker_config.truncate_def)
  qed (use qs(2) ws(2) assms(3) in simp_all)
qed

text \<open>The memory of a pool before its constructor runs.\<close>

definition fresh_memory :: "('w, 'q) pool \<Rightarrow> bool" where
  "fresh_memory p0 \<longleftrightarrow> mJobWorkerArr p0 = replicate MAX_WORKER_COUNT None \<and>
     mJobQueueArr p0 = replicate MAX_WORKER_COUNT None \<and> \<not> mTimerThread p0"

text \<open>The worker that ends up in slot \<open>i\<close>.\<close>

definition pool_worker :: "('w, 'q) pool_env \<Rightarrow> pool_config \<Rightarrow> nat \<Rightarrow> 'w" where
  "pool_worker E c i =
     startWorker E (assignQ E (Some (createJobQueue E (i div mQueueShareFactor c) (mJobQueueType c)))
       (createJobWorker E i ((worker_config.truncate (adjusted E c))\<lparr>mWhichCore := i div mWorkersPerCore c\<rparr>)))"

abbreviation made_worker :: "('w, 'q) pool_env \<Rightarrow> pool_config \<Rightarrow> nat \<Rightarrow> 'w" where
  "made_worker E c j \<equiv>
     createJobWorker E j ((worker_config.truncate (adjusted E c))\<lparr>mWhichCore := j div mWorkersPerCore c\<rparr>)"

text \<open>Queues for exactly \<open>n\<close> workers: every worker is given its queue and started.\<close>

lemma workers_served:
  assumes "slice_done (\<lambda>j _. Some (createJobQueue E j (mJobQueueType c))) 0 q (replicate MAX_WORKER_COUNT None) qs"
    and "slice_done (\<lambda>j _. Some (made_worker E c j)) 0 n (replicate MAX_WORKER_COUNT None) ws"
    and "q * mQueueShareFactor c = n" and "q \<le> n" and "n \<le> 128"
  obtains ws1 ws2 where
    "assign_all (assignQ E) (mQueueShareFactor c) qs q 0 0 ws = Inr ws1"
    "start_workers (startWorker E) n 0 ws1 = Inr ws2" "length ws2 = MAX_WORKER_COUNT"
    "\<And>i. i < n \<Longrightarrow> ws2 ! i = Some (pool_worker E c i)"
proof -
  let ?f = "mQueueShareFactor c"
  have len: "length qs = 128" "length ws = 128"
    using slice_length [OF assms(1)] slice_length [OF assms(2)] by (simp_all add: MAX_WORKER_COUNT_def)
  have made: "ws ! i = Some (made_worker E c i)" if "i < n" for i
    using slice_from_0 [OF assms(2) that] assms(5) by (simp add: MAX_WORKER_COUNT_def)
  then have "0 + q \<le> length qs" "filled ws (0 * ?f) ((0 + q) * ?f)"
    using assms(3-5) len by (simp_all add: filled_def)
  from assign_all_ok [OF this, of "assignQ E"] assms(3) obtain ws1 where
    ws1: "assign_all (assignQ E) ?f qs q 0 0 ws = Inr ws1"
    "slice_done (\<lambda>j. map_option (assignQ E (qs ! (j div ?f)))) 0 n ws ws1"
    by auto
  have "filled ws1 0 (0 + n)"
    using slice_from_0 [OF ws1(2)] made slice_length [OF ws1(2)] assms(5) len by (simp add: filled_def)
  from start_workers_ok [OF this, of "startWorker E"] obtain ws2 where
    ws2: "start_workers (startWorker E) n 0 ws1 = Inr ws2"
    "slice_done (\<lambda>_. map_option (startWorker E)) 0 n ws1 ws2"
    by auto
  have "ws2 ! i = Some (pool_worker E c i)" if "i < n" for i
  proof -
    have "i div ?f < q" using that assms(3) by (intro less_mult_imp_div_less) simp
    then have "qs ! (i div ?f) = Some (createJobQueue E (i div ?f) (mJobQueueType c))"
      using slice_from_0 [OF assms(1)] assms(4,5) by (simp add: MAX_WORKER_COUNT_def)
    then show ?thesis
      using that assms(5) slice_length [OF ws1(2)] len slice_from_0 [OF ws2(2) that]
        slice_from_0 [OF ws1(2) that] made
      by (simp add: pool_worker_def)
  qed
  moreover have "length ws2 = MAX_WORKER_COUNT"
    using slice_length [OF ws1(2)] slice_length [OF ws2(2)] len by (simp add: MAX_WORKER_COUNT_def)
  ultimately show ?thesis using that ws1(1) ws2(1) by blast
qed

text \<open>Queues for more workers than there are: some call goes to a slot that holds no worker.\<close>

lemma workers_missing:
  assumes "slice_done (\<lambda>j _. Some (made_worker E c j)) 0 n (replicate MAX_WORKER_COUNT None) ws"
    and "q * mQueueShareFactor c > n" and "q \<le> length qs"
  obtains e where "assign_all (assignQ E) (mQueueShareFactor c) qs q 0 0 ws = Inl e"
proof -
  have len: "length ws = MAX_WORKER_COUNT" using slice_length [OF assms(1)] by simp
  have "\<not> filled ws (0 * mQueueShareFactor c) ((0 + q) * mQueueShareFactor c)"
  proof
    assume "filled ws (0 * mQueueShareFactor c) ((0 + q) * mQueueShareFactor c)"
    with assms(2) have "n < length ws \<and> ws ! n \<noteq> None" by (simp add: filled_def)
    with slice_nth [OF assms(1), of n] len show False by simp
  qed
  then have "\<not> succeeds (assign_all (assignQ E) (mQueueShareFactor c) qs q 0 0 ws)"
    using assign_all_fails [of 0 q qs ws "mQueueShareFactor c" "assignQ E"] assms(3) by simp
  then show ?thesis
    using that by (cases "assign_all (assignQ E) (mQueueShareFactor c) qs q 0 0 ws") simp_all
qed

lemma bind_result_Inr_right: "bind_result r (\<lambda>x. Inr x) = r"
  by (cases r) simp_all

text \<open>The constructor up to the assignment of the queues.\<close>

lemma new_pool_built:
  fixes E :: "('w, 'q) pool_env" and c :: pool_config and p0 :: "('w, 'q) pool"
  defines "n \<equiv> core_number E * mWorkersPerCore c"
  assumes "acceptable E c" and "fell_off E = Inr True" and "fresh_memory p0"
  obtains p1 qs ws where
    "new_pool E c p0 =
       bind_result (assign_all (assignQ E) (mQueueShareFactor c) qs (queues_for c n) 0 0 ws) (\<lambda>ws1.
       bind_result (start_workers (startWorker E) n 0 ws1) (\<lambda>ws2.
         createTimer (timer_rc E) (p1\<lparr>mJobQueueArr := qs, mJobWorkerArr := ws2\<rparr>)))"
    "slice_done (\<lambda>j _. Some (createJobQueue E j (mJobQueueType c))) 0 (queues_for c n) (replicate MAX_WORKER_COUNT None) qs"
    "slice_done (\<lambda>j _. Some (made_worker E c j)) 0 n (replicate MAX_WORKER_COUNT None) ws"
    "pool_ok (core_number E) p1" "mJobWorkerCount p1 = n" "mJobQueueCount p1 = queues_for c n"
    "mWorkersPerCore (mConfig p1) = mWorkersPerCore c"
proof -
  let ?q = "queues_for c n"
  define p1 where "p1 = (initializeStatistics (p0\<lparr>mConfig := c\<rparr>))\<lparr>mJobWorkerCount := n, mConfig := adjusted E c, mJobQueueCount := ?q\<rparr>"
  have n: "0 < n" "n \<le> 128" using assms(2) by (auto simp: acceptable_def n_def MAX_WORKER_COUNT_def)
  have check: "checkAndAdjustConfig (priority_min E) (priority_max E) (core_number E) (user_id E)
      (initializeStatistics (p0\<lparr>mConfig := c\<rparr>)) = Inr (Accepted, p1)"
    unfolding p1_def n_def by (rule check_accepts [OF assms(2)]) (simp add: initializeStatistics_def Let_def)
  have p1: "mConfig p1 = adjusted E c" "mJobWorkerCount p1 = n" "mJobQueueCount p1 = ?q"
    "mJobWorkerArr p1 = replicate MAX_WORKER_COUNT None" "mJobQueueArr p1 = replicate MAX_WORKER_COUNT None"
    using assms(4) by (simp_all add: p1_def initializeStatistics_def Let_def fresh_memory_def)
  have "pool_ok (core_number E) (initializeStatistics (p0\<lparr>mConfig := adjusted E c, mJobWorkerCount := n\<rparr>))"
    by (rule initializeStatistics_ok) (use n in \<open>simp_all add: n_def\<close>)
  then have ok: "pool_ok (core_number E) p1"
    by (auto simp: pool_ok_def p1_def initializeStatistics_def Let_def)
  obtain qs ws where
    built: "createJobQueues (createJobQueue E) p1 = Inr (p1\<lparr>mJobQueueArr := qs\<rparr>)"
    "createJobWorkers (createJobWorker E) (core_number E) (p1\<lparr>mJobQueueArr := qs\<rparr>) =
       Inr (p1\<lparr>mJobQueueArr := qs, mJobWorkerArr := ws\<rparr>)"
    and slices: "slice_done (\<lambda>j _. Some (createJobQueue E j (mJobQueueType c))) 0 ?q (replicate MAX_WORKER_COUNT None) qs"
    "slice_done (\<lambda>j _. Some (made_worker E c j)) 0 n (replicate MAX_WORKER_COUNT None) ws"
    by (rule pool_built [OF assms(2), of p1 "createJobQueue E" "createJobWorker E"]) (simp_all add: p1 n_def)
  show ?thesis
  proof (rule that)
    show "new_pool E c p0 =
       bind_result (assign_all (assignQ E) (mQueueShareFactor c) qs ?q 0 0 ws) (\<lambda>ws1.
       bind_result (start_workers (startWorker E) n 0 ws1) (\<lambda>ws2.
         createTimer (timer_rc E) (p1\<lparr>mJobQueueArr := qs, mJobWorkerArr := ws2\<rparr>)))"
      using check built assms(3)
      by (simp add: new_pool_def configAndStartWorkers_def assignQueuesToWorkers_def p1 bind_result_assoc
          bind_result_Inr_right)
  qed (use slices ok p1 in simp_all)
qed

text \<open>Where the missing \<^verbatim>\<open>return\<close> is taken as the standard has it, no pool whose configuration is accepted can be made.\<close>

lemma accepted_pool_undefined:
  assumes "acceptable E c" and "fell_off E = Inl Missing_return" and "fresh_memory p0"
  shows "new_pool E c p0 = Inl Missing_return"
  using check_accepts [OF assms(1), of "initializeStatistics (p0\<lparr>mConfig := c\<rparr>)"] assms(2)
  by (simp add: new_pool_def configAndStartWorkers_def initializeStatistics_def Let_def)

lemma new_pool_starts:
  fixes E :: "('w, 'q) pool_env" and c :: pool_config
  defines "n \<equiv> core_number E * mWorkersPerCore c"
  assumes "acceptable E c" and "fell_off E = Inr True" and "timer_rc E = 0" and "fresh_memory p0"
    and "queues_for c n * mQueueShareFactor c = n"
  obtains p where "new_pool E c p0 = Inr p" "pool_ready (core_number E) p" "mTimerThread p" "mTimerRun p"
    "mJobWorkerCount p = n" "mJobQueueCount p = queues_for c n" "length (mJobQueueArr p) = MAX_WORKER_COUNT"
    "filled (mJobQueueArr p) 0 (queues_for c n)" "\<And>i. i < n \<Longrightarrow> mJobWorkerArr p ! i = Some (pool_worker E c i)"
    "mWorkersPerCore (mConfig p) = mWorkersPerCore c"
proof -
  have n: "n \<le> 128" using assms(2) by (simp add: acceptable_def n_def MAX_WORKER_COUNT_def)
  note q = queues_for_le [OF assms(2), of n]
  obtain p1 qs ws where
    new: "new_pool E c p0 =
       bind_result (assign_all (assignQ E) (mQueueShareFactor c) qs (queues_for c n) 0 0 ws) (\<lambda>ws1.
       bind_result (start_workers (startWorker E) n 0 ws1) (\<lambda>ws2.
         createTimer (timer_rc E) (p1\<lparr>mJobQueueArr := qs, mJobWorkerArr := ws2\<rparr>)))"
    and slices: "slice_done (\<lambda>j _. Some (createJobQueue E j (mJobQueueType c))) 0 (queues_for c n) (replicate MAX_WORKER_COUNT None) qs"
    "slice_done (\<lambda>j _. Some (made_worker E c j)) 0 n (replicate MAX_WORKER_COUNT None) ws"
    and p1: "pool_ok (core_number E) p1" "mJobWorkerCount p1 = n" "mJobQueueCount p1 = queues_for c n"
    "mWorkersPerCore (mConfig p1) = mWorkersPerCore c"
    by (rule new_pool_built [OF assms(2,3,5)]) (simp only: n_def)
  obtain ws1 ws2 where
    served: "assign_all (assignQ E) (mQueueShareFactor c) qs (queues_for c n) 0 0 ws = Inr ws1"
    "start_workers (startWorker E) n 0 ws1 = Inr ws2" "length ws2 = MAX_WORKER_COUNT"
    "\<And>i. i < n \<Longrightarrow> ws2 ! i = Some (pool_worker E c i)"
    by (rule workers_served [OF slices assms(6) q n]) simp
  have qs: "length qs = MAX_WORKER_COUNT" "filled qs 0 (queues_for c n)"
    using slice_length [OF slices(1)] slice_from_0 [OF slices(1)] n q
    by (simp_all add: filled_def MAX_WORKER_COUNT_def)
  show ?thesis
  proof (rule that)
    let ?p = "p1\<lparr>mJobQueueArr := qs, mJobWorkerArr := ws2, mTimerRun := True, mTimerThread := True\<rparr>"
    show "new_pool E c p0 = Inr ?p" using new served(1,2) assms(4) by (simp add: createTimer_def)
    show "pool_ready (core_number E) ?p"
      using p1 served(3,4) n by (auto simp: pool_ready_def pool_ok_def filled_def MAX_WORKER_COUNT_def)
  qed (use p1 qs served(3,4) in simp_all)
qed

lemma delete_all_ok:
  "filled arr i (i + k) \<Longrightarrow>
   \<exists>arr'. delete_all k i arr = Inr arr' \<and> (\<forall>j \<in> {i..<i + k}. arr' ! j = None) \<and> (\<forall>j < i. arr' ! j = arr ! j)"
proof (induction k arbitrary: i arr)
  case (Suc k)
  have "filled (arr[i := None]) (Suc i) (Suc i + k)"
    using Suc.prems by (intro filled_after) (simp add: filled_def)
  from Suc.IH [OF this] obtain arr' where arr': "delete_all k (Suc i) (arr[i := None]) = Inr arr'"
    "\<forall>j \<in> {Suc i..<Suc i + k}. arr' ! j = None" "\<forall>j < Suc i. arr' ! j = arr[i := None] ! j" by blast
  have "i < length arr \<and> arr ! i \<noteq> None" using Suc.prems by (simp add: filled_def)
  then obtain x where x: "i < length arr" "arr ! i = Some x" by blast
  have "arr' ! j = None" if "j \<in> {i..<i + Suc k}" for j
    using arr'(2,3) x(1) that by (cases "j = i") simp_all
  with arr' x show ?case by (intro exI [of _ arr']) (simp add: array_get_def)
qed simp

text \<open>A pool whose workers, queues and timer are all there can be released.\<close>

lemma stopWorkers_ok:
  assumes "filled (mJobWorkerArr p) 0 (mJobWorkerCount p)" and "filled (mJobQueueArr p) 0 (mJobQueueCount p)"
    and "mTimerThread p"
  shows "\<exists>p'. stopWorkers p = Inr p' \<and> (\<forall>i < mJobWorkerCount p. mJobWorkerArr p' ! i = None) \<and>
    (\<forall>i < mJobQueueCount p. mJobQueueArr p' ! i = None)"
  using delete_all_ok [of "mJobWorkerArr p" 0 "mJobWorkerCount p"] delete_all_ok [of "mJobQueueArr p" 0 "mJobQueueCount p"] assms
  by (auto simp: stopWorkers_def)

lemma succeedsD: "succeeds r \<Longrightarrow> \<exists>x. r = Inr x"
  by (cases r) simp_all

text \<open>The share factor matches the number of workers.\<close>

definition shares_fit :: "pool_config \<Rightarrow> nat \<Rightarrow> bool" where
  "shares_fit c n \<longleftrightarrow>
     (if mJobQueueType c = JOBQUEUE_TYPE_SHARED then mQueueShareFactor c dvd n else mQueueShareFactor c = 1)"

lemma shares_fit_exact:
  assumes "acceptable E c" and "shares_fit c n"
  shows "queues_for c n * mQueueShareFactor c = n"
proof (cases "mJobQueueType c = JOBQUEUE_TYPE_SHARED")
  case True
  let ?f = "mQueueShareFactor c"
  from True assms have f: "0 < ?f" "?f dvd n" by (simp_all add: acceptable_def shares_fit_def)
  then obtain k where k: "n = k * ?f" by (metis dvd_div_mult_self)
  have "(k * ?f + ?f - 1) div ?f = k"
    by (rule div_nat_eqI) (use f(1) in \<open>simp_all add: mult.commute\<close>)
  then show ?thesis using True k by (simp add: queues_for_def)
qed (use assms in \<open>simp add: queues_for_def shares_fit_def\<close>)

lemma shares_misfit_short:
  assumes "acceptable E c" and "\<not> shares_fit c n" and "0 < mQueueShareFactor c" and "0 < n"
  shows "queues_for c n * mQueueShareFactor c > n"
proof (cases "mJobQueueType c = JOBQUEUE_TYPE_SHARED")
  case True
  let ?f = "mQueueShareFactor c" and ?k = "(n + mQueueShareFactor c - 1) div mQueueShareFactor c"
  have "n + ?f - 1 = ?k * ?f + (n + ?f - 1) mod ?f" by simp
  moreover have "(n + ?f - 1) mod ?f < ?f" using assms(3) by simp
  ultimately have "n \<le> ?k * ?f" using assms(3) by linarith
  moreover have "?k * ?f \<noteq> n"
  proof
    assume "?k * ?f = n"
    then have "?f dvd n" by (metis dvd_triv_right)
    with True assms(2) show False by (simp add: shares_fit_def)
  qed
  ultimately show ?thesis using True by (simp add: queues_for_def)
next
  case False
  with assms have "2 \<le> mQueueShareFactor c" by (simp add: shares_fit_def)
  then have "n * 2 \<le> n * mQueueShareFactor c" by (rule mult_le_mono2)
  with False assms(4) show ?thesis by (simp add: queues_for_def)
qed

text \<open>A small configuration and memory, on which the theorems below are tried.\<close>

definition sample_env :: "(nat \<times> nat \<times> nat option \<times> nat, nat) pool_env" where
  "sample_env =
     \<lparr>priority_min = (\<lambda>_. 0), priority_max = (\<lambda>_. 0), core_number = 2, user_id = 1000, timer_rc = 0, fell_off = Inr True,
      createJobQueue = (\<lambda>i _. i), createJobWorker = (\<lambda>i cfg. (i, mWhichCore cfg, None, 0)),
      assignQ = (\<lambda>q w. (fst w, fst (snd w), q, 0)), startWorker = (\<lambda>w. w)\<rparr>"

definition sample_config :: "queue_type \<Rightarrow> nat \<Rightarrow> pool_config" where
  "sample_config qt f = new_pool_config f 2 SCHED_OTHER 0 JOBWORKER_TYPE_INDEPENDENT qt 20 f"

definition sample_memory :: "('w, 'q) pool" where
  "sample_memory =
     \<lparr>mConfig = sample_config JOBQUEUE_TYPE_EXCLUSIVE 1, mJobWorkerArr = replicate 128 None, mJobWorkerCount = 0,
      mJobQueueArr = replicate 128 None, mJobQueueCount = 0, mWorkerProcessedCountArr = replicate 128 0,
      mNextGlobalJobWorker = 0, mNextJobWorkerOnEachCoreArr = replicate 128 0, mJobWorkerWithLeastJob = 0,
      mJobWorkerWithLeastJobOnEachCoreArr = replicate 128 0, mTimerThread = False, mTimerRun = False\<rparr>"

lemma sample_facts:
  "fresh_memory sample_memory" "fell_off sample_env = Inr True" "timer_rc sample_env = 0" "core_number sample_env = 2"
  "acceptable sample_env (sample_config JOBQUEUE_TYPE_SHARED 2)"
  "acceptable sample_env (sample_config JOBQUEUE_TYPE_SHARED 3)"
  "mWorkersPerCore (sample_config qt f) = 2" "mQueueShareFactor (sample_config qt f) = f"
  "mJobQueueType (sample_config qt f) = qt"
  by (simp_all add: fresh_memory_def sample_memory_def sample_env_def sample_config_def acceptable_def
      new_pool_config_def setStatisticsUpdatingTimeInMs_def Let_def MAX_WORKER_COUNT_def)

text \<open>
  construction of a pool. When the configuration is accepted and the number of workers that
  share a queue divides the number of workers (is one, for exclusive queues), the constructor
  ends with every worker made for its core, holding the queue of its group and started, the
  counters in range and the timer running; and the destructor can release all of it.
\<close>

lemma pool_starts:
  assumes "acceptable E c" and "shares_fit c (core_number E * mWorkersPerCore c)"
    and "fell_off E = Inr True" and "timer_rc E = 0" and "fresh_memory p0"
  shows "\<exists>p. new_pool E c p0 = Inr p \<and> pool_ready (core_number E) p \<and> mTimerRun p \<and>
    take (core_number E * mWorkersPerCore c) (mJobWorkerArr p)
      = map (\<lambda>i. Some (pool_worker E c i)) [0..<core_number E * mWorkersPerCore c] \<and>
    succeeds (stopWorkers p)"
proof -
  let ?n = "core_number E * mWorkersPerCore c"
  have n: "?n \<le> 128" using assms(1) by (simp add: acceptable_def MAX_WORKER_COUNT_def)
  obtain p where p: "new_pool E c p0 = Inr p" "pool_ready (core_number E) p" "mTimerThread p" "mTimerRun p"
    "mJobWorkerCount p = ?n" "mJobQueueCount p = queues_for c ?n" "length (mJobQueueArr p) = MAX_WORKER_COUNT"
    "filled (mJobQueueArr p) 0 (queues_for c ?n)" "\<And>i. i < ?n \<Longrightarrow> mJobWorkerArr p ! i = Some (pool_worker E c i)"
    using new_pool_starts [OF assms(1,3,4,5) shares_fit_exact [OF assms(1,2)]] by blast
  have "filled (mJobWorkerArr p) 0 (mJobWorkerCount p)" "filled (mJobQueueArr p) 0 (mJobQueueCount p)"
    using p(2,6,8) by (simp_all add: pool_ready_def)
  from stopWorkers_ok [OF this p(3)] have "succeeds (stopWorkers p)" by auto
  moreover have "take ?n (mJobWorkerArr p) = map (\<lambda>i. Some (pool_worker E c i)) [0..<?n]"
    using p(2,9) n by (intro nth_equalityI) (simp_all add: pool_ready_def MAX_WORKER_COUNT_def)
  ultimately show ?thesis using p(1,2,4) by blast
qed

theorem pool_starts_witness:
  "\<exists>p. new_pool sample_env (sample_config JOBQUEUE_TYPE_SHARED 2) sample_memory = Inr p \<and> pool_ready 2 p \<and> mTimerRun p \<and>
    take 4 (mJobWorkerArr p) = map (\<lambda>i. Some (pool_worker sample_env (sample_config JOBQUEUE_TYPE_SHARED 2) i)) [0..<4] \<and>
    succeeds (stopWorkers p)"
  using pool_starts [of sample_env "sample_config JOBQUEUE_TYPE_SHARED 2" sample_memory]
  by (simp add: sample_facts shares_fit_def)

text \<open>
  a share factor that does not match faults. The constructor is undefined whenever a
  positive number of workers per queue does not divide the number of workers (for shared
  queues) or is not one (for exclusive queues): queues are handed to workers that were never made.
\<close>

lemma pool_start_faults:
  assumes "acceptable E c" and "\<not> shares_fit c (core_number E * mWorkersPerCore c)" and "0 < mQueueShareFactor c"
    and "fell_off E = Inr True" and "fresh_memory p0"
  shows "\<not> succeeds (new_pool E c p0)"
proof -
  let ?n = "core_number E * mWorkersPerCore c"
  have n: "0 < ?n" "?n \<le> 128" using assms(1) by (auto simp: acceptable_def MAX_WORKER_COUNT_def)
  obtain p1 qs ws where new: "new_pool E c p0 =
       bind_result (assign_all (assignQ E) (mQueueShareFactor c) qs (queues_for c ?n) 0 0 ws) (\<lambda>ws1.
       bind_result (start_workers (startWorker E) ?n 0 ws1) (\<lambda>ws2.
         createTimer (timer_rc E) (p1\<lparr>mJobQueueArr := qs, mJobWorkerArr := ws2\<rparr>)))"
    and qs: "slice_done (\<lambda>j _. Some (createJobQueue E j (mJobQueueType c))) 0 (queues_for c ?n) (replicate MAX_WORKER_COUNT None) qs"
    and ws: "slice_done (\<lambda>j _. Some (made_worker E c j)) 0 ?n (replicate MAX_WORKER_COUNT None) ws"
    by (rule new_pool_built [OF assms(1,4,5)]) simp
  have "queues_for c ?n \<le> length qs"
    using queues_for_le [OF assms(1), of ?n] n slice_length [OF qs] by (simp add: MAX_WORKER_COUNT_def)
  from workers_missing [OF ws shares_misfit_short [OF assms(1-3) n(1)] this] obtain e where
    "assign_all (assignQ E) (mQueueShareFactor c) qs (queues_for c ?n) 0 0 ws = Inl e" by blast
  with new show ?thesis by simp
qed

theorem pool_start_faults_witness:
  "\<not> succeeds (new_pool sample_env (sample_config JOBQUEUE_TYPE_SHARED 3) sample_memory)"
  by (rule pool_start_faults) (simp_all add: sample_facts shares_fit_def)

section \<open>Jobs\<close>

text \<open>The workers that a policy may choose for a caller on \<open>core\<close>.\<close>

definition eligible :: "assign_policy \<Rightarrow> nat \<Rightarrow> ('w, 'q) pool \<Rightarrow> nat set" where
  "eligible pol core p =
     (let wpc = mWorkersPerCore (mConfig p) in
      if pol \<in> {JOB_ASSIGN_SAME_CORE_ROUND_ROBIN, JOB_ASSIGN_SAME_CORE_LEAST_JOBS, JOB_ASSIGN_SAME_CORE_RANDOM}
      then {core * wpc..<core * wpc + wpc} else {0..<mJobWorkerCount p})"

lemma eligible_bound:
  assumes "pool_ok cores p" and "core < cores" and "i \<in> eligible pol core p"
  shows "i < mJobWorkerCount p"
  using assms(3) pool_okD(1) [OF assms(1,2)] by (auto simp: eligible_def Let_def split: if_splits)

lemma choose_worker_eligible:
  assumes "pool_ok cores p" and "core < cores" and "pol \<noteq> JOB_ASSIGN_MAX"
  shows "\<exists>i p1. choose_worker pol core draw p = Inr (i, p1) \<and> i \<in> eligible pol core p \<and> pool_ok cores p1 \<and>
    mJobWorkerArr p1 = mJobWorkerArr p \<and> mJobWorkerCount p1 = mJobWorkerCount p"
proof -
  let ?wpc = "mWorkersPerCore (mConfig p)"
  note D = pool_okD [OF assms(1,2)]
  note S = pool_ok_small [OF assms(1)]
  show ?thesis
  proof (cases pol)
    case JOB_ASSIGN_SAME_CORE_ROUND_ROBIN
    let ?w = "mNextJobWorkerOnEachCoreArr p ! core"
    let ?next = "if Suc ?w = core * ?wpc + ?wpc then core * ?wpc else Suc ?w"
    have "core_entry_ok ?wpc core ?next" using D(3,4) by (simp add: core_entry_ok_def)
    then have "pool_ok cores (p\<lparr>mNextJobWorkerOnEachCoreArr := (mNextJobWorkerOnEachCoreArr p)[core := ?next]\<rparr>)"
      by (rule pool_ok_set_next [OF assms(1)])
    moreover have "?w \<in> eligible pol core p" using D(4) JOB_ASSIGN_SAME_CORE_ROUND_ROBIN
      by (simp add: eligible_def core_entry_ok_def Let_def)
    ultimately show ?thesis
      using core_pick [OF assms(1,2), of draw] JOB_ASSIGN_SAME_CORE_ROUND_ROBIN by (simp add: Let_def)
  next
    case JOB_ASSIGN_SAME_CORE_LEAST_JOBS
    have "array_get (mJobWorkerWithLeastJobOnEachCoreArr p) (int core) = Inr (mJobWorkerWithLeastJobOnEachCoreArr p ! core)"
      using assms(1) D(2) by (simp add: array_get_def pool_ok_def)
    with D(5) assms(1) JOB_ASSIGN_SAME_CORE_LEAST_JOBS show ?thesis
      by (simp add: choose_worker_def eligible_def core_entry_ok_def Let_def)
  next
    case JOB_ASSIGN_ROUND_ROBIN
    have "pool_ok cores (p\<lparr>mNextGlobalJobWorker := (if Suc (mNextGlobalJobWorker p) = mJobWorkerCount p then 0
      else Suc (mNextGlobalJobWorker p))\<rparr>)"
      using assms(1) by (auto simp: pool_ok_def)
    with S(2) JOB_ASSIGN_ROUND_ROBIN global_pick [OF assms(1), of core draw] show ?thesis
      by (simp add: eligible_def)
  next
    case JOB_ASSIGN_LEAST_JOBS
    have "mJobWorkerWithLeastJob p < mJobWorkerCount p" using assms(1) unfolding pool_ok_def by blast
    with JOB_ASSIGN_LEAST_JOBS assms(1) show ?thesis by (simp add: choose_worker_def eligible_def)
  next
    case JOB_ASSIGN_SAME_CORE_RANDOM
    have "draw mod ?wpc < ?wpc" using D(3) by simp
    moreover from this have "core * ?wpc + draw mod ?wpc < 4294967296" using D(1) S(1) by linarith
    ultimately show ?thesis using D(3) assms(1) JOB_ASSIGN_SAME_CORE_RANDOM
      by (simp add: choose_worker_def eligible_def Let_def)
  next
    case JOB_ASSIGN_RANDOM
    with assms(1) S(2) show ?thesis by (simp add: choose_worker_def eligible_def)
  qed (use assms(3) in simp)
qed

text \<open>
  a job always reaches a worker. In a pool that was started, every policy hands the job to
  exactly one existing worker, for the same-core policies one of the caller's core; the result
  is that worker's answer, no other worker changes, and the pool stays in range.
\<close>

lemma addJob_reaches_worker:
  assumes "pool_ready cores p" and "core < cores" and "pol \<noteq> JOB_ASSIGN_MAX"
  shows "\<exists>i w p'. i \<in> eligible pol core p \<and> mJobWorkerArr p ! i = Some w \<and>
    addJob add pol core draw p = Inr (fst (add w), p') \<and>
    mJobWorkerArr p' = (mJobWorkerArr p)[i := Some (snd (add w))] \<and> pool_ready cores p'"
proof -
  have ok: "pool_ok cores p" and len: "length (mJobWorkerArr p) = MAX_WORKER_COUNT"
    and full: "filled (mJobWorkerArr p) 0 (mJobWorkerCount p)"
    using assms(1) by (simp_all add: pool_ready_def)
  obtain i p1 where i: "choose_worker pol core draw p = Inr (i, p1)" "i \<in> eligible pol core p" "pool_ok cores p1"
    "mJobWorkerArr p1 = mJobWorkerArr p" "mJobWorkerCount p1 = mJobWorkerCount p"
    using choose_worker_eligible [OF ok assms(2,3)] by blast
  from full eligible_bound [OF ok assms(2) i(2)] obtain w where w: "i < length (mJobWorkerArr p)" "mJobWorkerArr p ! i = Some w"
    by (force simp: filled_def)
  let ?p' = "p1\<lparr>mJobWorkerArr := (mJobWorkerArr p)[i := Some (snd (add w))]\<rparr>"
  have "addJob add pol core draw p = Inr (fst (add w), ?p')"
    using i(1,4) w by (simp add: addJob_def array_get_def case_prod_unfold Let_def)
  moreover have "filled ((mJobWorkerArr p)[i := Some (snd (add w))]) 0 (mJobWorkerCount p)"
    using full by (rule filled_update)
  then have "pool_ready cores ?p'"
    using i(3,5) len by (auto simp: pool_ready_def pool_ok_def)
  ultimately show ?thesis using i(2) w(2) by fastforce
qed

definition sample_pool :: "(nat, nat) pool" where
  "sample_pool =
     (initializeStatistics (sample_memory\<lparr>mConfig := sample_config JOBQUEUE_TYPE_EXCLUSIVE 1, mJobWorkerCount := 4\<rparr>))
       \<lparr>mJobWorkerArr := map Some [5, 3, 1, 2] @ replicate 124 None\<rparr>"

lemma sample_pool_simps [simp]:
  "mJobWorkerCount sample_pool = 4" "mWorkersPerCore (mConfig sample_pool) = 2"
  "mJobWorkerArr sample_pool = map Some [5, 3, 1, 2] @ replicate 124 None"
  by (simp_all add: sample_pool_def initializeStatistics_def Let_def sample_facts)

lemma sample_pool_ok: "pool_ok 2 sample_pool"
proof -
  have "pool_ok 2 (initializeStatistics (sample_memory\<lparr>mConfig := sample_config JOBQUEUE_TYPE_EXCLUSIVE 1, mJobWorkerCount := 4\<rparr>))"
    by (rule initializeStatistics_ok) (simp_all add: sample_facts)
  then show ?thesis by (auto simp: sample_pool_def pool_ok_def)
qed

lemma below_4: "i < (4::nat) \<longleftrightarrow> i = 0 \<or> i = 1 \<or> i = 2 \<or> i = 3"
  by auto

lemma sample_pool_ready: "pool_ready 2 sample_pool"
  using sample_pool_ok by (auto simp: pool_ready_def MAX_WORKER_COUNT_def filled_def below_4)

theorem addJob_reaches_worker_witness:
  "\<exists>i w p'. i \<in> eligible JOB_ASSIGN_SAME_CORE_RANDOM 1 sample_pool \<and> mJobWorkerArr sample_pool ! i = Some w \<and>
    addJob (\<lambda>w. (w < 10, Suc w)) JOB_ASSIGN_SAME_CORE_RANDOM 1 7 sample_pool = Inr (w < 10, p') \<and>
    mJobWorkerArr p' = (mJobWorkerArr sample_pool)[i := Some (Suc w)] \<and> pool_ready 2 p'"
  using addJob_reaches_worker [OF sample_pool_ready, of 1 JOB_ASSIGN_SAME_CORE_RANDOM "\<lambda>w. (w < 10, Suc w)" 7]
  by simp

text \<open>
  round robin is fair. As many jobs as there are workers, given with the round robin policy
  from any state of the pool, go to all workers, one to each; with the same-core policy as many
  jobs as a core has workers go to all workers of the caller's core, one to each.
\<close>

lemma round_robin_fair:
  assumes "pool_ok cores p" and "core < cores"
  shows "(\<exists>ws p'. picks (choose_worker JOB_ASSIGN_ROUND_ROBIN core draw) (mJobWorkerCount p) p = Inr (ws, p') \<and>
      distinct ws \<and> set ws = {0..<mJobWorkerCount p}) \<and>
    (\<exists>ws p'. picks (choose_worker JOB_ASSIGN_SAME_CORE_ROUND_ROBIN core draw) (mWorkersPerCore (mConfig p)) p = Inr (ws, p') \<and>
      distinct ws \<and> set ws = eligible JOB_ASSIGN_SAME_CORE_ROUND_ROBIN core p)"
  using global_cursor.round_covers [of cores p "mJobWorkerCount p" core draw]
    core_cursor.round_covers [of cores p core "mWorkersPerCore (mConfig p)" draw] assms
  by (fastforce simp: eligible_def Let_def)

theorem round_robin_fair_witness:
  "(\<exists>ws p'. picks (choose_worker JOB_ASSIGN_ROUND_ROBIN 1 0) 4 sample_pool = Inr (ws, p') \<and>
      distinct ws \<and> set ws = {0..<4}) \<and>
    (\<exists>ws p'. picks (choose_worker JOB_ASSIGN_SAME_CORE_ROUND_ROBIN 1 0) 2 sample_pool = Inr (ws, p') \<and>
      distinct ws \<and> set ws = eligible JOB_ASSIGN_SAME_CORE_ROUND_ROBIN 1 sample_pool)"
  using round_robin_fair [OF sample_pool_ok, of 1 0] by simp

lemma least_on_cores_ok:
  assumes "0 < wpc"
  shows "core + n \<le> length arr \<Longrightarrow> (\<And>v. v < (core + n) * wpc \<Longrightarrow> count v = Inr (jobs v)) \<Longrightarrow>
    \<exists>arr'. least_on_cores count wpc n core (core * wpc) arr = Inr arr' \<and> length arr' = length arr \<and>
      (\<forall>c < core. arr' ! c = arr ! c) \<and>
      (\<forall>c \<in> {core..<core + n}. least_in jobs (c * wpc) wpc (arr' ! c))"
proof (induction n arbitrary: core arr)
  case (Suc n)
  have "v < (core + Suc n) * wpc" if "v < core * wpc + wpc" for v
  proof -
    have "core * wpc + wpc \<le> (core + Suc n) * wpc" by (simp add: algebra_simps)
    with that show ?thesis by (rule less_le_trans)
  qed
  then have "count v = Inr (jobs v)" if "core * wpc \<le> v" "v < core * wpc + wpc" for v
    using that Suc.prems(2) by simp
  from least_of_correct [OF assms, of "core * wpc" count jobs, OF this] obtain m where
    m: "least_of count (core * wpc) wpc = Inr m" "least_in jobs (core * wpc) wpc m" by blast
  obtain arr' where arr': "least_on_cores count wpc n (Suc core) (Suc core * wpc) (arr[core := m]) = Inr arr'"
    "length arr' = length arr" "\<forall>c < Suc core. arr' ! c = arr[core := m] ! c"
    "\<forall>c \<in> {Suc core..<Suc core + n}. least_in jobs (c * wpc) wpc (arr' ! c)"
    using Suc.IH [of "Suc core" "arr[core := m]"] Suc.prems by auto
  have "arr' ! core = m" using arr'(3) Suc.prems(1) by simp
  then have "least_in jobs (c * wpc) wpc (arr' ! c)" if "c \<in> {core..<core + Suc n}" for c
    using that m(2) arr'(4) by (cases "c = core") auto
  moreover have "least_on_cores count wpc (Suc n) core (core * wpc) arr = Inr arr'"
    using m(1) arr'(1) Suc.prems(1) by (simp add: array_set_nat add.commute)
  ultimately show ?case using arr'(2,3) by auto
qed simp

lemma timer_round_result:
  assumes "pool_ready cores p"
  obtains m arr where "timer_round cores jobs jobs' p =
      Inr (p\<lparr>mJobWorkerWithLeastJob := m, mJobWorkerWithLeastJobOnEachCoreArr := arr\<rparr>)"
    "least_in jobs 0 (mJobWorkerCount p) m" "length arr = MAX_WORKER_COUNT"
    "\<And>core. core < cores \<Longrightarrow> least_in jobs' (core * mWorkersPerCore (mConfig p)) (mWorkersPerCore (mConfig p)) (arr ! core)"
    "pool_ready cores (p\<lparr>mJobWorkerWithLeastJob := m, mJobWorkerWithLeastJobOnEachCoreArr := arr\<rparr>)"
proof -
  let ?n = "mJobWorkerCount p" and ?wpc = "mWorkersPerCore (mConfig p)"
  have ok: "pool_ok cores p" and full: "filled (mJobWorkerArr p) 0 ?n" using assms by (simp_all add: pool_ready_def)
  have n: "?n = cores * ?wpc" "0 < ?n" "length (mJobWorkerWithLeastJobOnEachCoreArr p) = MAX_WORKER_COUNT"
    using ok unfolding pool_ok_def by blast+
  then have cores: "0 < cores" by (cases cores) simp_all
  have wpc: "0 < ?wpc" by (rule pool_okD(3) [OF ok cores])
  have "cores - 1 < MAX_WORKER_COUNT" by (rule pool_okD(2) [OF ok]) (use cores in simp)
  then have len: "0 + cores \<le> length (mJobWorkerWithLeastJobOnEachCoreArr p)" using n(3) cores by linarith
  have read: "getJobCount (mJobWorkerArr p) js v = Inr (js v)" if "v < ?n" for js v
    using full that by (auto simp: getJobCount_def array_get_def filled_def)
  obtain m where m: "least_of (getJobCount (mJobWorkerArr p) jobs) 0 ?n = Inr m" "least_in jobs 0 ?n m"
    using least_of_correct [OF n(2), of 0 "getJobCount (mJobWorkerArr p) jobs" jobs] read by auto
  have "getJobCount (mJobWorkerArr p) jobs' v = Inr (jobs' v)" if "v < (0 + cores) * ?wpc" for v
    using read that n(1) by simp
  from least_on_cores_ok [OF wpc len, of "getJobCount (mJobWorkerArr p) jobs'" jobs', OF this] obtain arr where
    arr: "least_on_cores (getJobCount (mJobWorkerArr p) jobs') ?wpc cores 0 0 (mJobWorkerWithLeastJobOnEachCoreArr p) = Inr arr"
    "length arr = MAX_WORKER_COUNT" "\<forall>c \<in> {0..<cores}. least_in jobs' (c * ?wpc) ?wpc (arr ! c)"
    using n(3) by auto
  have "core_entry_ok ?wpc c (arr ! c)" if "c < cores" for c
    using arr(3) that by (simp add: least_in_def core_entry_ok_def)
  moreover have "m < ?n" using m(2) by (simp add: least_in_def)
  ultimately have "pool_ok cores (p\<lparr>mJobWorkerWithLeastJob := m, mJobWorkerWithLeastJobOnEachCoreArr := arr\<rparr>)"
    using ok arr(2) unfolding pool_ok_def by (simp del: nat_0_less_mult_iff)
  then have "pool_ready cores (p\<lparr>mJobWorkerWithLeastJob := m, mJobWorkerWithLeastJobOnEachCoreArr := arr\<rparr>)"
    using assms by (simp add: pool_ready_def)
  then show ?thesis
    by (rule that [rotated -1]) (use m arr in \<open>auto simp: timer_round_def\<close>)
qed

text \<open>
  the least-jobs policies use the timer's statistics. A turn of the timer on a started pool
  keeps it in range; from then until the next turn the least-jobs policy picks a worker
  with the fewest jobs of all, the same-core one a worker with the fewest jobs of the core,
  among the counts that the timer read.
\<close>

lemma least_jobs_choice:
  assumes "pool_ready cores p" and "core < cores"
  shows "\<exists>p' m m'. timer_round cores jobs jobs' p = Inr p' \<and> pool_ready cores p' \<and>
    choose_worker JOB_ASSIGN_LEAST_JOBS core draw p' = Inr (m, p') \<and> least_in jobs 0 (mJobWorkerCount p) m \<and>
    choose_worker JOB_ASSIGN_SAME_CORE_LEAST_JOBS core draw p' = Inr (m', p') \<and>
    least_in jobs' (core * mWorkersPerCore (mConfig p)) (mWorkersPerCore (mConfig p)) m'"
proof -
  obtain m arr where r: "timer_round cores jobs jobs' p =
      Inr (p\<lparr>mJobWorkerWithLeastJob := m, mJobWorkerWithLeastJobOnEachCoreArr := arr\<rparr>)"
    "least_in jobs 0 (mJobWorkerCount p) m" "length arr = MAX_WORKER_COUNT"
    "\<And>core. core < cores \<Longrightarrow> least_in jobs' (core * mWorkersPerCore (mConfig p)) (mWorkersPerCore (mConfig p)) (arr ! core)"
    "pool_ready cores (p\<lparr>mJobWorkerWithLeastJob := m, mJobWorkerWithLeastJobOnEachCoreArr := arr\<rparr>)"
    using timer_round_result [OF assms(1)] by blast
  let ?p' = "p\<lparr>mJobWorkerWithLeastJob := m, mJobWorkerWithLeastJobOnEachCoreArr := arr\<rparr>"
  have ok: "pool_ok cores p" using assms(1) by (simp add: pool_ready_def)
  note r(5)
  moreover have "choose_worker JOB_ASSIGN_SAME_CORE_LEAST_JOBS core draw ?p' = Inr (arr ! core, ?p')"
    using pool_okD(2) [OF ok assms(2)] r(3) by (simp add: choose_worker_def array_get_def)
  moreover have "choose_worker JOB_ASSIGN_LEAST_JOBS core draw ?p' = Inr (m, ?p')"
    by (simp add: choose_worker_def)
  ultimately show ?thesis using r(1,2) r(4) [OF assms(2)] by blast
qed

theorem least_jobs_choice_witness:
  "\<exists>p' m m'. timer_round 2 (\<lambda>i. [5, 3, 1, 2] ! i) (\<lambda>i. [5, 3, 1, 2] ! i) sample_pool = Inr p' \<and> pool_ready 2 p' \<and>
    choose_worker JOB_ASSIGN_LEAST_JOBS 0 0 p' = Inr (m, p') \<and> least_in (\<lambda>i. [5, 3, 1, 2] ! i) 0 4 m \<and>
    choose_worker JOB_ASSIGN_SAME_CORE_LEAST_JOBS 0 0 p' = Inr (m', p') \<and> least_in (\<lambda>i. [5, 3, 1, 2] ! i) 0 2 m'"
  using least_jobs_choice [OF sample_pool_ready, of 0 "\<lambda>i. [5, 3, 1, 2] ! i" "\<lambda>i. [5, 3, 1, 2] ! i" 0] by simp

section \<open>Further facts\<close>

text \<open>
  A configuration that is refused does not stop the construction, and the destructor of the
  pool then joins a thread that was never created.
\<close>

lemma refused_pool_cannot_be_destroyed:
  assumes "u32 (core_number E * mWorkersPerCore c) > MAX_WORKER_COUNT \<or> mThreadPolicy c \<noteq> SCHED_OTHER \<and> user_id E \<noteq> 0"
    and "fresh_memory p0"
  shows "\<exists>p. new_pool E c p0 = Inr p \<and> stopWorkers p = Inl Bad_thread"
  using assms
  by (auto simp: new_pool_def configAndStartWorkers_def checkAndAdjustConfig_def Let_def stopWorkers_def
      initializeStatistics_def fresh_memory_def)

text \<open>The update time is exact below 4295 milliseconds; 5000 milliseconds become 705032704 nanoseconds.\<close>

lemma statistics_time_exact:
  assumes "time < 4295"
  shows "mUpdatingStatisticsTime (setStatisticsUpdatingTimeInMs time c) =
    Timespec (int (time div 1000)) (int (time mod 1000 * 1000000))"
proof -
  have "u32 (time * 1000000) = time * 1000000" using assms by (intro u32_small) simp
  moreover have "time * 1000000 div 1000000000 = time div 1000" "time * 1000000 mod 1000000000 = time mod 1000 * 1000000"
    using div_mult_mult1 [of 1000000 time 1000] mult_mod_right [of 1000000 time 1000] by (simp_all add: mult.commute)
  ultimately show ?thesis by (simp add: setStatisticsUpdatingTimeInMs_def)
qed

lemma statistics_time_wraps:
  "mUpdatingStatisticsTime (setStatisticsUpdatingTimeInMs 5000 c) = Timespec 0 705032704"
  by (simp add: setStatisticsUpdatingTimeInMs_def u32_def)

text \<open>The constructor of the configuration leaves the share factor unset.\<close>

lemma share_factor_not_stored: "mQueueShareFactor (new_pool_config junk wpc pol prio wt qt len factor) = junk"
  by (simp add: new_pool_config_def setStatisticsUpdatingTimeInMs_def Let_def)

end
