(* ===== verification/Pool_Run.thy ===== *)
theory Pool_Run
  imports Thread_Pool
begin

text \<open>
  The thread pool from its constructor to its destructor: any sequence of jobs given with any
  policies, turns of the timer and work of the workers, in any order. The pool is shown to be
  no more than its workers: what they do under a run is what they do when they are handed the jobs
  directly. Also the methods that read and set the configuration, and the count of all jobs.
\<close>

section \<open>The configuration's methods\<close>

definition new_worker_config :: "policy \<Rightarrow> int \<Rightarrow> worker_type \<Rightarrow> nat \<Rightarrow> worker_config" where
  "new_worker_config pol priority wt whichCore =
     \<lparr>mJobWorkerType = wt, mThreadPolicy = pol, mThreadPriority = priority, mWhichCore = whichCore\<rparr>"

definition setSchedulePolicy :: "policy \<Rightarrow> 'a worker_config_scheme \<Rightarrow> 'a worker_config_scheme" where
  "setSchedulePolicy pol c = c\<lparr>mThreadPolicy := pol\<rparr>"

definition getSchedulePolicy :: "'a worker_config_scheme \<Rightarrow> policy" where
  "getSchedulePolicy c = mThreadPolicy c"

definition setThreadPriority :: "int \<Rightarrow> 'a worker_config_scheme \<Rightarrow> 'a worker_config_scheme" where
  "setThreadPriority priority c = c\<lparr>mThreadPriority := priority\<rparr>"

definition getThreadPriority :: "'a worker_config_scheme \<Rightarrow> int" where
  "getThreadPriority c = mThreadPriority c"

definition setWorkerType :: "worker_type \<Rightarrow> 'a worker_config_scheme \<Rightarrow> 'a worker_config_scheme" where
  "setWorkerType wt c = c\<lparr>mJobWorkerType := wt\<rparr>"

definition getWorkerType :: "'a worker_config_scheme \<Rightarrow> worker_type" where
  "getWorkerType c = mJobWorkerType c"

definition setWorkersPerCore :: "nat \<Rightarrow> pool_config \<Rightarrow> pool_config" where
  "setWorkersPerCore workersPerCore c = c\<lparr>mWorkersPerCore := workersPerCore\<rparr>"

definition getWorkersPerCore :: "pool_config \<Rightarrow> nat" where
  "getWorkersPerCore c = mWorkersPerCore c"

definition setQueueType :: "queue_type \<Rightarrow> pool_config \<Rightarrow> pool_config" where
  "setQueueType qt c = c\<lparr>mJobQueueType := qt\<rparr>"

definition getQueueType :: "pool_config \<Rightarrow> queue_type" where
  "getQueueType c = mJobQueueType c"

definition setQueueLength :: "nat \<Rightarrow> pool_config \<Rightarrow> pool_config" where
  "setQueueLength len c = c\<lparr>mQueueLength := len\<rparr>"

definition getQueueLength :: "pool_config \<Rightarrow> nat" where
  "getQueueLength c = mQueueLength c"

definition setQueueShareFactor :: "nat \<Rightarrow> pool_config \<Rightarrow> pool_config" where
  "setQueueShareFactor factor c = c\<lparr>mQueueShareFactor := factor\<rparr>"

definition getQueueShareFactor :: "pool_config \<Rightarrow> nat" where
  "getQueueShareFactor c = mQueueShareFactor c"

definition getStatisticsUpdatingTimeSpec :: "pool_config \<Rightarrow> timespec" where
  "getStatisticsUpdatingTimeSpec c = mUpdatingStatisticsTime c"

lemmas config_method_defs =
  new_worker_config_def setSchedulePolicy_def getSchedulePolicy_def setThreadPriority_def getThreadPriority_def
  setWorkerType_def getWorkerType_def setWorkersPerCore_def getWorkersPerCore_def setQueueType_def getQueueType_def
  setQueueLength_def getQueueLength_def setQueueShareFactor_def getQueueShareFactor_def getStatisticsUpdatingTimeSpec_def

section \<open>Runs\<close>

text \<open>
  \<open>Add\<close>: a thread on a core calls \<^verbatim>\<open>addJob\<close>, with a draw of \<^verbatim>\<open>rand\<close>. \<open>Timer\<close>: a turn of the timer, with
  what the workers answer in its two scans. \<open>Worker_runs\<close>: a worker's own thread does something.
  The log has the calls that the workers have seen. Besides the worker itself, \<open>add\<close> (its \<^verbatim>\<open>addJob\<close>) and \<open>work\<close>
  may change \<open>g\<close>, what the workers have in common: the queues, which several workers may share.
\<close>

datatype 'j pool_event = Add 'j assign_policy nat nat | Timer "nat \<Rightarrow> nat" "nat \<Rightarrow> nat" | Worker_runs nat

datatype 'j pool_log = Given 'j assign_policy nat nat bool | Ran nat

type_synonym ('j, 'g, 'w) adder = "'j \<Rightarrow> 'g \<Rightarrow> 'w \<Rightarrow> bool \<times> 'w \<times> 'g"

type_synonym ('g, 'w) runner = "'g \<Rightarrow> 'w \<Rightarrow> 'w \<times> 'g"

definition worker_at :: "nat \<Rightarrow> ('w, 'q) pool \<Rightarrow> 'w result" where
  "worker_at i p =
     bind_result (array_get (mJobWorkerArr p) (int i)) (\<lambda>w. case w of None \<Rightarrow> Inl Null_dereference | Some w' \<Rightarrow> Inr w')"

definition pool_step ::
    "('j, 'g, 'w) adder \<Rightarrow> ('g, 'w) runner \<Rightarrow> nat \<Rightarrow> 'j pool_event \<Rightarrow> 'g \<Rightarrow> ('w, 'q) pool \<Rightarrow>
     ('j pool_log list \<times> 'g \<times> ('w, 'q) pool) result" where
  "pool_step add work cores e g p =
     (case e of
        Add job pol core draw \<Rightarrow>
          bind_result (choose_worker pol core draw p) (\<lambda>(i, _).
          bind_result (worker_at i p) (\<lambda>w.
          bind_result (addJob (\<lambda>w. (fst (add job g w), fst (snd (add job g w)))) pol core draw p) (\<lambda>(ok, p').
            Inr ([Given job pol core i ok], snd (snd (add job g w)), p'))))
      | Timer jobs jobs' \<Rightarrow> bind_result (timer_round cores jobs jobs' p) (\<lambda>p'. Inr ([], g, p'))
      | Worker_runs i \<Rightarrow>
          bind_result (worker_at i p) (\<lambda>w.
          bind_result (call_worker (\<lambda>w. fst (work g w)) i (mJobWorkerArr p)) (\<lambda>arr.
            Inr ([Ran i], snd (work g w), p\<lparr>mJobWorkerArr := arr\<rparr>))))"

fun pool_run ::
    "('j, 'g, 'w) adder \<Rightarrow> ('g, 'w) runner \<Rightarrow> nat \<Rightarrow> 'j pool_event list \<Rightarrow> 'g \<Rightarrow> ('w, 'q) pool \<Rightarrow>
     ('j pool_log list \<times> 'g \<times> ('w, 'q) pool) result" where
  "pool_run add work cores [] g p = Inr ([], g, p)"
| "pool_run add work cores (e # es) g p =
     bind_result (pool_step add work cores e g p) (\<lambda>(l, g1, p1).
     bind_result (pool_run add work cores es g1 p1) (\<lambda>(ls, g2, p2). Inr (l @ ls, g2, p2)))"

text \<open>
  The constructor, a run, the destructor: the log, the queues and the workers before they are deleted, and what is left.
\<close>

definition pool_life ::
    "('w, 'q) pool_env \<Rightarrow> ('j, 'g, 'w) adder \<Rightarrow> ('g, 'w) runner \<Rightarrow> pool_config \<Rightarrow> ('w, 'q) pool \<Rightarrow> 'g \<Rightarrow> 'j pool_event list \<Rightarrow>
     ('j pool_log list \<times> 'g \<times> 'w option list \<times> ('w, 'q) pool) result" where
  "pool_life E add work c p0 g0 es =
     bind_result (new_pool E c p0) (\<lambda>p.
     bind_result (pool_run add work (core_number E) es g0 p) (\<lambda>(log, g, p').
     bind_result (stopWorkers p') (\<lambda>p''. Inr (log, g, mJobWorkerArr p', p''))))"

text \<open>Callers are on existing cores, and only existing workers run.\<close>

fun event_ok :: "nat \<Rightarrow> nat \<Rightarrow> 'j pool_event \<Rightarrow> bool" where
  "event_ok cores n (Add job pol core draw) \<longleftrightarrow> core < cores \<and> pol \<noteq> JOB_ASSIGN_MAX"
| "event_ok cores n (Timer jobs jobs') \<longleftrightarrow> True"
| "event_ok cores n (Worker_runs i) \<longleftrightarrow> i < n"

section \<open>The workers alone\<close>

text \<open>
  The specification: workers \<open>ws\<close> that are handed the jobs of a log one by one. \<open>None\<close>: a worker would not have
  answered as the log has it.
\<close>

fun replay ::
    "('j, 'g, 'w) adder \<Rightarrow> ('g, 'w) runner \<Rightarrow> 'j pool_log list \<Rightarrow> 'g \<times> (nat \<Rightarrow> 'w) \<Rightarrow> ('g \<times> (nat \<Rightarrow> 'w)) option" where
  "replay add work [] (g, ws) = Some (g, ws)"
| "replay add work (Given job pol core i ok # l) (g, ws) =
     (if fst (add job g (ws i)) = ok
      then replay add work l (snd (snd (add job g (ws i))), ws(i := fst (snd (add job g (ws i))))) else None)"
| "replay add work (Ran i # l) (g, ws) =
     replay add work l (snd (work g (ws i)), ws(i := fst (work g (ws i))))"

lemma replay_append:
  "replay add work (l @ l') s = (case replay add work l s of None \<Rightarrow> None | Some s' \<Rightarrow> replay add work l' s')"
  by (induction add work l s rule: replay.induct) (simp_all del: fun_upd_apply)

text \<open>The jobs of a log and those of the events.\<close>

fun given_jobs :: "'j pool_log list \<Rightarrow> 'j list" where
  "given_jobs [] = []"
| "given_jobs (Given job pol core i ok # l) = job # given_jobs l"
| "given_jobs (Ran i # l) = given_jobs l"

fun added_jobs :: "'j pool_event list \<Rightarrow> 'j list" where
  "added_jobs [] = []"
| "added_jobs (Add job pol core draw # es) = job # added_jobs es"
| "added_jobs (_ # es) = added_jobs es"

lemma given_jobs_append: "given_jobs (l @ l') = given_jobs l @ given_jobs l'"
  by (induction l rule: given_jobs.induct) simp_all

lemma added_jobs_Cons: "added_jobs (e # es) = added_jobs [e] @ added_jobs es"
  by (cases e) simp_all

text \<open>A job is given to a worker that the policy may choose, for \<open>n\<close> workers, \<open>wpc\<close> of them on each core.\<close>

fun entry_ok :: "nat \<Rightarrow> nat \<Rightarrow> 'j pool_log \<Rightarrow> bool" where
  "entry_ok n wpc (Given job pol core i ok) \<longleftrightarrow>
     i < n \<and> (pol \<in> {JOB_ASSIGN_SAME_CORE_ROUND_ROBIN, JOB_ASSIGN_SAME_CORE_LEAST_JOBS, JOB_ASSIGN_SAME_CORE_RANDOM} \<longrightarrow>
       i div wpc = core)"
| "entry_ok n wpc (Ran i) \<longleftrightarrow> i < n"

section \<open>One step\<close>

text \<open>The next value of a counter that goes round the \<open>n\<close> workers from \<open>lo\<close> on.\<close>

definition advance :: "nat \<Rightarrow> nat \<Rightarrow> nat \<Rightarrow> nat" where
  "advance lo n s = (if Suc s = lo + n then lo else Suc s)"

text \<open>\<open>xs\<close> are the values that the counter takes on its way from \<open>s\<close> to \<open>s'\<close>.\<close>

fun walks :: "nat \<Rightarrow> nat \<Rightarrow> nat \<Rightarrow> nat list \<Rightarrow> nat \<Rightarrow> bool" where
  "walks lo n s [] s' \<longleftrightarrow> s' = s"
| "walks lo n s (x # xs) s' \<longleftrightarrow> x = s \<and> walks lo n (advance lo n s) xs s'"

lemma walks_append: "walks lo n s xs s1 \<Longrightarrow> walks lo n s1 ys s2 \<Longrightarrow> walks lo n s (xs @ ys) s2"
  by (induction xs arbitrary: s) simp_all

lemma advance_mod:
  assumes "s < n"
  shows "advance lo n (lo + s) = lo + Suc s mod n"
  using assms by (auto simp: advance_def mod_Suc)

lemma walks_round:
  "walks lo n (lo + s) xs s' \<Longrightarrow> s < n \<Longrightarrow> xs = map (\<lambda>k. lo + (s + k) mod n) [0..<length xs]"
proof (induction xs arbitrary: s)
  case (Cons x xs)
  from Cons.prems have "walks lo n (lo + Suc s mod n) xs s'" "Suc s mod n < n" by (simp_all add: advance_mod)
  from Cons.IH [OF this] have xs: "xs = map (\<lambda>k. lo + (Suc s mod n + k) mod n) [0..<length xs]" .
  also have "\<dots> = map (\<lambda>k. lo + (s + Suc k) mod n) [0..<length xs]"
    by (simp add: mod_add_left_eq)
  finally have "x # xs = map (\<lambda>k. lo + (s + k) mod n) (0 # map Suc [0..<length xs])"
    using Cons.prems by (simp add: comp_def)
  then show ?case by (simp add: map_Suc_upt upt_conv_Cons del: upt_Suc)
qed simp

fun global_picks :: "'j pool_log list \<Rightarrow> nat list" where
  "global_picks [] = []"
| "global_picks (Given job pol core i ok # l) =
     (if pol = JOB_ASSIGN_ROUND_ROBIN then i # global_picks l else global_picks l)"
| "global_picks (Ran i # l) = global_picks l"

fun core_picks :: "nat \<Rightarrow> 'j pool_log list \<Rightarrow> nat list" where
  "core_picks c [] = []"
| "core_picks c (Given job pol core i ok # l) =
     (if pol = JOB_ASSIGN_SAME_CORE_ROUND_ROBIN \<and> core = c then i # core_picks c l else core_picks c l)"
| "core_picks c (Ran i # l) = core_picks c l"

lemma picks_append:
  "global_picks (l @ l') = global_picks l @ global_picks l'" "core_picks c (l @ l') = core_picks c l @ core_picks c l'"
  by (induction l rule: given_jobs.induct) simp_all

text \<open>The workers of a pool, as a function.\<close>

definition holds :: "('w, 'q) pool \<Rightarrow> (nat \<Rightarrow> 'w) \<Rightarrow> bool" where
  "holds p ws \<longleftrightarrow> (\<forall>i < mJobWorkerCount p. mJobWorkerArr p ! i = Some (ws i))"

text \<open>What a step or a run with the log \<open>l\<close> makes of a pool.\<close>

definition kept :: "('w, 'q) pool \<Rightarrow> ('w, 'q) pool \<Rightarrow> bool" where
  "kept p p' \<longleftrightarrow> mConfig p' = mConfig p \<and> mJobWorkerCount p' = mJobWorkerCount p \<and> mJobQueueArr p' = mJobQueueArr p \<and>
     mJobQueueCount p' = mJobQueueCount p \<and> mTimerThread p' = mTimerThread p"

definition counters_walk :: "nat \<Rightarrow> 'j pool_log list \<Rightarrow> ('w, 'q) pool \<Rightarrow> ('w, 'q) pool \<Rightarrow> bool" where
  "counters_walk cores l p p' \<longleftrightarrow>
     walks 0 (mJobWorkerCount p) (mNextGlobalJobWorker p) (global_picks l) (mNextGlobalJobWorker p') \<and>
     (\<forall>c < cores. walks (c * mWorkersPerCore (mConfig p)) (mWorkersPerCore (mConfig p)) (mNextJobWorkerOnEachCoreArr p ! c)
        (core_picks c l) (mNextJobWorkerOnEachCoreArr p' ! c))"

definition served ::
    "('j, 'g, 'w) adder \<Rightarrow> ('g, 'w) runner \<Rightarrow> nat \<Rightarrow> 'j pool_log list \<Rightarrow> 'g \<Rightarrow> ('w, 'q) pool \<Rightarrow> 'g \<Rightarrow> ('w, 'q) pool \<Rightarrow> bool" where
  "served add work cores l g p g' p' \<longleftrightarrow>
     pool_ready cores p' \<and> kept p p' \<and> counters_walk cores l p p' \<and>
     list_all (entry_ok (mJobWorkerCount p) (mWorkersPerCore (mConfig p))) l \<and>
     (\<forall>ws. holds p ws \<longrightarrow> (\<exists>ws'. replay add work l (g, ws) = Some (g', ws') \<and> holds p' ws'))"

lemma served_refl: "pool_ready cores p \<Longrightarrow> served add work cores [] g p g p"
  by (simp add: served_def kept_def counters_walk_def)

lemma served_trans:
  assumes "served add work cores l g p g1 p1" and "served add work cores l' g1 p1 g2 p2"
  shows "served add work cores (l @ l') g p g2 p2"
proof -
  have "counters_walk cores (l @ l') p p2"
    using assms unfolding served_def counters_walk_def kept_def picks_append by (metis walks_append)
  moreover have "\<exists>ws'. replay add work (l @ l') (g, ws) = Some (g2, ws') \<and> holds p2 ws'" if "holds p ws" for ws
    using assms that unfolding served_def by (fastforce simp: replay_append)
  ultimately show ?thesis
    using assms by (simp add: served_def kept_def)
qed

lemma choose_worker_counters:
  assumes "choose_worker pol core draw p = Inr (i, p1)" and ok: "pool_ok cores p" and core: "core < cores"
  shows "kept p p1 \<and> counters_walk cores [Given job pol core i res] p p1"
proof -
  have len: "core < length (mNextJobWorkerOnEachCoreArr p)"
    using ok pool_okD(2) [OF ok core] by (simp add: pool_ok_def)
  have same: ?thesis if "p1 = p" "pol \<noteq> JOB_ASSIGN_ROUND_ROBIN" "pol \<noteq> JOB_ASSIGN_SAME_CORE_ROUND_ROBIN"
    using that by (simp add: kept_def counters_walk_def)
  show ?thesis
  proof (cases pol)
    case JOB_ASSIGN_SAME_CORE_ROUND_ROBIN
    with assms core_pick [OF ok core, of draw] len show ?thesis
      by (auto simp: kept_def counters_walk_def Let_def advance_def nth_list_update)
  next
    case JOB_ASSIGN_ROUND_ROBIN
    with assms global_pick [OF ok, of core draw] show ?thesis
      by (auto simp: kept_def counters_walk_def advance_def)
  qed (use assms(1) same in \<open>auto simp: choose_worker_def Let_def split: if_splits\<close>)
qed

lemma eligible_entry:
  assumes "pool_ok cores p" and "core < cores" and "i \<in> eligible pol core p"
  shows "entry_ok (mJobWorkerCount p) (mWorkersPerCore (mConfig p)) (Given job pol core i ok)"
proof -
  have "i div mWorkersPerCore (mConfig p) = core" if "core * mWorkersPerCore (mConfig p) \<le> i"
    "i < core * mWorkersPerCore (mConfig p) + mWorkersPerCore (mConfig p)"
    using that by (intro div_nat_eqI) (simp_all add: mult.commute)
  then show ?thesis
    using assms(3) eligible_bound [OF assms] by (auto simp: eligible_def Let_def)
qed

lemma worker_there:
  assumes "pool_ready cores p" and "i < mJobWorkerCount p"
  obtains w where "mJobWorkerArr p ! i = Some w" "i < length (mJobWorkerArr p)" "worker_at i p = Inr w"
  using assms by (force simp: pool_ready_def filled_def worker_at_def array_get_def)

text \<open>Replacing one worker's state keeps a pool ready, and changes the function of its workers there.\<close>

lemma ready_update:
  assumes "pool_ready cores p" and "pool_ok cores p1" and "mJobWorkerCount p1 = mJobWorkerCount p"
  shows "pool_ready cores (p1\<lparr>mJobWorkerArr := (mJobWorkerArr p)[i := Some w]\<rparr>)"
proof -
  have "filled (mJobWorkerArr p) 0 (mJobWorkerCount p)" using assms(1) by (simp add: pool_ready_def)
  then have "filled ((mJobWorkerArr p)[i := Some w]) 0 (mJobWorkerCount p)" by (rule filled_update)
  then show ?thesis using assms by (auto simp: pool_ready_def pool_ok_def)
qed

lemma holds_update:
  assumes "holds p ws" and "mJobWorkerCount p1 = mJobWorkerCount p" and "i < length (mJobWorkerArr p)"
  shows "holds (p1\<lparr>mJobWorkerArr := (mJobWorkerArr p)[i := Some w]\<rparr>) (ws(i := w))"
  using assms by (simp add: holds_def nth_list_update)

lemma add_step:
  assumes ready: "pool_ready cores p" and core: "core < cores" and "pol \<noteq> JOB_ASSIGN_MAX"
  shows "\<exists>l g' p'. pool_step add work cores (Add job pol core draw) g p = Inr (l, g', p') \<and> given_jobs l = [job] \<and>
    served add work cores l g p g' p'"
proof -
  have ok: "pool_ok cores p" using ready by (simp add: pool_ready_def)
  obtain i p1 where i: "choose_worker pol core draw p = Inr (i, p1)" "i \<in> eligible pol core p"
    "mJobWorkerArr p1 = mJobWorkerArr p" "pool_ok cores p1" "mJobWorkerCount p1 = mJobWorkerCount p"
    using choose_worker_eligible [OF ok core assms(3)] by blast
  have bound: "i < mJobWorkerCount p" by (rule eligible_bound [OF ok core i(2)])
  obtain w where w: "mJobWorkerArr p ! i = Some w" "i < length (mJobWorkerArr p)" "worker_at i p = Inr w"
    by (rule worker_there [OF ready bound])
  obtain res w' g' where add: "add job g w = (res, w', g')" by (metis prod_cases3)
  let ?p' = "p1\<lparr>mJobWorkerArr := (mJobWorkerArr p)[i := Some w']\<rparr>" and ?l = "[Given job pol core i res]"
  have "addJob (\<lambda>w. (fst (add job g w), fst (snd (add job g w)))) pol core draw p = Inr (res, ?p')"
    using i(1,3) w add by (simp add: addJob_def array_get_def)
  then have run: "pool_step add work cores (Add job pol core draw) g p = Inr (?l, g', ?p')"
    using i(1) w(3) add by (simp add: pool_step_def)
  have "replay add work ?l (g, ws) = Some (g', ws(i := w')) \<and> holds ?p' (ws(i := w'))" if "holds p ws" for ws
    using that holds_update [OF that i(5) w(2), of w'] bound w(1) add by (simp add: holds_def)
  moreover have "kept p p1 \<and> counters_walk cores ?l p p1" by (rule choose_worker_counters [OF i(1) ok core])
  then have "kept p ?p' \<and> counters_walk cores ?l p ?p'" by (simp add: kept_def counters_walk_def)
  ultimately have "served add work cores ?l g p g' ?p'"
    using ready_update [OF ready i(4,5), of i w'] eligible_entry [OF ok core i(2), of job res]
    unfolding served_def by (simp only: list.pred_inject) blast
  with run show ?thesis by fastforce
qed

lemma timer_step:
  assumes "pool_ready cores p"
  shows "\<exists>p'. pool_step add work cores (Timer jobs jobs') g p = Inr ([], g, p') \<and> served add work cores [] g p g p'"
proof -
  obtain m arr where "timer_round cores jobs jobs' p =
      Inr (p\<lparr>mJobWorkerWithLeastJob := m, mJobWorkerWithLeastJobOnEachCoreArr := arr\<rparr>)"
    "pool_ready cores (p\<lparr>mJobWorkerWithLeastJob := m, mJobWorkerWithLeastJobOnEachCoreArr := arr\<rparr>)"
    using timer_round_result [OF assms] by metis
  then show ?thesis
    by (simp add: pool_step_def served_def kept_def counters_walk_def holds_def)
qed

lemma worker_step:
  assumes ready: "pool_ready cores p" and bound: "i < mJobWorkerCount p"
  shows "\<exists>g' p'. pool_step add work cores (Worker_runs i) g p = Inr ([Ran i], g', p') \<and> served add work cores [Ran i] g p g' p'"
proof -
  obtain w where w: "mJobWorkerArr p ! i = Some w" "i < length (mJobWorkerArr p)" "worker_at i p = Inr w"
    by (rule worker_there [OF assms])
  obtain w' g' where work: "work g w = (w', g')" by fastforce
  let ?p' = "p\<lparr>mJobWorkerArr := (mJobWorkerArr p)[i := Some w']\<rparr>"
  have "pool_step add work cores (Worker_runs i) g p = Inr ([Ran i], g', ?p')"
    using w work by (simp add: pool_step_def call_worker_ok)
  moreover have "replay add work [Ran i] (g, ws) = Some (g', ws(i := w')) \<and> holds ?p' (ws(i := w'))" if "holds p ws" for ws
    using that holds_update [OF that refl w(2), of w'] bound w(1) work by (simp add: holds_def)
  moreover have "pool_ok cores p" using ready by (simp add: pool_ready_def)
  note ready_update [OF ready this refl, of i w']
  ultimately show ?thesis
    using bound by (fastforce simp: served_def kept_def counters_walk_def)
qed

lemma pool_run_served:
  "pool_ready cores p \<Longrightarrow> list_all (event_ok cores (mJobWorkerCount p)) es \<Longrightarrow>
   \<exists>l g' p'. pool_run add work cores es g p = Inr (l, g', p') \<and> given_jobs l = added_jobs es \<and> served add work cores l g p g' p'"
proof (induction es arbitrary: g p)
  case Nil
  then show ?case by (simp add: served_refl)
next
  case (Cons e es)
  have "\<exists>l g1 p1. pool_step add work cores e g p = Inr (l, g1, p1) \<and> given_jobs l = added_jobs [e] \<and>
      served add work cores l g p g1 p1"
    using Cons.prems add_step timer_step worker_step by (cases e) fastforce+
  then obtain l g1 p1 where l: "pool_step add work cores e g p = Inr (l, g1, p1)" "given_jobs l = added_jobs [e]"
    "served add work cores l g p g1 p1" by blast
  moreover from l(3) have "pool_ready cores p1" "mJobWorkerCount p1 = mJobWorkerCount p"
    by (simp_all add: served_def kept_def)
  ultimately obtain l' g2 p2 where "pool_run add work cores es g1 p1 = Inr (l', g2, p2)" "given_jobs l' = added_jobs es"
    "served add work cores l' g1 p1 g2 p2"
    using Cons.IH [of p1 g1] Cons.prems(2) by auto
  with l served_trans show ?case
    by (fastforce simp: given_jobs_append added_jobs_Cons [of e es])
qed

section \<open>The number of jobs\<close>

text \<open>The pool's own \<^verbatim>\<open>getJobCount\<close>: 64-bit sums of what the workers answer.\<close>

fun sum_counts :: "(nat \<Rightarrow> nat result) \<Rightarrow> nat \<Rightarrow> nat \<Rightarrow> nat \<Rightarrow> nat result" where
  "sum_counts count 0 i jobCount = Inr jobCount"
| "sum_counts count (Suc k) i jobCount =
     bind_result (count i) (\<lambda>c. sum_counts count k (Suc i) ((jobCount + c) mod 18446744073709551616))"

definition pool_getJobCount :: "(nat \<Rightarrow> nat) \<Rightarrow> ('w, 'q) pool \<Rightarrow> nat result" where
  "pool_getJobCount jobs p = sum_counts (getJobCount (mJobWorkerArr p) jobs) (mJobWorkerCount p) 0 0"

definition getPoolConfig :: "('w, 'q) pool \<Rightarrow> pool_config" where
  "getPoolConfig p = mConfig p"

lemma sum_counts_ok:
  "(\<And>j. j \<in> {i..<i + k} \<Longrightarrow> count j = Inr (jobs j)) \<Longrightarrow> c < 18446744073709551616 \<Longrightarrow>
   sum_counts count k i c = Inr ((c + (\<Sum>j \<in> {i..<i + k}. jobs j)) mod 18446744073709551616)"
proof (induction k arbitrary: i c)
  case (Suc k)
  have here: "count i = Inr (jobs i)" using Suc.prems(1) by simp
  have "sum_counts count k (Suc i) ((c + jobs i) mod 18446744073709551616)
      = Inr (((c + jobs i) mod 18446744073709551616 + (\<Sum>j \<in> {Suc i..<Suc i + k}. jobs j)) mod 18446744073709551616)"
    by (rule Suc.IH) (use Suc.prems(1) in simp_all)
  moreover have "(\<Sum>j \<in> {i..<i + Suc k}. jobs j) = jobs i + (\<Sum>j \<in> {Suc i..<Suc i + k}. jobs j)"
    using sum.atLeast_Suc_lessThan [of i "i + Suc k" jobs] by simp
  ultimately show ?case
    by (simp only: sum_counts.simps here bind_result_Inr mod_add_left_eq add.assoc)
qed simp

lemma pool_getJobCount_sum:
  assumes "pool_ready cores p"
  shows "pool_getJobCount jobs p = Inr ((\<Sum>j < mJobWorkerCount p. jobs j) mod 18446744073709551616)"
proof -
  have "getJobCount (mJobWorkerArr p) jobs j = Inr (jobs j)" if "j < mJobWorkerCount p" for j
    using assms that by (auto simp: getJobCount_def array_get_def pool_ready_def filled_def)
  then show ?thesis
    using sum_counts_ok [of 0 "mJobWorkerCount p" "getJobCount (mJobWorkerArr p) jobs" jobs 0]
    by (simp add: pool_getJobCount_def lessThan_atLeast0)
qed

section \<open>Properties\<close>

text \<open>
  C7: A pool is its workers. Take a configuration that is accepted and whose share factor fits the number of workers, a timer
  thread that can be made, and an implementation that reads the value \<^verbatim>\<open>checkAndAjustConfig\<close> does not return as true (\<open>fell_off\<close>). Then
  from the constructor on, under any sequence of jobs given with any of the policies from
  any of the cores, turns of the timer and work of the workers, the pool never faults; every
  job is handed to one existing worker, on the caller's core when the policy says so; the callers' answers and the
  workers' states are those of the workers alone when they are handed these jobs; and in the end the destructor
  deletes every worker.
\<close>

theorem pool_refines_workers:
  assumes "acceptable E c" and "shares_fit c (core_number E * mWorkersPerCore c)"
    and "fell_off E = Inr True" and "timer_rc E = 0" and "fresh_memory p0"
    and "list_all (event_ok (core_number E) (core_number E * mWorkersPerCore c)) es"
  shows "\<exists>log g arr p' ws. pool_life E add work c p0 g0 es = Inr (log, g, arr, p') \<and>
    replay add work log (g0, pool_worker E c) = Some (g, ws) \<and> given_jobs log = added_jobs es \<and>
    list_all (entry_ok (core_number E * mWorkersPerCore c) (mWorkersPerCore c)) log \<and>
    (\<forall>i < core_number E * mWorkersPerCore c. arr ! i = Some (ws i) \<and> mJobWorkerArr p' ! i = None)"
proof -
  let ?n = "core_number E * mWorkersPerCore c"
  obtain p where p: "new_pool E c p0 = Inr p" "pool_ready (core_number E) p" "mTimerThread p"
    "mJobWorkerCount p = ?n" "mJobQueueCount p = queues_for c ?n" "filled (mJobQueueArr p) 0 (queues_for c ?n)"
    "\<And>i. i < ?n \<Longrightarrow> mJobWorkerArr p ! i = Some (pool_worker E c i)" "mWorkersPerCore (mConfig p) = mWorkersPerCore c"
    using new_pool_starts [OF assms(1,3,4,5) shares_fit_exact [OF assms(1,2)]] by blast
  then obtain l g p1 where l: "pool_run add work (core_number E) es g0 p = Inr (l, g, p1)" "given_jobs l = added_jobs es"
    "served add work (core_number E) l g0 p g p1"
    using pool_run_served [OF p(2), of es add work g0] assms(6) by auto
  have "holds p (pool_worker E c)" using p(4,7) by (simp add: holds_def)
  with l(3) obtain ws where ws: "replay add work l (g0, pool_worker E c) = Some (g, ws)" "holds p1 ws"
    by (auto simp: served_def)
  have kept: "kept p p1" "pool_ready (core_number E) p1" using l(3) by (simp_all add: served_def)
  then have "\<exists>p'. stopWorkers p1 = Inr p' \<and> (\<forall>i < mJobWorkerCount p1. mJobWorkerArr p' ! i = None) \<and>
      (\<forall>i < mJobQueueCount p1. mJobQueueArr p' ! i = None)"
    using p(3,5,6) by (intro stopWorkers_ok) (simp_all add: kept_def pool_ready_def)
  then obtain p' where p': "stopWorkers p1 = Inr p'" "\<forall>i < ?n. mJobWorkerArr p' ! i = None"
    using kept(1) p(4) by (auto simp: kept_def)
  have "\<forall>i < ?n. mJobWorkerArr p1 ! i = Some (ws i)" using ws(2) kept(1) p(4) by (simp add: holds_def kept_def)
  moreover have "list_all (entry_ok ?n (mWorkersPerCore c)) l" using l(3) p(4,8) by (simp add: served_def)
  moreover have "pool_life E add work c p0 g0 es = Inr (l, g, mJobWorkerArr p1, p')"
    using p(1) l(1) p'(1) by (simp add: pool_life_def)
  ultimately show ?thesis
    using l(2) ws(1) p'(2) by blast
qed

text \<open>
  C25: Round robin stays fair in a busy pool. Whatever else happens in between (jobs given with other policies,
  turns of the timer, work of the workers), the jobs that are given round robin go to
  the workers in turn, and those that are given round robin on a core go in turn to the workers of that core.
\<close>

theorem round_robin_interleaved:
  assumes "pool_ready cores p" and "list_all (event_ok cores (mJobWorkerCount p)) es" and "c < cores"
    and "n = mJobWorkerCount p" and "wpc = mWorkersPerCore (mConfig p)"
    and "mNextJobWorkerOnEachCoreArr p ! c = c * wpc + first"
  shows "\<exists>log g' p'. pool_run add work cores es g p = Inr (log, g', p') \<and>
    global_picks log = map (\<lambda>k. (mNextGlobalJobWorker p + k) mod n) [0..<length (global_picks log)] \<and>
    core_picks c log = map (\<lambda>k. c * wpc + (first + k) mod wpc) [0..<length (core_picks c log)]"
proof -
  obtain l g' p1 where l: "pool_run add work cores es g p = Inr (l, g', p1)" "served add work cores l g p g' p1"
    using pool_run_served [OF assms(1,2), of add work g] by auto
  have ok: "pool_ok cores p" using assms(1) by (simp add: pool_ready_def)
  have "counters_walk cores l p p1" using l(2) by (simp add: served_def)
  then have "walks 0 n (mNextGlobalJobWorker p) (global_picks l) (mNextGlobalJobWorker p1)"
    and "walks (c * wpc) wpc (mNextJobWorkerOnEachCoreArr p ! c) (core_picks c l) (mNextJobWorkerOnEachCoreArr p1 ! c)"
    using assms(3) unfolding counters_walk_def assms(4,5) by blast+
  then have g: "walks 0 n (0 + mNextGlobalJobWorker p) (global_picks l) (mNextGlobalJobWorker p1)"
    and h: "walks (c * wpc) wpc (c * wpc + first) (core_picks c l) (mNextJobWorkerOnEachCoreArr p1 ! c)"
    by (simp_all add: assms(6))
  have "mNextGlobalJobWorker p < n" using ok assms(4) by (simp add: pool_ok_def)
  from walks_round [OF g this] have "global_picks l = map (\<lambda>k. (mNextGlobalJobWorker p + k) mod n) [0..<length (global_picks l)]"
    by simp
  moreover have "first < wpc" using pool_okD(4) [OF ok assms(3)] assms(5,6) by (simp add: core_entry_ok_def)
  note walks_round [OF h this]
  ultimately show ?thesis using l(1) by blast
qed

text \<open>
  A configuration made by the constructor alone has no share factor; one whose factor was then set starts.
\<close>

lemma configured_pool_starts:
  assumes "c = setQueueShareFactor f (new_pool_config junk wpc pol priority wt qt len f')"
    and "0 < core_number E * wpc" and "core_number E * wpc \<le> MAX_WORKER_COUNT" and "pol = SCHED_OTHER \<or> user_id E = 0"
    and "qt = JOBQUEUE_TYPE_EXCLUSIVE \<and> f = 1 \<or> qt = JOBQUEUE_TYPE_SHARED \<and> f dvd core_number E * wpc"
    and "fell_off E = Inr True" and "timer_rc E = 0" and "fresh_memory p0"
  shows "\<exists>p. new_pool E c p0 = Inr p \<and> pool_ready (core_number E) p"
proof -
  have c: "mWorkersPerCore c = wpc" "mThreadPolicy c = pol" "mJobQueueType c = qt" "mQueueShareFactor c = f"
    by (simp_all add: assms(1) setQueueShareFactor_def new_pool_config_def setStatisticsUpdatingTimeInMs_def Let_def)
  have "0 < f \<and> f \<le> 128" using assms(2,3,5) dvd_imp_le [of f "core_number E * wpc"] dvd_pos_nat [of "core_number E * wpc" f]
    by (auto simp: MAX_WORKER_COUNT_def)
  then have "acceptable E c" "shares_fit c (core_number E * mWorkersPerCore c)"
    using assms(2-5) by (auto simp: acceptable_def shares_fit_def c)
  from new_pool_starts [OF this(1) assms(6-8) shares_fit_exact [OF this]] show ?thesis by metis
qed

text \<open>Two jobs round robin and one on a core, with a turn of the timer and some work in between.\<close>

definition sample_events :: "nat pool_event list" where
  "sample_events = [Add 10 JOB_ASSIGN_ROUND_ROBIN 0 0, Timer (\<lambda>_. 0) (\<lambda>_. 0), Add 11 JOB_ASSIGN_SAME_CORE_ROUND_ROBIN 1 0,
     Worker_runs 0, Add 12 JOB_ASSIGN_ROUND_ROBIN 1 0]"

lemma sample_events_ok: "list_all (event_ok 2 4) sample_events"
  by (simp add: sample_events_def)

text \<open>Workers that put their jobs into one common list.\<close>

definition sample_add :: "nat \<Rightarrow> nat list \<Rightarrow> 'w \<Rightarrow> bool \<times> 'w \<times> nat list" where
  "sample_add job g w = (length g < 2, w, if length g < 2 then g @ [job] else g)"

definition sample_work :: "nat list \<Rightarrow> 'w \<Rightarrow> 'w \<times> nat list" where
  "sample_work g w = (w, tl g)"

lemma pool_refines_workers_witness:
  "\<exists>log g arr p' ws. pool_life sample_env sample_add sample_work (sample_config JOBQUEUE_TYPE_SHARED 2) sample_memory [] sample_events
      = Inr (log, g, arr, p') \<and>
    replay sample_add sample_work log ([], pool_worker sample_env (sample_config JOBQUEUE_TYPE_SHARED 2)) = Some (g, ws) \<and>
    given_jobs log = [10, 11, 12]"
proof -
  have "shares_fit (sample_config JOBQUEUE_TYPE_SHARED 2) (core_number sample_env * mWorkersPerCore (sample_config JOBQUEUE_TYPE_SHARED 2))"
    "list_all (event_ok (core_number sample_env) (core_number sample_env * mWorkersPerCore (sample_config JOBQUEUE_TYPE_SHARED 2))) sample_events"
    using sample_events_ok by (simp_all add: sample_facts shares_fit_def)
  from pool_refines_workers [OF sample_facts(5) this(1) sample_facts(2,3,1) this(2), of sample_add sample_work "[]"]
  have "\<exists>log g arr p' ws. pool_life sample_env sample_add sample_work (sample_config JOBQUEUE_TYPE_SHARED 2) sample_memory [] sample_events
      = Inr (log, g, arr, p') \<and>
    replay sample_add sample_work log ([], pool_worker sample_env (sample_config JOBQUEUE_TYPE_SHARED 2)) = Some (g, ws) \<and>
    given_jobs log = added_jobs sample_events" by blast
  then show ?thesis by (simp add: sample_events_def)
qed

lemma round_robin_interleaved_witness:
  "\<exists>log g p'. pool_run sample_add sample_work 2 sample_events [] sample_pool = Inr (log, g, p') \<and>
    core_picks 1 log = map (\<lambda>k. 2 + k mod 2) [0..<length (core_picks 1 log)]"
proof -
  have "mNextJobWorkerOnEachCoreArr sample_pool ! 1 = 1 * 2 + 0"
    by (simp add: sample_pool_def initializeStatistics_def Let_def sample_facts MAX_WORKER_COUNT_def)
  from round_robin_interleaved [OF sample_pool_ready _ _ refl refl, of sample_events 1 0 sample_add sample_work "[]"] this sample_events_ok
  show ?thesis by auto
qed

end
