(* ===== verification/Pool_Locks.thy ===== *)
theory Pool_Locks
  imports Pool_Run
begin

text \<open>
  Threads that call \<^verbatim>\<open>addJob\<close> of one pool at the same time. The round-robin counters are guarded by semaphores,
  \<^verbatim>\<open>mGlobalLock_Next\<close> and one of \<^verbatim>\<open>mCoreLock_Next_Arr\<close> for each core; what the source does between
  \<^verbatim>\<open>sem_wait\<close> and \<^verbatim>\<open>sem_post\<close> are several reads and writes of shared memory, and they are separate steps here. The
  result is that the choices are those of callers that take turns, which is how \<open>choose_worker\<close> and the runs of
  \<open>Pool_Run\<close> have them.
\<close>

section \<open>The counters and their locks\<close>

text \<open>The counter of the pool, guarded by \<^verbatim>\<open>mGlobalLock_Next\<close>, or that of a core.\<close>

datatype cursor = Global | Core nat

record ('w, 'q) locked_pool =
  lpool :: "('w, 'q) pool"
  mGlobalLock_Next :: sem_t
  mCoreLock_Next_Arr :: "sem_t list"

fun counter :: "cursor \<Rightarrow> ('w, 'q) locked_pool \<Rightarrow> nat" where
  "counter Global s = mNextGlobalJobWorker (lpool s)"
| "counter (Core c) s = mNextJobWorkerOnEachCoreArr (lpool s) ! c"

fun set_counter :: "cursor \<Rightarrow> nat \<Rightarrow> ('w, 'q) locked_pool \<Rightarrow> ('w, 'q) locked_pool" where
  "set_counter Global v s = s\<lparr>lpool := (lpool s)\<lparr>mNextGlobalJobWorker := v\<rparr>\<rparr>"
| "set_counter (Core c) v s =
     s\<lparr>lpool := (lpool s)\<lparr>mNextJobWorkerOnEachCoreArr := (mNextJobWorkerOnEachCoreArr (lpool s))[c := v]\<rparr>\<rparr>"

fun lock_at :: "cursor \<Rightarrow> ('w, 'q) locked_pool \<Rightarrow> sem_t" where
  "lock_at Global s = mGlobalLock_Next s"
| "lock_at (Core c) s = mCoreLock_Next_Arr s ! c"

fun set_lock :: "cursor \<Rightarrow> sem_t \<Rightarrow> ('w, 'q) locked_pool \<Rightarrow> ('w, 'q) locked_pool" where
  "set_lock Global u s = s\<lparr>mGlobalLock_Next := u\<rparr>"
| "set_lock (Core c) u s = s\<lparr>mCoreLock_Next_Arr := (mCoreLock_Next_Arr s)[c := u]\<rparr>"

text \<open>The value at which the counter is set back, and the one to which.\<close>

fun wraps_at :: "cursor \<Rightarrow> ('w, 'q) pool \<Rightarrow> nat" where
  "wraps_at Global p = mJobWorkerCount p"
| "wraps_at (Core c) p = u32 (u32 (c + 1) * mWorkersPerCore (mConfig p))"

fun wraps_to :: "cursor \<Rightarrow> ('w, 'q) pool \<Rightarrow> nat" where
  "wraps_to Global p = 0"
| "wraps_to (Core c) p = u32 (c * mWorkersPerCore (mConfig p))"

text \<open>\<^verbatim>\<open>initializeStatistics\<close> makes the semaphores with one unit each.\<close>

definition with_locks :: "('w, 'q) pool \<Rightarrow> ('w, 'q) locked_pool" where
  "with_locks p = \<lparr>lpool = p, mGlobalLock_Next = 1, mCoreLock_Next_Arr = replicate MAX_WORKER_COUNT 1\<rparr>"

section \<open>A caller's actions\<close>

text \<open>
  \<open>Fetch\<close>: about to read the counter; \<open>Bump w\<close>: has read \<open>w\<close>, about to write back its successor; \<open>Compare\<close>: about to
  compare the counter with its limit; \<open>Reset\<close>: about to set it back; \<open>Hand_over w\<close>: about to call \<^verbatim>\<open>addJob\<close> of worker \<open>w\<close>.
\<close>

datatype caller =
    Away
  | Sem_wait cursor
  | Fetch cursor
  | Bump cursor nat
  | Compare cursor nat
  | Reset cursor nat
  | Sem_post cursor nat
  | Hand_over nat

fun caller_run :: "('w, 'q) locked_pool \<Rightarrow> caller \<Rightarrow> (('w, 'q) locked_pool \<times> caller) option" where
  "caller_run s (Sem_wait cu) = map_option (\<lambda>u. (set_lock cu u s, Fetch cu)) (sem_take (lock_at cu s))"
| "caller_run s (Fetch cu) = Some (s, Bump cu (counter cu s))"
| "caller_run s (Bump cu w) = Some (set_counter cu (u32 (w + 1)) s, Compare cu w)"
| "caller_run s (Compare cu w) =
     Some (s, if counter cu s = wraps_at cu (lpool s) then Reset cu w else Sem_post cu w)"
| "caller_run s (Reset cu w) = Some (set_counter cu (wraps_to cu (lpool s)) s, Sem_post cu w)"
| "caller_run s (Sem_post cu w) = Some (set_lock cu (sem_post (lock_at cu s)) s, Hand_over w)"
| "caller_run s (Hand_over w) = Some (s, Away)"
| "caller_run s Away = None"

text \<open>The choices in the order in which they were made, each with its counter.\<close>

record ('w, 'q) lock_sys =
  locked :: "('w, 'q) locked_pool"
  callers :: "caller list"
  chosen :: "(cursor \<times> nat) list"

fun choosing :: "caller \<Rightarrow> (cursor \<times> nat) list" where
  "choosing (Bump cu w) = [(cu, w)]"
| "choosing _ = []"

fun cursor_exists :: "nat \<Rightarrow> cursor \<Rightarrow> bool" where
  "cursor_exists cores Global = True"
| "cursor_exists cores (Core c) = (c < cores)"

inductive lock_step :: "nat \<Rightarrow> ('w, 'q) lock_sys \<Rightarrow> ('w, 'q) lock_sys \<Rightarrow> bool" for cores s where
  call:
    "i < length (callers s) \<Longrightarrow> callers s ! i = Away \<Longrightarrow> cursor_exists cores cu \<Longrightarrow>
     lock_step cores s (s\<lparr>callers := (callers s)[i := Sem_wait cu]\<rparr>)"
| run:
    "i < length (callers s) \<Longrightarrow> caller_run (locked s) (callers s ! i) = Some (l', pc') \<Longrightarrow>
     lock_step cores s
       (s\<lparr>locked := l', callers := (callers s)[i := pc'], chosen := chosen s @ choosing (callers s ! i)\<rparr>)"

inductive lock_reachable :: "nat \<Rightarrow> ('w, 'q) lock_sys \<Rightarrow> ('w, 'q) lock_sys \<Rightarrow> bool" for cores s0 where
  start: "lock_reachable cores s0 s0"
| step: "lock_reachable cores s0 s \<Longrightarrow> lock_step cores s s' \<Longrightarrow> lock_reachable cores s0 s'"

text \<open>The steps as a function, to run a schedule: \<open>(i, Some cu)\<close> is a call, \<open>(i, None)\<close> an action of caller \<open>i\<close>.\<close>

fun lock_exec :: "nat \<Rightarrow> (nat \<times> cursor option) list \<Rightarrow> ('w, 'q) lock_sys \<Rightarrow> ('w, 'q) lock_sys option" where
  "lock_exec cores [] s = Some s"
| "lock_exec cores ((i, Some cu) # es) s =
     (if i < length (callers s) \<and> callers s ! i = Away \<and> cursor_exists cores cu
      then lock_exec cores es (s\<lparr>callers := (callers s)[i := Sem_wait cu]\<rparr>) else None)"
| "lock_exec cores ((i, None) # es) s =
     (if i < length (callers s) then
        (case caller_run (locked s) (callers s ! i) of
           None \<Rightarrow> None
         | Some (l', pc') \<Rightarrow> lock_exec cores es
             (s\<lparr>locked := l', callers := (callers s)[i := pc'], chosen := chosen s @ choosing (callers s ! i)\<rparr>))
      else None)"

lemma lock_exec_reachable: "lock_exec cores es s = Some s' \<Longrightarrow> lock_reachable cores s0 s \<Longrightarrow> lock_reachable cores s0 s'"
proof (induction cores es s rule: lock_exec.induct)
  case (2 cores i cu es s)
  then show ?case by (auto split: if_splits intro: lock_reachable.step lock_step.call)
next
  case (3 cores i es s)
  then obtain l' pc' where r: "i < length (callers s)" "caller_run (locked s) (callers s ! i) = Some (l', pc')"
    by (auto split: if_splits option.splits)
  with 3 lock_reachable.step [OF 3(3) lock_step.run [OF r]] show ?case by simp
qed simp

definition lock_start :: "('w, 'q) pool \<Rightarrow> nat \<Rightarrow> ('w, 'q) lock_sys" where
  "lock_start p k = \<lparr>locked = with_locks p, callers = replicate k Away, chosen = []\<rparr>"

definition choices :: "cursor \<Rightarrow> (cursor \<times> nat) list \<Rightarrow> nat list" where
  "choices cu log = map snd (filter (\<lambda>e. fst e = cu) log)"

section \<open>The invariant of a counter\<close>

fun in_section :: "cursor \<Rightarrow> caller \<Rightarrow> bool" where
  "in_section cu (Fetch cu') = (cu' = cu)"
| "in_section cu (Bump cu' w) = (cu' = cu)"
| "in_section cu (Compare cu' w) = (cu' = cu)"
| "in_section cu (Reset cu' w) = (cu' = cu)"
| "in_section cu (Sem_post cu' w) = (cu' = cu)"
| "in_section cu _ = False"

fun past_end :: "cursor \<Rightarrow> caller \<Rightarrow> bool" where
  "past_end cu (Compare cu' w) = (cu' = cu)"
| "past_end cu (Reset cu' w) = (cu' = cu)"
| "past_end cu _ = False"

text \<open>What a caller knows of the value \<open>v\<close> of a counter whose window ends at \<open>lim\<close>.\<close>

fun fits :: "cursor \<Rightarrow> nat \<Rightarrow> nat \<Rightarrow> caller \<Rightarrow> bool" where
  "fits cu v lim (Bump cu' w) = (cu' = cu \<longrightarrow> w = v)"
| "fits cu v lim (Compare cu' w) = (cu' = cu \<longrightarrow> v = Suc w)"
| "fits cu v lim (Reset cu' w) = (cu' = cu \<longrightarrow> v = lim)"
| "fits cu v lim _ = True"

text \<open>A caller's cursor is one of the pool's.\<close>

fun cursor_of :: "caller \<Rightarrow> cursor option" where
  "cursor_of Away = None"
| "cursor_of (Hand_over w) = None"
| "cursor_of (Sem_wait cu) = Some cu"
| "cursor_of (Fetch cu) = Some cu"
| "cursor_of (Bump cu w) = Some cu"
| "cursor_of (Compare cu w) = Some cu"
| "cursor_of (Reset cu w) = Some cu"
| "cursor_of (Sem_post cu w) = Some cu"

fun window :: "cursor \<Rightarrow> ('w, 'q) pool \<Rightarrow> nat \<times> nat" where
  "window Global p = (0, mJobWorkerCount p)"
| "window (Core c) p = (c * mWorkersPerCore (mConfig p), mWorkersPerCore (mConfig p))"

definition settle :: "nat \<Rightarrow> nat \<Rightarrow> nat \<Rightarrow> nat" where
  "settle lo n v = (if v = lo + n then lo else v)"

definition counter_ok :: "cursor \<Rightarrow> nat \<Rightarrow> nat \<Rightarrow> nat \<Rightarrow> ('w, 'q) lock_sys \<Rightarrow> bool" where
  "counter_ok cu lo n first s \<longleftrightarrow>
     (let v = counter cu (locked s) in
        int (lock_at cu (locked s)) + count_if (in_section cu) (callers s) = 1 \<and>
        lo \<le> v \<and> v \<le> lo + n \<and> (v = lo + n \<longrightarrow> (\<exists>pc \<in> set (callers s). past_end cu pc)) \<and>
        walks lo n first (choices cu (chosen s)) (settle lo n v) \<and>
        (\<forall>pc \<in> set (callers s). fits cu v (lo + n) pc))"

text \<open>What never changes of a pool.\<close>

definition same_pool :: "('w, 'q) pool \<Rightarrow> ('w, 'q) locked_pool \<Rightarrow> bool" where
  "same_pool p s \<longleftrightarrow>
     mConfig (lpool s) = mConfig p \<and> mJobWorkerCount (lpool s) = mJobWorkerCount p \<and>
     mJobWorkerArr (lpool s) = mJobWorkerArr p \<and>
     length (mNextJobWorkerOnEachCoreArr (lpool s)) = MAX_WORKER_COUNT \<and> length (mCoreLock_Next_Arr s) = MAX_WORKER_COUNT"

lemma window_facts:
  assumes "pool_ok cores p" and "cursor_exists cores cu" and "same_pool p s" and "window cu p = (lo, n)"
  shows "wraps_at cu (lpool s) = lo + n" "wraps_to cu (lpool s) = lo" "0 < n" "lo + n \<le> mJobWorkerCount p" "lo + n \<le> 128"
    "lo \<le> counter cu (with_locks p)" "counter cu (with_locks p) < lo + n"
proof -
  note P = pool_ok_small [OF assms(1)] and S = assms(3) [unfolded same_pool_def]
  have "wraps_at cu (lpool s) = lo + n \<and> wraps_to cu (lpool s) = lo \<and> 0 < n \<and> lo + n \<le> mJobWorkerCount p \<and>
    lo \<le> counter cu (with_locks p) \<and> counter cu (with_locks p) < lo + n"
  proof (cases cu)
    case Global
    with P S assms(4) show ?thesis by (auto simp: with_locks_def)
  next
    case (Core c)
    with assms(2) have "c < cores" by simp
    note D = pool_okD [OF assms(1) this]
    have "c < 128" using D(2) by (simp add: MAX_WORKER_COUNT_def)
    with D P S assms(4) Core show ?thesis
      by (auto simp: with_locks_def core_entry_ok_def add.commute)
  qed
  with P(1) show "wraps_at cu (lpool s) = lo + n" "wraps_to cu (lpool s) = lo" "0 < n" "lo + n \<le> mJobWorkerCount p" "lo + n \<le> 128"
    "lo \<le> counter cu (with_locks p)" "counter cu (with_locks p) < lo + n"
    by linarith+
qed

text \<open>Counters and locks are cells of their own.\<close>

lemma cursor_in_array:
  assumes "pool_ok cores p" and "cursor_exists cores (Core c)" and "same_pool p s"
  shows "c < length (mNextJobWorkerOnEachCoreArr (lpool s))" "c < length (mCoreLock_Next_Arr s)"
  using assms pool_okD(2) [OF assms(1), of c] by (simp_all add: same_pool_def)

lemma cells:
  assumes "pool_ok cores p" and "cursor_exists cores cu" and "same_pool p s"
  shows "counter cu' (set_counter cu v s) = (if cu' = cu then v else counter cu' s)"
    "lock_at cu' (set_lock cu u s) = (if cu' = cu then u else lock_at cu' s)"
    "lock_at cu' (set_counter cu v s) = lock_at cu' s" "counter cu' (set_lock cu u s) = counter cu' s"
    "same_pool p (set_counter cu v s)" "same_pool p (set_lock cu u s)"
  using assms cursor_in_array [OF assms(1) _ assms(3)]
  by (cases cu; cases cu'; simp add: same_pool_def)+


lemma outside_fits: "\<not> in_section cu pc \<Longrightarrow> fits cu v lim pc"
  by (cases pc) auto

lemma past_end_inside: "past_end cu pc \<Longrightarrow> in_section cu pc"
  by (cases pc) auto

lemma one_in_section:
  assumes "counter_ok cu lo n first s" and "i < length (callers s)" "j < length (callers s)"
    and "in_section cu (callers s ! i)" "in_section cu (callers s ! j)"
  shows "i = j"
proof (rule ccontr)
  assume "i \<noteq> j"
  from count_if_two [OF assms(2,3) this assms(4,5)] assms(1) show False
    by (simp add: counter_ok_def Let_def)
qed

text \<open>Inside, the counter is at the end of its window only for the caller that is about to set it back.\<close>

lemma counter_inside:
  assumes ok: "counter_ok cu lo n first s" and i: "i < length (callers s)"
    and sec: "in_section cu (callers s ! i)" and "\<not> past_end cu (callers s ! i)"
  shows "counter cu (locked s) < lo + n"
proof (rule ccontr)
  assume "\<not> counter cu (locked s) < lo + n"
  with ok obtain j where j: "j < length (callers s)" "past_end cu (callers s ! j)"
    by (auto simp: counter_ok_def Let_def in_set_conv_nth)
  from one_in_section [OF ok i j(1) sec past_end_inside [OF j(2)]] j assms(4) show False by simp
qed

text \<open>
  The action of caller \<open>i\<close> keeps the invariant of a counter when the lock's unit goes where the caller goes and, if the
  counter changes, the caller is inside.
\<close>

lemma counter_ok_update:
  assumes ok: "counter_ok cu lo n first s" and i: "i < length (callers s)"
    and lock: "int (lock_at cu l') + of_bool (in_section cu pc') =
      int (lock_at cu (locked s)) + of_bool (in_section cu (callers s ! i))"
    and range: "lo \<le> counter cu l'" "counter cu l' \<le> lo + n"
    and at_end: "counter cu l' = lo + n \<Longrightarrow> past_end cu pc' \<or> counter cu (locked s) = lo + n \<and> \<not> past_end cu (callers s ! i)"
    and walk: "walks lo n first (choices cu (chosen s @ log)) (settle lo n (counter cu l'))"
    and fit: "fits cu (counter cu l') (lo + n) pc'"
    and change: "counter cu l' = counter cu (locked s) \<or> in_section cu (callers s ! i)"
  shows "counter_ok cu lo n first (s\<lparr>locked := l', callers := (callers s)[i := pc'], chosen := chosen s @ log\<rparr>)"
proof -
  have fits': "fits cu (counter cu l') (lo + n) (callers s ! j)" if "j < length (callers s)" "j \<noteq> i" for j
  proof (cases "in_section cu (callers s ! j)")
    case True
    with one_in_section [OF ok that(1) i] that(2) change have "counter cu l' = counter cu (locked s)" by blast
    with ok that(1) show ?thesis by (simp add: counter_ok_def Let_def)
  qed (simp add: outside_fits)
  have "\<forall>pc \<in> set ((callers s)[i := pc']). fits cu (counter cu l') (lo + n) pc"
    using fit fits' set_update_memI i by (auto simp: in_set_conv_nth) (metis nth_list_update)
  moreover have "\<exists>pc \<in> set ((callers s)[i := pc']). past_end cu pc" if top: "counter cu l' = lo + n"
  proof (cases "past_end cu pc'")
    case True
    with i show ?thesis by (auto intro: set_update_memI)
  next
    case False
    with at_end [OF top] have e: "counter cu (locked s) = lo + n" "\<not> past_end cu (callers s ! i)" by blast+
    with ok obtain j where j: "j < length (callers s)" "past_end cu (callers s ! j)"
      by (auto simp: counter_ok_def Let_def in_set_conv_nth)
    with e(2) have "(callers s)[i := pc'] ! j = callers s ! j" by (metis nth_list_update_neq)
    with j show ?thesis by (metis length_list_update nth_mem)
  qed
  ultimately show ?thesis
    using ok lock range walk i by (simp add: counter_ok_def Let_def count_if_update)
qed

lemma choices_append: "choices cu (log @ log') = choices cu log @ choices cu log'"
  by (simp add: choices_def)

lemma choices_choosing: "choices cu (choosing pc) = (case pc of Bump cu' w \<Rightarrow> if cu' = cu then [w] else [] | _ \<Rightarrow> [])"
  by (cases pc) (simp_all add: choices_def)

lemma caller_run_other:
  assumes "pool_ok cores p" and "cursor_exists cores cu'" and "same_pool p s" and "cursor_of pc = Some cu'" and "cu \<noteq> cu'"
    and "caller_run s pc = Some (l', pc')"
  shows "counter cu l' = counter cu s \<and> lock_at cu l' = lock_at cu s \<and> \<not> in_section cu pc \<and> \<not> in_section cu pc' \<and>
    choices cu (choosing pc) = []"
  using assms(4-6) cells [OF assms(1-3)] by (cases pc) (auto simp: choices_def split: if_splits)

lemma counter_ok_run:
  assumes p: "pool_ok cores p" and same: "same_pool p (locked s)" and ok: "counter_ok cu lo n first s"
    and w: "window cu p = (lo, n)" and cu: "cursor_exists cores cu"
    and i: "i < length (callers s)" and pc: "cursor_of (callers s ! i) = Some cu"
    and run: "caller_run (locked s) (callers s ! i) = Some (l', pc')"
  shows "counter_ok cu lo n first
    (s\<lparr>locked := l', callers := (callers s)[i := pc'], chosen := chosen s @ choosing (callers s ! i)\<rparr>)"
proof -
  note W = window_facts [OF p cu same w] and K = cells [OF p cu same]
  let ?v = "counter cu (locked s)"
  have I: "lo \<le> ?v" "?v \<le> lo + n" "walks lo n first (choices cu (chosen s)) (settle lo n ?v)"
    "fits cu ?v (lo + n) (callers s ! i)"
    using ok i by (simp_all add: counter_ok_def Let_def)
  note up = counter_ok_update [OF ok i, where log = "choosing (callers s ! i)"]
  note inside = counter_inside [OF ok i]
  show ?thesis
  proof (cases "callers s ! i")
    case (Sem_wait cu')
    with run pc K I show ?thesis by (intro up) (auto simp: choices_append choices_choosing)
  next
    case (Fetch cu')
    with run pc K I inside show ?thesis by (intro up) (auto simp: choices_append choices_choosing)
  next
    case (Bump cu' x)
    with pc I inside have x: "cu' = cu" "x = ?v" "?v < lo + n" by auto
    with W(5) have nxt: "u32 (?v + 1) = Suc ?v" by simp
    have "settle lo n (Suc ?v) = advance lo n ?v" "settle lo n ?v = ?v"
      using x(3) by (simp_all add: settle_def advance_def)
    with I(3) have "walks lo n first (choices cu (chosen s) @ [?v]) (settle lo n (Suc ?v))"
      by (metis walks.simps walks_append)
    with Bump run x K nxt I W show ?thesis by (intro up) (auto simp: choices_append, simp add: choices_def)
  next
    case (Compare cu' x)
    with pc I have x: "cu' = cu" "?v = Suc x" by auto
    with Compare run K I W show ?thesis by (intro up) (auto simp: choices_append choices_choosing split: if_splits)
  next
    case (Reset cu' x)
    with pc I have x: "cu' = cu" "?v = lo + n" by auto
    have "settle lo n lo = settle lo n (lo + n)" using W(3) by (simp add: settle_def)
    with Reset run x K I W show ?thesis by (intro up) (auto simp: choices_append choices_choosing)
  next
    case (Sem_post cu' x)
    with run pc K I inside show ?thesis by (intro up) (auto simp: choices_append choices_choosing sem_post_def)
  qed (use pc in simp_all)
qed


section \<open>The invariant of the callers\<close>

fun carried :: "caller \<Rightarrow> nat list" where
  "carried (Bump cu w) = [w]"
| "carried (Compare cu w) = [w]"
| "carried (Reset cu w) = [w]"
| "carried (Sem_post cu w) = [w]"
| "carried (Hand_over w) = [w]"
| "carried _ = []"

definition lock_inv :: "nat \<Rightarrow> ('w, 'q) pool \<Rightarrow> ('w, 'q) lock_sys \<Rightarrow> bool" where
  "lock_inv cores p s \<longleftrightarrow> same_pool p (locked s) \<and>
     (\<forall>pc \<in> set (callers s). pred_option (cursor_exists cores) (cursor_of pc) \<and>
        list_all (\<lambda>w. w < mJobWorkerCount p) (carried pc)) \<and>
     (\<forall>e \<in> set (chosen s). cursor_exists cores (fst e)) \<and>
     (\<forall>cu lo n. cursor_exists cores cu \<longrightarrow> window cu p = (lo, n) \<longrightarrow> counter_ok cu lo n (counter cu (with_locks p)) s)"

lemma lock_inv_start:
  assumes "pool_ok cores p"
  shows "lock_inv cores p (lock_start p k)"
proof -
  have same: "same_pool p (with_locks p)" using assms by (simp add: same_pool_def with_locks_def pool_ok_def)
  have "counter_ok cu lo n (counter cu (with_locks p)) (lock_start p k)"
    if cu: "cursor_exists cores cu" and w: "window cu p = (lo, n)" for cu lo n
  proof -
    have "lock_at cu (with_locks p) = 1"
      using cursor_in_array(2) [OF assms _ same] cu same by (cases cu) (simp_all add: with_locks_def same_pool_def)
    moreover have "choices cu [] = []" by (simp add: choices_def)
    ultimately show ?thesis
      using window_facts(6,7) [OF assms cu same w]
      by (simp add: counter_ok_def Let_def lock_start_def count_if_replicate settle_def)
  qed
  then show ?thesis using same by (simp add: lock_inv_def lock_start_def)
qed

lemma counter_ok_call:
  assumes ok: "counter_ok cu lo n first s" and i: "i < length (callers s)" and away: "callers s ! i = Away"
  shows "counter_ok cu lo n first (s\<lparr>callers := (callers s)[i := Sem_wait cu']\<rparr>)"
proof -
  have "\<not> past_end cu (callers s ! i)" using away by simp
  then show ?thesis
    using counter_ok_update [OF ok i, of "locked s" "Sem_wait cu'" "[]"] ok away by (simp add: counter_ok_def Let_def)
qed

lemma caller_run_cursor:
  "caller_run s pc = Some (l', pc') \<Longrightarrow> pred_option P (cursor_of pc) \<Longrightarrow> pred_option P (cursor_of pc')"
  by (cases pc) auto

lemma lock_step_inv:
  assumes p: "pool_ok cores p" and "lock_step cores s s'" and inv: "lock_inv cores p s"
  shows "lock_inv cores p s'"
  using assms(2)
proof cases
  case (call i cu)
  have "set ((callers s)[i := Sem_wait cu]) \<subseteq> insert (Sem_wait cu) (set (callers s))" by (rule set_update_subset_insert)
  with call inv counter_ok_call [OF _ call(2,3)] show ?thesis by (auto simp: lock_inv_def)
next
  case (run i l' pc')
  have same: "same_pool p (locked s)" and mem: "callers s ! i \<in> set (callers s)"
    using inv run(2) by (simp_all add: lock_inv_def)
  show ?thesis
  proof (cases "cursor_of (callers s ! i)")
    case None
    then obtain w where "callers s ! i = Hand_over w" "pc' = Away" "l' = locked s"
      using run(3) by (cases "callers s ! i") auto
    moreover have "counter_ok cu lo n first s'" if "counter_ok cu lo n first s" for cu lo n first
      using counter_ok_update [OF that run(2), of l' pc' "[]"] that run(1) calculation
      by (simp add: counter_ok_def Let_def)
    moreover have "set ((callers s)[i := pc']) \<subseteq> insert pc' (set (callers s))" by (rule set_update_subset_insert)
    ultimately show ?thesis using inv run(1) by (auto simp: lock_inv_def)
  next
    case (Some cu)
    have cu: "cursor_exists cores cu" using inv mem Some by (auto simp: lock_inv_def)
    obtain lo n where w: "window cu p = (lo, n)" by fastforce
    have ok: "counter_ok cu lo n (counter cu (with_locks p)) s" using inv cu w by (simp add: lock_inv_def)
    have same': "same_pool p l'"
      using run(3) Some cells(5,6) [OF p cu same] same by (cases "callers s ! i") auto
    have others: "counter_ok cu' lo' n' first s'" if "counter_ok cu' lo' n' first s" and "cu' \<noteq> cu" for cu' lo' n' first
    proof -
      note O = caller_run_other [OF p cu same Some that(2) run(3)]
      moreover from O have "fits cu' v lim pc'" for v lim by (simp add: outside_fits)
      moreover from O have "\<not> past_end cu' (callers s ! i)" using past_end_inside by blast
      ultimately show ?thesis
        using counter_ok_update [OF that(1) run(2), of l' pc' "choosing (callers s ! i)"] that(1) run(1)
        by (simp add: counter_ok_def Let_def choices_append)
    qed
    have "counter_ok cu' lo' n' (counter cu' (with_locks p)) s'"
      if "cursor_exists cores cu'" "window cu' p = (lo', n')" for cu' lo' n'
    proof (cases "cu' = cu")
      case True
      with counter_ok_run [OF p same ok w cu run(2) Some run(3)] that(2) w run(1) show ?thesis by simp
    next
      case False
      with others that inv show ?thesis by (simp add: lock_inv_def)
    qed
    moreover have "list_all (\<lambda>x. x < mJobWorkerCount p) (carried pc')"
    proof (cases "callers s ! i")
      case (Fetch cu')
      with Some counter_inside [OF ok run(2)] window_facts(4) [OF p cu same w] run(3) show ?thesis by auto
    qed (use run(3) Some inv mem in \<open>auto simp: lock_inv_def\<close>)
    moreover have "\<forall>e \<in> set (choosing (callers s ! i)). cursor_exists cores (fst e)"
      using Some cu by (cases "callers s ! i") auto
    moreover have "pred_option (cursor_exists cores) (cursor_of pc')"
      using caller_run_cursor [OF run(3)] inv mem by (simp add: lock_inv_def)
    moreover have "set ((callers s)[i := pc']) \<subseteq> insert pc' (set (callers s))" by (rule set_update_subset_insert)
    ultimately show ?thesis using inv same' run(1) by (auto simp: lock_inv_def)
  qed
qed

lemma lock_reachable_inv:
  assumes "pool_ok cores p" and "lock_reachable cores (lock_start p k) s"
  shows "lock_inv cores p s"
  using assms(2) by induction (auto intro: lock_inv_start [OF assms(1)] lock_step_inv [OF assms(1)])


section \<open>One call after the other\<close>

fun policy_of :: "cursor \<Rightarrow> assign_policy" where
  "policy_of Global = JOB_ASSIGN_ROUND_ROBIN"
| "policy_of (Core c) = JOB_ASSIGN_SAME_CORE_ROUND_ROBIN"

fun core_of :: "cursor \<Rightarrow> nat" where
  "core_of Global = 0"
| "core_of (Core c) = c"

text \<open>The calls of \<open>log\<close>, each a single step, give the choices of \<open>log\<close>: the pool afterwards.\<close>

fun serial :: "(cursor \<times> nat) list \<Rightarrow> ('w, 'q) pool \<Rightarrow> ('w, 'q) pool option" where
  "serial [] p = Some p"
| "serial ((cu, w) # log) p =
     (case choose_worker (policy_of cu) (core_of cu) 0 p of
        Inl f \<Rightarrow> None
      | Inr (w', p') \<Rightarrow> if w' = w then serial log p' else None)"

lemma counter_written:
  "counter cu (with_locks (p\<lparr>mNextGlobalJobWorker := v\<rparr>)) = (if cu = Global then v else counter cu (with_locks p))"
  "c < length (mNextJobWorkerOnEachCoreArr p) \<Longrightarrow>
   counter cu (with_locks (p\<lparr>mNextJobWorkerOnEachCoreArr := (mNextJobWorkerOnEachCoreArr p)[c := v]\<rparr>)) =
     (if cu = Core c then v else counter cu (with_locks p))"
  by (cases cu; simp add: with_locks_def)+

lemma window_cong: "mConfig p' = mConfig p \<Longrightarrow> mJobWorkerCount p' = mJobWorkerCount p \<Longrightarrow> window cu p' = window cu p"
  by (cases cu) simp_all

lemma serial_pick:
  assumes "pool_ok cores p" and "cursor_exists cores cu" and "window cu p = (lo, n)"
  shows "\<exists>p'. choose_worker (policy_of cu) (core_of cu) 0 p = Inr (counter cu (with_locks p), p') \<and> pool_ok cores p' \<and>
    mConfig p' = mConfig p \<and> mJobWorkerCount p' = mJobWorkerCount p \<and>
    (\<forall>cu'. cursor_exists cores cu' \<longrightarrow> counter cu' (with_locks p') =
       (if cu' = cu then advance lo n (counter cu (with_locks p)) else counter cu' (with_locks p)))"
proof (cases cu)
  case Global
  with assms have w: "lo = 0" "n = mJobWorkerCount p" by simp_all
  from global_cursor.pick_next [of cores p "mJobWorkerCount p" 0 0] assms(1) global_pick [OF assms(1), of 0 0]
  have "pool_ok cores (p\<lparr>mNextGlobalJobWorker := advance lo n (mNextGlobalJobWorker p)\<rparr>)"
    by (auto simp: advance_def w)
  moreover have "choose_worker (policy_of cu) (core_of cu) 0 p =
      Inr (counter cu (with_locks p), p\<lparr>mNextGlobalJobWorker := advance lo n (mNextGlobalJobWorker p)\<rparr>)"
    using global_pick [OF assms(1), of 0 0] Global by (simp add: advance_def w with_locks_def)
  ultimately show ?thesis using Global by (auto simp: counter_written) (simp add: with_locks_def)
next
  case (Core c)
  then have c: "c < cores" and w: "lo = c * n" "n = mWorkersPerCore (mConfig p)" using assms by auto
  have len: "c < length (mNextJobWorkerOnEachCoreArr p)" using assms(1) pool_okD(2) [OF assms(1) c] by (simp add: pool_ok_def)
  let ?p = "p\<lparr>mNextJobWorkerOnEachCoreArr := (mNextJobWorkerOnEachCoreArr p)[c := advance lo n (mNextJobWorkerOnEachCoreArr p ! c)]\<rparr>"
  have pick: "choose_worker (policy_of cu) (core_of cu) 0 p = Inr (counter cu (with_locks p), ?p)"
    using core_pick [OF assms(1) c, of 0] Core by (simp add: advance_def w with_locks_def Let_def)
  with core_cursor.pick_next [of cores p c n 0] assms(1) c w Core have "pool_ok cores ?p" by auto
  then show ?thesis using pick Core by (auto simp: counter_written(2) [OF len]) (simp add: with_locks_def)
qed

lemma serial_walks:
  assumes "pool_ok cores p" and "\<forall>e \<in> set log. cursor_exists cores (fst e)"
    and "\<And>cu lo n. cursor_exists cores cu \<Longrightarrow> window cu p = (lo, n) \<Longrightarrow>
      walks lo n (counter cu (with_locks p)) (choices cu log) (e cu)"
  shows "\<exists>p1. serial log p = Some p1 \<and> (\<forall>cu. cursor_exists cores cu \<longrightarrow> counter cu (with_locks p1) = e cu)"
  using assms
proof (induction log arbitrary: p)
  case Nil
  have "counter cu (with_locks p) = e cu" if "cursor_exists cores cu" for cu
    using Nil(3) [OF that, of "fst (window cu p)" "snd (window cu p)"] by (simp add: choices_def)
  then show ?case by simp
next
  case (Cons x log)
  obtain cu w where x: "x = (cu, w)" by fastforce
  obtain lo n where win: "window cu p = (lo, n)" by fastforce
  have cu: "cursor_exists cores cu" using Cons.prems(2) x by simp
  from Cons.prems(3) [OF cu win] have here: "w = counter cu (with_locks p)"
    "walks lo n (advance lo n (counter cu (with_locks p))) (choices cu log) (e cu)" by (simp_all add: x choices_def)
  from serial_pick [OF Cons.prems(1) cu win] obtain p' where
    p': "choose_worker (policy_of cu) (core_of cu) 0 p = Inr (w, p')" "pool_ok cores p'"
      "mConfig p' = mConfig p" "mJobWorkerCount p' = mJobWorkerCount p"
    and c: "\<And>cu'. cursor_exists cores cu' \<Longrightarrow> counter cu' (with_locks p') =
       (if cu' = cu then advance lo n (counter cu (with_locks p)) else counter cu' (with_locks p))"
    using here(1) by blast
  have "walks lo' n' (counter cu' (with_locks p')) (choices cu' log) (e cu')"
    if e: "cursor_exists cores cu'" "window cu' p' = (lo', n')" for cu' lo' n'
  proof -
    have w': "window cu' p = (lo', n')" using e(2) window_cong [OF p'(3,4)] by simp
    show ?thesis
    proof (cases "cu' = cu")
      case True
      with here(2) c [OF e(1)] w' win show ?thesis by simp
    next
      case False
      with Cons.prems(3) [OF e(1) w'] c [OF e(1)] show ?thesis by (simp add: x choices_def)
    qed
  qed
  with Cons.IH [OF p'(2)] Cons.prems(2) p'(1) show ?case by (simp add: x)
qed


text \<open>How many actions a caller has left.\<close>

fun caller_left :: "caller \<Rightarrow> nat" where
  "caller_left (Sem_wait cu) = 7"
| "caller_left (Fetch cu) = 6"
| "caller_left (Bump cu w) = 5"
| "caller_left (Compare cu w) = 4"
| "caller_left (Reset cu w) = 3"
| "caller_left (Sem_post cu w) = 2"
| "caller_left (Hand_over w) = 1"
| "caller_left Away = 0"

lemma caller_run_left: "caller_run s pc = Some (s', pc') \<Longrightarrow> caller_left pc' < caller_left pc"
  by (cases pc) auto

lemma inside_runs: "in_section cu pc \<Longrightarrow> \<exists>s' pc'. caller_run s pc = Some (s', pc')"
  by (cases pc) auto

section \<open>Properties\<close>

text \<open>
  C5: Concurrent calls of \<^verbatim>\<open>addJob\<close> choose workers as if they came one after the other. However the actions of any number of
  callers interleave, at most one is between \<^verbatim>\<open>sem_wait\<close> and \<^verbatim>\<open>sem_post\<close> of a counter; calls that
  take place one after the other, in the order in which the counters were incremented, make the same choices, and leave
  every counter that nobody is working on as it is; and whoever has chosen has chosen an existing worker.
\<close>

theorem concurrent_choices_serial:
  assumes "pool_ok cores p" and "lock_reachable cores (lock_start p k) s"
  shows "(\<exists>p1. serial (chosen s) p = Some p1 \<and>
      (\<forall>cu. cursor_exists cores cu \<and> (\<forall>pc \<in> set (callers s). \<not> in_section cu pc) \<longrightarrow>
        counter cu (locked s) = counter cu (with_locks p1))) \<and>
    (\<forall>cu i j. cursor_exists cores cu \<and> i < length (callers s) \<and> j < length (callers s) \<and>
      in_section cu (callers s ! i) \<and> in_section cu (callers s ! j) \<longrightarrow> i = j) \<and>
    (\<forall>w. Hand_over w \<in> set (callers s) \<longrightarrow> w < mJobWorkerCount p)"
proof -
  have inv: "lock_inv cores p s" by (rule lock_reachable_inv [OF assms])
  have ok: "counter_ok cu lo n (counter cu (with_locks p)) s" if "cursor_exists cores cu" "window cu p = (lo, n)" for cu lo n
    using inv that by (simp add: lock_inv_def)
  define e where "e cu = settle (fst (window cu p)) (snd (window cu p)) (counter cu (locked s))" for cu
  have "walks lo n (counter cu (with_locks p)) (choices cu (chosen s)) (e cu)"
    if "cursor_exists cores cu" "window cu p = (lo, n)" for cu lo n
    using ok [OF that] that(2) by (simp add: counter_ok_def Let_def e_def)
  with serial_walks [OF assms(1)] inv obtain p1 where
    p1: "serial (chosen s) p = Some p1" "\<And>cu. cursor_exists cores cu \<Longrightarrow> counter cu (with_locks p1) = e cu"
    unfolding lock_inv_def by metis
  have "counter cu (locked s) = e cu" if "cursor_exists cores cu" "\<forall>pc \<in> set (callers s). \<not> in_section cu pc" for cu
  proof -
    obtain lo n where w: "window cu p = (lo, n)" by fastforce
    from ok [OF that(1) w] that(2) past_end_inside w show ?thesis by (auto simp: counter_ok_def Let_def e_def settle_def)
  qed
  with p1 have "\<exists>p1. serial (chosen s) p = Some p1 \<and>
      (\<forall>cu. cursor_exists cores cu \<and> (\<forall>pc \<in> set (callers s). \<not> in_section cu pc) \<longrightarrow>
        counter cu (locked s) = counter cu (with_locks p1))" by metis
  moreover have "i = j" if "cursor_exists cores cu" "i < length (callers s)" "j < length (callers s)"
      "in_section cu (callers s ! i)" "in_section cu (callers s ! j)" for cu i j
    using one_in_section [OF ok [OF that(1)] that(2-5)] by (metis surj_pair)
  moreover have "w < mJobWorkerCount p" if "Hand_over w \<in> set (callers s)" for w
    using inv that by (auto simp: lock_inv_def)
  ultimately show ?thesis by blast
qed

text \<open>
  C15: No call of \<^verbatim>\<open>addJob\<close> hangs in the choice of a worker: a caller has at most seven actions to go and each of them leaves
  fewer; at every moment it can act, or waits for a semaphore whose unit is with another caller that can act.
\<close>

theorem choice_never_hangs:
  assumes "pool_ok cores p" and "lock_reachable cores (lock_start p k) s" and "i < length (callers s)" and "callers s ! i \<noteq> Away"
  shows "caller_left (callers s ! i) \<le> 7 \<and>
    (\<forall>l' pc'. caller_run (locked s) (callers s ! i) = Some (l', pc') \<longrightarrow> caller_left pc' < caller_left (callers s ! i)) \<and>
    (caller_run (locked s) (callers s ! i) \<noteq> None \<or>
     (\<exists>cu j. callers s ! i = Sem_wait cu \<and> j < length (callers s) \<and> in_section cu (callers s ! j) \<and>
       caller_run (locked s) (callers s ! j) \<noteq> None))"
proof -
  have inv: "lock_inv cores p s" by (rule lock_reachable_inv [OF assms(1,2)])
  have left: "caller_left (callers s ! i) \<le> 7" by (cases "callers s ! i") simp_all
  have "\<exists>cu j. callers s ! i = Sem_wait cu \<and> j < length (callers s) \<and> in_section cu (callers s ! j) \<and>
       caller_run (locked s) (callers s ! j) \<noteq> None" if "caller_run (locked s) (callers s ! i) = None"
  proof -
    from that assms(4) obtain cu where cu: "callers s ! i = Sem_wait cu" "lock_at cu (locked s) = 0"
      by (cases "callers s ! i") auto
    have "cursor_exists cores cu" using inv assms(3) cu(1) nth_mem [OF assms(3)] by (auto simp: lock_inv_def)
    with inv obtain lo n where "counter_ok cu lo n (counter cu (with_locks p)) s"
      by (metis lock_inv_def surj_pair)
    with cu(2) have "0 < count_if (in_section cu) (callers s)" by (simp add: counter_ok_def Let_def)
    from count_if_ex [OF this] inside_runs cu(1) show ?thesis by (metis option.distinct(1))
  qed
  with left caller_run_left show ?thesis by blast
qed


text \<open>Two callers of a pool with two cores and four workers; the first has chosen worker 0 and holds the semaphore.\<close>

definition two_callers :: "(nat, nat) lock_sys" where
  "two_callers =
     \<lparr>locked = (with_locks sample_pool)\<lparr>lpool := sample_pool\<lparr>mNextGlobalJobWorker := 1\<rparr>, mGlobalLock_Next := 0\<rparr>,
      callers = [Compare Global 0, Sem_wait Global], chosen = [(Global, 0)]\<rparr>"

lemma two_callers_reachable: "lock_reachable 2 (lock_start sample_pool 2) two_callers"
proof (rule lock_exec_reachable [OF _ lock_reachable.start])
  show "lock_exec 2 [(0, Some Global), (1, Some Global), (0, None), (0, None), (0, None)] (lock_start sample_pool 2) =
      Some two_callers"
    by (simp add: lock_start_def with_locks_def two_callers_def numeral_2_eq_2 sample_pool_def initializeStatistics_def Let_def)
qed

theorem concurrent_choices_serial_witness: "\<exists>p1. serial [(Global, 0)] sample_pool = Some p1"
  using concurrent_choices_serial [OF sample_pool_ok two_callers_reachable] by (auto simp: two_callers_def)

theorem choice_never_hangs_witness:
  "\<exists>j < 2. in_section Global (callers two_callers ! j) \<and> caller_run (locked two_callers) (callers two_callers ! j) \<noteq> None"
  using choice_never_hangs [OF sample_pool_ok two_callers_reachable, of 1]
  by (auto simp: two_callers_def with_locks_def numeral_2_eq_2)

end
