(* ===== verification/Pool_Timer.thy ===== *)
theory Pool_Timer
  imports Pool_Run
begin

text \<open>
  The pool's timer thread, step by step, while other threads use the pool and while the destructor stops it.
  Each \<^verbatim>\<open>getJobCount\<close> of \<^verbatim>\<open>timer_thread_func\<close> is a step of its own, so workers get jobs and work between
  the counts of one scan, and \<^verbatim>\<open>stopWorkers\<close> can set \<^verbatim>\<open>mTimerRun\<close> in the middle of one. \<open>Pool_Run\<close> has a whole
  turn of the timer as one event.
\<close>

section \<open>The thread's actions\<close>

text \<open>
  \<open>Scan i n w\<close>: the first loop at index \<open>i\<close>, with \<^verbatim>\<open>leastJobs\<close> and \<^verbatim>\<open>leastJobWorker\<close>. \<open>Next_core\<close>: the loop over the cores at
  a core and its \<^verbatim>\<open>startingWorkerIndex\<close>. \<open>Scan_core\<close>: the loop inside.
\<close>

datatype timer_pc =
    Timer_setup
  | Timer_test
  | Timer_sleep
  | First_count
  | Scan nat nat nat
  | Next_core nat nat
  | Scan_core nat nat nat nat nat
  | Timer_exited

text \<open>One action; \<open>jobs\<close> is what the workers would answer now.\<close>

fun timer_act :: "nat \<Rightarrow> (nat \<Rightarrow> nat) \<Rightarrow> ('w, 'q) pool \<Rightarrow> timer_pc \<Rightarrow> (('w, 'q) pool \<times> timer_pc) result" where
  "timer_act cores jobs p Timer_setup = Inr (p, Timer_test)"
| "timer_act cores jobs p Timer_test = Inr (p, if mTimerRun p then Timer_sleep else Timer_exited)"
| "timer_act cores jobs p Timer_sleep = Inr (p, First_count)"
| "timer_act cores jobs p First_count =
     bind_result (getJobCount (mJobWorkerArr p) jobs 0) (\<lambda>leastJobs. Inr (p, Scan 1 leastJobs 0))"
| "timer_act cores jobs p (Scan i leastJobs leastJobWorker) =
     (if i < mJobWorkerCount p then
        bind_result (getJobCount (mJobWorkerArr p) jobs i) (\<lambda>jobNum.
          Inr (p, if jobNum < leastJobs then Scan (Suc i) jobNum i else Scan (Suc i) leastJobs leastJobWorker))
      else Inr (p\<lparr>mJobWorkerWithLeastJob := leastJobWorker\<rparr>, Next_core 0 0))"
| "timer_act cores jobs p (Next_core core start) =
     (if core < cores then
        bind_result (getJobCount (mJobWorkerArr p) jobs start) (\<lambda>leastJobs. Inr (p, Scan_core core start 1 leastJobs start))
      else Inr (p, Timer_test))"
| "timer_act cores jobs p (Scan_core core start i leastJobs leastJobWorker) =
     (if i < mWorkersPerCore (mConfig p) then
        bind_result (getJobCount (mJobWorkerArr p) jobs (start + i)) (\<lambda>jobNum.
          Inr (p, if jobNum < leastJobs then Scan_core core start (Suc i) jobNum (start + i)
                  else Scan_core core start (Suc i) leastJobs leastJobWorker))
      else
        bind_result (array_set (mJobWorkerWithLeastJobOnEachCoreArr p) (int core) leastJobWorker) (\<lambda>arr.
          Inr (p\<lparr>mJobWorkerWithLeastJobOnEachCoreArr := arr\<rparr>, Next_core (Suc core) (start + mWorkersPerCore (mConfig p)))))"
| "timer_act cores jobs p Timer_exited = Inr (p, Timer_exited)"

section \<open>The pool, its timer and its destructor\<close>

text \<open>
  \<^verbatim>\<open>stopWorkers\<close> in three steps: the flag, the join, the deletion. Three fields are for the statements only: the counts of the
  scan that goes on, and those of the last scan of all workers and of each core that ended.
\<close>

datatype owner_phase = Serving | Flagged | Timer_joined | Released

record ('w, 'q, 'g) timed_pool =
  tpool :: "('w, 'q) pool"
  shared :: 'g
  phase :: owner_phase
  tpc :: timer_pc
  seen :: "nat list"
  seen_all :: "nat list"
  seen_core :: "nat \<Rightarrow> nat list"

definition timed_start :: "('w, 'q) pool \<Rightarrow> 'g \<Rightarrow> ('w, 'q, 'g) timed_pool" where
  "timed_start p g =
     \<lparr>tpool = p, shared = g, phase = Serving, tpc = Timer_setup, seen = [], seen_all = [], seen_core = (\<lambda>_. [])\<rparr>"

fun note_counts :: "(nat \<Rightarrow> nat) \<Rightarrow> timer_pc \<Rightarrow> timer_pc \<Rightarrow> ('w, 'q, 'g) timed_pool \<Rightarrow> ('w, 'q, 'g) timed_pool" where
  "note_counts jobs First_count pc s = s\<lparr>seen := [jobs 0]\<rparr>"
| "note_counts jobs (Scan i n w) (Next_core core start) s = s\<lparr>seen_all := seen s\<rparr>"
| "note_counts jobs (Scan i n w) pc s = s\<lparr>seen := seen s @ [jobs i]\<rparr>"
| "note_counts jobs (Next_core core start) (Scan_core core' start' i n w) s = s\<lparr>seen := [jobs start]\<rparr>"
| "note_counts jobs (Scan_core core start i n w) (Next_core core' start') s = s\<lparr>seen_core := (seen_core s)(core := seen s)\<rparr>"
| "note_counts jobs (Scan_core core start i n w) pc s = s\<lparr>seen := seen s @ [jobs (start + i)]\<rparr>"
| "note_counts jobs _ _ s = s"

text \<open>
  \<open>Pool_does\<close>: \<^verbatim>\<open>addJob\<close>, which nobody calls once the destructor runs, or a worker's own work, until the worker is deleted.
\<close>

datatype 'j timed_event = Pool_does "'j pool_event" | Timer_acts "nat \<Rightarrow> nat" | Flag | Join | Release

text \<open>\<^verbatim>\<open>None\<close>: the event is not possible now.\<close>

fun timed_step ::
    "('j, 'g, 'w) adder \<Rightarrow> ('g, 'w) runner \<Rightarrow> nat \<Rightarrow> 'j timed_event \<Rightarrow> ('w, 'q, 'g) timed_pool \<Rightarrow>
     ('w, 'q, 'g) timed_pool result option" where
  "timed_step add work cores (Pool_does e) s =
     (if (case e of Add _ _ _ _ \<Rightarrow> phase s = Serving | Timer _ _ \<Rightarrow> False | Worker_runs _ \<Rightarrow> phase s \<noteq> Released) then
        Some (bind_result (pool_step add work cores e (shared s) (tpool s)) (\<lambda>(l, g, p). Inr (s\<lparr>tpool := p, shared := g\<rparr>)))
      else None)"
| "timed_step add work cores (Timer_acts jobs) s =
     (if tpc s = Timer_exited then None
      else Some (bind_result (timer_act cores jobs (tpool s) (tpc s)) (\<lambda>(p, pc).
        Inr ((note_counts jobs (tpc s) pc s)\<lparr>tpool := p, tpc := pc\<rparr>))))"
| "timed_step add work cores Flag s =
     (if phase s = Serving then Some (Inr (s\<lparr>tpool := (tpool s)\<lparr>mTimerRun := False\<rparr>, phase := Flagged\<rparr>)) else None)"
| "timed_step add work cores Join s =
     (if phase s = Flagged \<and> tpc s = Timer_exited then Some (Inr (s\<lparr>phase := Timer_joined\<rparr>)) else None)"
| "timed_step add work cores Release s =
     (if phase s = Timer_joined then
        Some (bind_result (delete_all (mJobWorkerCount (tpool s)) 0 (mJobWorkerArr (tpool s))) (\<lambda>ws.
              bind_result (delete_all (mJobQueueCount (tpool s)) 0 (mJobQueueArr (tpool s))) (\<lambda>qs.
                Inr (s\<lparr>tpool := (tpool s)\<lparr>mJobWorkerArr := ws, mJobQueueArr := qs\<rparr>, phase := Released\<rparr>))))
      else None)"

fun timed_run ::
    "('j, 'g, 'w) adder \<Rightarrow> ('g, 'w) runner \<Rightarrow> nat \<Rightarrow> 'j timed_event list \<Rightarrow> ('w, 'q, 'g) timed_pool \<Rightarrow>
     ('w, 'q, 'g) timed_pool result option" where
  "timed_run add work cores [] s = Some (Inr s)"
| "timed_run add work cores (e # es) s =
     (case timed_step add work cores e s of
        None \<Rightarrow> None
      | Some (Inl x) \<Rightarrow> Some (Inl x)
      | Some (Inr s') \<Rightarrow> timed_run add work cores es s')"

fun timed_event_ok :: "nat \<Rightarrow> nat \<Rightarrow> 'j timed_event \<Rightarrow> bool" where
  "timed_event_ok cores n (Pool_does e) = event_ok cores n e"
| "timed_event_ok cores n _ = True"

section \<open>Scans for the least number\<close>

text \<open>\<open>m\<close> is an index with the least of the counts \<open>xs\<close>, of the workers from \<open>lo\<close> on.\<close>

definition least_of_seen :: "nat list \<Rightarrow> nat \<Rightarrow> nat \<Rightarrow> bool" where
  "least_of_seen xs lo m \<longleftrightarrow> lo \<le> m \<and> m < lo + length xs \<and> (\<forall>x \<in> set xs. xs ! (m - lo) \<le> x)"

lemma least_of_seen_one: "least_of_seen [x] lo lo"
  by (simp add: least_of_seen_def)

lemma least_of_seen_snoc:
  assumes "least_of_seen xs lo m"
  shows "x < xs ! (m - lo) \<Longrightarrow> least_of_seen (xs @ [x]) lo (lo + length xs)"
    and "\<not> x < xs ! (m - lo) \<Longrightarrow> least_of_seen (xs @ [x]) lo m"
  using assms by (fastforce simp: least_of_seen_def nth_append)+

lemma least_of_seen_counts:
  assumes "least_of_seen xs lo m"
  shows "least_in (\<lambda>v. xs ! (v - lo)) lo (length xs) m"
proof -
  have "xs ! (m - lo) \<le> xs ! (v - lo)" if "v \<in> {lo..<lo + length xs}" for v
    using assms that by (auto simp: least_of_seen_def intro: nth_mem)
  then show ?thesis using assms by (simp add: least_in_def least_of_seen_def)
qed

section \<open>The invariant\<close>

text \<open>Where the thread is, given the counts of its scan.\<close>

fun scan_ok :: "nat \<Rightarrow> nat \<Rightarrow> nat \<Rightarrow> nat list \<Rightarrow> timer_pc \<Rightarrow> bool" where
  "scan_ok cores n wpc xs (Scan i least w) \<longleftrightarrow> i \<le> n \<and> length xs = i \<and> least_of_seen xs 0 w \<and> xs ! w = least"
| "scan_ok cores n wpc xs (Next_core core start) \<longleftrightarrow> core \<le> cores \<and> start = core * wpc"
| "scan_ok cores n wpc xs (Scan_core core start i least w) \<longleftrightarrow>
     core < cores \<and> start = core * wpc \<and> i \<le> wpc \<and> length xs = i \<and> least_of_seen xs start w \<and> xs ! (w - start) = least"
| "scan_ok cores n wpc xs _ \<longleftrightarrow> True"

text \<open>The statistics are those of the last scans that ended.\<close>

definition stats_ok :: "nat \<Rightarrow> ('w, 'q, 'g) timed_pool \<Rightarrow> bool" where
  "stats_ok cores s \<longleftrightarrow>
     (let p = tpool s; wpc = mWorkersPerCore (mConfig p) in
      (seen_all s \<noteq> [] \<longrightarrow> length (seen_all s) = mJobWorkerCount p \<and> least_of_seen (seen_all s) 0 (mJobWorkerWithLeastJob p)) \<and>
      (\<forall>c < cores. seen_core s c \<noteq> [] \<longrightarrow>
         length (seen_core s c) = wpc \<and> least_of_seen (seen_core s c) (c * wpc) (mJobWorkerWithLeastJobOnEachCoreArr p ! c)))"

definition timed_inv :: "nat \<Rightarrow> ('w, 'q, 'g) timed_pool \<Rightarrow> bool" where
  "timed_inv cores s \<longleftrightarrow>
     (phase s \<noteq> Released \<longrightarrow>
        pool_ready cores (tpool s) \<and> filled (mJobQueueArr (tpool s)) 0 (mJobQueueCount (tpool s)) \<and> stats_ok cores s \<and>
        scan_ok cores (mJobWorkerCount (tpool s)) (mWorkersPerCore (mConfig (tpool s))) (seen s) (tpc s)) \<and>
     (mTimerRun (tpool s) \<longleftrightarrow> phase s = Serving) \<and>
     (phase s \<in> {Timer_joined, Released} \<longrightarrow> tpc s = Timer_exited)"

text \<open>Jobs and work leave the timer's variables alone.\<close>

definition same_statistics :: "('w, 'q) pool \<Rightarrow> ('w, 'q) pool \<Rightarrow> bool" where
  "same_statistics p p' \<longleftrightarrow>
     mJobWorkerWithLeastJob p' = mJobWorkerWithLeastJob p \<and>
     mJobWorkerWithLeastJobOnEachCoreArr p' = mJobWorkerWithLeastJobOnEachCoreArr p \<and> mTimerRun p' = mTimerRun p"

lemma choose_worker_keeps: "choose_worker pol core draw p = Inr (i, p') \<Longrightarrow> same_statistics p p'"
  by (cases pol) (auto simp: choose_worker_def Let_def same_statistics_def split: if_splits)

lemma addJob_keeps:
  assumes "addJob add pol core draw p = Inr (ok, p')"
  shows "same_statistics p p'"
proof -
  obtain i p1 w where "choose_worker pol core draw p = Inr (i, p1)"
    "p' = p1\<lparr>mJobWorkerArr := (mJobWorkerArr p1)[i := Some w]\<rparr>"
    using assms by (auto simp: addJob_def Let_def case_prod_unfold split: option.splits)
  then show ?thesis using choose_worker_keeps [of pol core draw p i p1] by (simp add: same_statistics_def)
qed

lemma pool_step_keeps:
  assumes "pool_step add work cores e g p = Inr (l, g', p')" and "\<And>j j'. e \<noteq> Timer j j'"
  shows "same_statistics p p'"
proof (cases e)
  case (Add job pol core draw)
  then show ?thesis using assms(1) addJob_keeps by (fastforce simp: pool_step_def)
next
  case (Worker_runs i)
  then show ?thesis using assms(1) by (auto simp: pool_step_def same_statistics_def)
qed (use assms(2) in simp)

lemma pool_does_ok:
  assumes "pool_ready cores p" and "event_ok cores (mJobWorkerCount p) e"
  shows "\<exists>l g' p'. pool_step add work cores e g p = Inr (l, g', p') \<and> pool_ready cores p' \<and> kept p p'"
proof (cases e)
  case (Add job pol core draw)
  with assms add_step [OF assms(1), of core pol add work job draw g] show ?thesis by (auto simp: served_def)
next
  case (Timer jobs jobs')
  with timer_step [OF assms(1), of add work jobs jobs' g] show ?thesis by (auto simp: served_def)
next
  case (Worker_runs i)
  with assms worker_step [OF assms(1), of i add work g] show ?thesis by (auto simp: served_def)
qed

lemma count_read:
  assumes "pool_ready cores p" and "v < mJobWorkerCount p"
  shows "getJobCount (mJobWorkerArr p) jobs v = Inr (jobs v)"
  using assms by (auto simp: getJobCount_def array_get_def pool_ready_def filled_def)

text \<open>Storing a result of a scan keeps the pool ready.\<close>

lemma store_least:
  assumes "pool_ready cores p" and "w < mJobWorkerCount p"
  shows "pool_ready cores (p\<lparr>mJobWorkerWithLeastJob := w\<rparr>)"
proof -
  have "pool_ok cores (p\<lparr>mJobWorkerWithLeastJob := w\<rparr>)"
    using assms unfolding pool_ready_def pool_ok_def by (simp del: nat_0_less_mult_iff)
  then show ?thesis using assms(1) by (simp add: pool_ready_def)
qed

lemma store_least_on_core:
  assumes "pool_ready cores p" and "core < cores" and "core_entry_ok (mWorkersPerCore (mConfig p)) core w"
  shows "pool_ready cores (p\<lparr>mJobWorkerWithLeastJobOnEachCoreArr := (mJobWorkerWithLeastJobOnEachCoreArr p)[core := w]\<rparr>)"
proof -
  have "core_entry_ok (mWorkersPerCore (mConfig p)) c ((mJobWorkerWithLeastJobOnEachCoreArr p)[core := w] ! c)" if "c < cores" for c
    using assms that pool_okD(5) [of cores p c] pool_okD(2) [of cores p c]
    by (cases "c = core") (auto simp: pool_ready_def pool_ok_def)
  then show ?thesis using assms(1) by (auto simp: pool_ready_def pool_ok_def)
qed

text \<open>How many actions the thread has left once \<^verbatim>\<open>mTimerRun\<close> is false.\<close>

fun timer_left :: "nat \<Rightarrow> nat \<Rightarrow> nat \<Rightarrow> timer_pc \<Rightarrow> nat" where
  "timer_left cores n wpc Timer_setup = 2"
| "timer_left cores n wpc Timer_test = 1"
| "timer_left cores n wpc Timer_sleep = n + cores * Suc wpc + 4"
| "timer_left cores n wpc First_count = n + cores * Suc wpc + 3"
| "timer_left cores n wpc (Scan i least w) = (n - i) + cores * Suc wpc + 3"
| "timer_left cores n wpc (Next_core core start) = (cores - core) * Suc wpc + 2"
| "timer_left cores n wpc (Scan_core core start i least w) = (wpc - i) + (cores - Suc core) * Suc wpc + 3"
| "timer_left cores n wpc Timer_exited = 0"

definition acts_left :: "nat \<Rightarrow> ('w, 'q, 'g) timed_pool \<Rightarrow> nat" where
  "acts_left cores s = timer_left cores (mJobWorkerCount (tpool s)) (mWorkersPerCore (mConfig (tpool s))) (tpc s)"

lemma acts_left_le:
  assumes "timed_inv cores s" and "phase s \<noteq> Released"
  shows "acts_left cores s \<le> 2 * mJobWorkerCount (tpool s) + cores + 4"
proof -
  let ?n = "mJobWorkerCount (tpool s)" and ?wpc = "mWorkersPerCore (mConfig (tpool s))"
  have n: "?n = cores * ?wpc" and ok: "scan_ok cores ?n ?wpc (seen s) (tpc s)"
    using assms unfolding timed_inv_def pool_ready_def pool_ok_def by blast+
  have some: "(cores - k) * Suc ?wpc \<le> cores + ?n" for k
    using mult_le_mono1 [of "cores - k" cores "Suc ?wpc"] n by simp
  have "timer_left cores ?n ?wpc (tpc s) \<le> 2 * ?n + cores + 4"
  proof (cases "tpc s")
    case (Scan_core core start i least w)
    then have "1 \<le> cores" using ok by simp
    then have "?wpc + (cores - 1) * ?wpc = ?n" using n by (cases cores) simp_all
    moreover have "(cores - Suc core) * Suc ?wpc \<le> (cores - 1) * Suc ?wpc" by (intro mult_le_mono1) simp
    ultimately show ?thesis using Scan_core by simp
  next
    case (Next_core core start)
    then show ?thesis using some [of core] by simp
  qed (use some [of 0] in simp_all)
  then show ?thesis by (simp add: acts_left_def)
qed

lemma timer_act_ok:
  assumes inv: "timed_inv cores s" and live: "tpc s \<noteq> Timer_exited"
  shows "\<exists>p pc. timer_act cores jobs (tpool s) (tpc s) = Inr (p, pc) \<and> kept (tpool s) p \<and>
    timed_inv cores ((note_counts jobs (tpc s) pc s)\<lparr>tpool := p, tpc := pc\<rparr>) \<and>
    (\<not> mTimerRun (tpool s) \<longrightarrow>
       timer_left cores (mJobWorkerCount p) (mWorkersPerCore (mConfig p)) pc + 1 = acts_left cores s)"
proof -
  let ?p = "tpool s" let ?n = "mJobWorkerCount ?p" and ?wpc = "mWorkersPerCore (mConfig ?p)"
  have phase: "phase s = Serving \<or> phase s = Flagged" using inv live by (cases "phase s") (auto simp: timed_inv_def)
  then have ready: "pool_ready cores ?p" and ok: "scan_ok cores ?n ?wpc (seen s) (tpc s)" and stats: "stats_ok cores s"
    using inv by (auto simp: timed_inv_def)
  have pool: "pool_ok cores ?p" "?n = cores * ?wpc" "0 < ?n" using ready unfolding pool_ready_def pool_ok_def by blast+
  have wpc: "0 < ?wpc" using pool(2,3) by (cases ?wpc) simp_all
  note read = count_read [OF ready]
  note step = timed_inv_def kept_def acts_left_def stats_ok_def Let_def
  show ?thesis
  proof (cases "tpc s")
    case (Scan i least w)
    show ?thesis
    proof (cases "i < ?n")
      case True
      have "least_of_seen (seen s @ [jobs i]) 0 (if jobs i < least then i else w)"
        using ok Scan least_of_seen_snoc [of "seen s" 0 w "jobs i"] by auto
      moreover have "w < i" using ok Scan by (simp add: least_of_seen_def)
      ultimately show ?thesis
        using Scan True ok read [OF True, of jobs] inv phase by (auto simp: step nth_append)
    next
      case False
      then have "i = ?n" "least_of_seen (seen s) 0 w" "length (seen s) = ?n" using ok Scan by auto
      moreover from this store_least [OF ready, of w] have "pool_ready cores (?p\<lparr>mJobWorkerWithLeastJob := w\<rparr>)"
        by (simp add: least_of_seen_def)
      ultimately show ?thesis using Scan inv phase by (auto simp: step)
    qed
  next
    case (Next_core core start)
    show ?thesis
    proof (cases "core < cores")
      case True
      have "start < ?n" using ok Next_core pool_okD(1,3) [OF pool(1) True] by simp
      moreover have "(cores - core) * Suc ?wpc = Suc ?wpc + (cores - Suc core) * Suc ?wpc"
        using True by (metis Suc_diff_Suc mult_Suc)
      ultimately show ?thesis
        using Next_core True ok read [of start jobs] inv phase wpc by (auto simp: step least_of_seen_one)
    next
      case False
      then show ?thesis using Next_core ok inv phase by (auto simp: step)
    qed
  next
    case (Scan_core core start i least w)
    show ?thesis
    proof (cases "i < ?wpc")
      case True
      have "start + i < ?n" using ok Scan_core True pool_okD(1) [OF pool(1), of core] by simp
      moreover have "least_of_seen (seen s @ [jobs (start + i)]) start (if jobs (start + i) < least then start + i else w)"
        using ok Scan_core least_of_seen_snoc [of "seen s" start w "jobs (start + i)"] by auto
      moreover have "start \<le> w" "w - start < i" using ok Scan_core by (auto simp: least_of_seen_def)
      ultimately show ?thesis
        using Scan_core True ok read [of "start + i" jobs] inv phase by (auto simp: step nth_append)
    next
      case False
      then have core: "core < cores" "i = ?wpc" "start = core * ?wpc" "least_of_seen (seen s) start w" "length (seen s) = ?wpc"
        using ok Scan_core by auto
      then have "core_entry_ok ?wpc core w" by (auto simp: core_entry_ok_def least_of_seen_def)
      note store_least_on_core [OF ready core(1) this]
      moreover have "core < length (mJobWorkerWithLeastJobOnEachCoreArr ?p)"
        using pool_okD(2) [OF pool(1) core(1)] pool(1) by (simp add: pool_ok_def)
      ultimately show ?thesis
        using Scan_core False core inv phase by (auto simp: step array_set_nat nth_list_update)
    qed
  qed (use inv phase live pool(3) read [of 0 jobs] in \<open>auto simp: step least_of_seen_one\<close>)
qed

lemma flag_ready: "pool_ready cores (p\<lparr>mTimerRun := b\<rparr>) = pool_ready cores p"
  by (simp add: pool_ready_def pool_ok_def)

lemma timed_step_ok:
  assumes inv: "timed_inv cores s" and ok: "timed_event_ok cores (mJobWorkerCount (tpool s)) e"
    and step: "timed_step add work cores e s = Some r"
  shows "\<exists>s'. r = Inr s' \<and> timed_inv cores s' \<and> mJobWorkerCount (tpool s') = mJobWorkerCount (tpool s) \<and>
    mConfig (tpool s') = mConfig (tpool s)"
proof (cases e)
  case (Pool_does ev)
  then have cond: "phase s \<noteq> Released" "\<And>j j'. ev \<noteq> Timer j j'" using step by (auto split: pool_event.splits if_splits)
  then have "pool_ready cores (tpool s)" "event_ok cores (mJobWorkerCount (tpool s)) ev"
    using inv ok Pool_does by (simp_all add: timed_inv_def)
  then obtain l g p where p: "pool_step add work cores ev (shared s) (tpool s) = Inr (l, g, p)" "pool_ready cores p" "kept (tpool s) p"
    using pool_does_ok [of cores "tpool s" ev add work "shared s"] by blast
  have "same_statistics (tpool s) p" by (rule pool_step_keeps [OF p(1) cond(2)])
  then have "timed_inv cores (s\<lparr>tpool := p, shared := g\<rparr>)"
    using inv p(2,3) cond(1) by (auto simp: timed_inv_def stats_ok_def kept_def same_statistics_def Let_def)
  moreover have "r = Inr (s\<lparr>tpool := p, shared := g\<rparr>)" using step Pool_does p(1) by (simp split: if_splits)
  ultimately show ?thesis using p(3) by (simp add: kept_def)
next
  case (Timer_acts jobs)
  then have live: "tpc s \<noteq> Timer_exited" using step by auto
  obtain p pc where p: "timer_act cores jobs (tpool s) (tpc s) = Inr (p, pc)" "kept (tpool s) p"
    "timed_inv cores ((note_counts jobs (tpc s) pc s)\<lparr>tpool := p, tpc := pc\<rparr>)"
    using timer_act_ok [OF inv live, of jobs] by blast
  then show ?thesis using step Timer_acts live by (auto simp: kept_def)
next
  case Flag
  then have serving: "phase s = Serving" "r = Inr (s\<lparr>tpool := (tpool s)\<lparr>mTimerRun := False\<rparr>, phase := Flagged\<rparr>)"
    using step by (auto split: if_splits)
  then have "timed_inv cores (s\<lparr>tpool := (tpool s)\<lparr>mTimerRun := False\<rparr>, phase := Flagged\<rparr>)"
    using inv by (simp add: timed_inv_def stats_ok_def flag_ready Let_def)
  with serving show ?thesis by simp
next
  case Join
  then have "phase s = Flagged" "tpc s = Timer_exited" "r = Inr (s\<lparr>phase := Timer_joined\<rparr>)"
    using step by (auto split: if_splits)
  with inv show ?thesis by (auto simp: timed_inv_def stats_ok_def)
next
  case Release
  then have joined: "phase s = Timer_joined" using step by (auto split: if_splits)
  then have "filled (mJobWorkerArr (tpool s)) 0 (mJobWorkerCount (tpool s))" "filled (mJobQueueArr (tpool s)) 0 (mJobQueueCount (tpool s))"
    using inv by (simp_all add: timed_inv_def pool_ready_def)
  then obtain ws qs where "delete_all (mJobWorkerCount (tpool s)) 0 (mJobWorkerArr (tpool s)) = Inr ws"
    "delete_all (mJobQueueCount (tpool s)) 0 (mJobQueueArr (tpool s)) = Inr qs"
    using delete_all_ok [of "mJobWorkerArr (tpool s)" 0 "mJobWorkerCount (tpool s)"]
      delete_all_ok [of "mJobQueueArr (tpool s)" 0 "mJobQueueCount (tpool s)"] by auto
  then show ?thesis using step Release joined inv by (auto simp: timed_inv_def)
qed

lemma timed_run_ok:
  "timed_inv cores s \<Longrightarrow> list_all (timed_event_ok cores (mJobWorkerCount (tpool s))) es \<Longrightarrow>
   timed_run add work cores es s = Some r \<Longrightarrow>
   \<exists>s'. r = Inr s' \<and> timed_inv cores s' \<and> mJobWorkerCount (tpool s') = mJobWorkerCount (tpool s) \<and>
     mConfig (tpool s') = mConfig (tpool s)"
proof (induction es arbitrary: s)
  case (Cons e es)
  then obtain r1 where r1: "timed_step add work cores e s = Some r1" by (auto split: option.splits)
  obtain s1 where s1: "r1 = Inr s1" "timed_inv cores s1" "mJobWorkerCount (tpool s1) = mJobWorkerCount (tpool s)"
    "mConfig (tpool s1) = mConfig (tpool s)"
    using timed_step_ok [OF Cons.prems(1) _ r1] Cons.prems(2) by auto
  have "list_all (timed_event_ok cores (mJobWorkerCount (tpool s1))) es" "timed_run add work cores es s1 = Some r"
    using Cons.prems(2,3) r1 s1(1,3) by simp_all
  from Cons.IH [OF s1(2) this] s1(3,4) show ?case by simp
qed auto

text \<open>A pool from its constructor satisfies the invariant.\<close>

lemma timed_start_ok:
  assumes "acceptable E c" and "shares_fit c (core_number E * mWorkersPerCore c)" and "fell_off E = Inr True" and "timer_rc E = 0"
    and "fresh_memory p0" and "new_pool E c p0 = Inr p"
  shows "timed_inv (core_number E) (timed_start p g) \<and> mJobWorkerCount p = core_number E * mWorkersPerCore c \<and>
    mWorkersPerCore (mConfig p) = mWorkersPerCore c"
proof -
  obtain q where q: "new_pool E c p0 = Inr q" "pool_ready (core_number E) q" "mTimerRun q"
    "mJobWorkerCount q = core_number E * mWorkersPerCore c" "mJobQueueCount q = queues_for c (core_number E * mWorkersPerCore c)"
    "filled (mJobQueueArr q) 0 (queues_for c (core_number E * mWorkersPerCore c))" "mWorkersPerCore (mConfig q) = mWorkersPerCore c"
    using new_pool_starts [OF assms(1,3,4,5) shares_fit_exact [OF assms(1,2)]] by metis
  then show ?thesis using assms(6) by (simp add: timed_inv_def timed_start_def stats_ok_def)
qed

lemma note_counts_phase [simp]: "phase (note_counts jobs pc pc' s) = phase s"
  by (induction jobs pc pc' s rule: note_counts.induct) simp_all

text \<open>With the flag down and nobody else moving, the thread leaves after the actions it has left.\<close>

lemma timer_runs_out:
  assumes "timed_inv cores s" and "phase s = Flagged" and "length js = acts_left cores s"
  shows "\<exists>s'. timed_run add work cores (map Timer_acts js) s = Some (Inr s') \<and> timed_inv cores s' \<and> phase s' = Flagged \<and>
    tpc s' = Timer_exited \<and> mJobWorkerCount (tpool s') = mJobWorkerCount (tpool s)"
  using assms
proof (induction js arbitrary: s)
  case Nil
  then have "tpc s = Timer_exited" by (cases "tpc s") (simp_all add: acts_left_def)
  then show ?case using Nil.prems by simp
next
  case (Cons jobs js)
  have live: "tpc s \<noteq> Timer_exited" using Cons.prems(3) by (auto simp: acts_left_def)
  have down: "\<not> mTimerRun (tpool s)" using Cons.prems(1,2) by (simp add: timed_inv_def)
  obtain p pc where p: "timer_act cores jobs (tpool s) (tpc s) = Inr (p, pc)" "kept (tpool s) p"
    "timed_inv cores ((note_counts jobs (tpc s) pc s)\<lparr>tpool := p, tpc := pc\<rparr>)"
    "timer_left cores (mJobWorkerCount p) (mWorkersPerCore (mConfig p)) pc + 1 = acts_left cores s"
    using timer_act_ok [OF Cons.prems(1) live, of jobs] down by blast
  let ?s = "(note_counts jobs (tpc s) pc s)\<lparr>tpool := p, tpc := pc\<rparr>"
  have same: "phase ?s = phase s" by simp
  have "length js = acts_left cores ?s" using p(4) Cons.prems(3) by (simp add: acts_left_def)
  from Cons.IH [OF p(3) _ this] same Cons.prems(2) p(1,2) live show ?case by (auto simp: kept_def)
qed

lemma timed_run_append:
  "timed_run add work cores es s = Some (Inr s1) \<Longrightarrow> timed_run add work cores (es @ es') s = timed_run add work cores es' s1"
  by (induction es arbitrary: s) (auto split: option.splits sum.splits)

text \<open>The three steps of the destructor are \<open>stopWorkers\<close>.\<close>

lemma stop_in_steps:
  assumes "phase s = Serving" and "tpc s = Timer_exited" and "mTimerThread (tpool s)"
  shows "timed_run add work cores [Flag, Join, Release] s =
    Some (bind_result (stopWorkers (tpool s)) (\<lambda>p. Inr (s\<lparr>tpool := p, phase := Released\<rparr>)))"
  using assms by (simp add: stopWorkers_def bind_result_def split: sum.split)

section \<open>A run\<close>

text \<open>Four workers with 5, 3, 1 and 2 jobs. The timer scans all of them; then it counts the first core, and in the middle of that the destructor begins.\<close>

definition busy_jobs :: "nat \<Rightarrow> nat" where
  "busy_jobs v = [5, 3, 1, 2] ! v"

definition one_scan :: "nat timed_event list" where
  "one_scan = replicate 9 (Timer_acts busy_jobs)"

lemma one_scan_run:
  obtains p s where "new_pool sample_env (sample_config JOBQUEUE_TYPE_SHARED 2) sample_memory = Inr p"
    "timed_run sample_add sample_work 2 one_scan (timed_start p []) = Some (Inr s)" "phase s = Serving"
    "seen_all s = [5, 3, 1, 2]" "mJobWorkerWithLeastJob (tpool s) = 2" "tpc s = Scan_core 0 0 1 5 0"
proof -
  let ?c = "sample_config JOBQUEUE_TYPE_SHARED 2"
  have fit: "shares_fit ?c (core_number sample_env * mWorkersPerCore ?c)" by (simp add: sample_facts shares_fit_def)
  obtain p where p: "new_pool sample_env ?c sample_memory = Inr p" "pool_ready 2 p" "mTimerRun p"
    "mJobWorkerCount p = 4" "mWorkersPerCore (mConfig p) = 2"
    using new_pool_starts [OF sample_facts(5,2,3,1) shares_fit_exact [OF sample_facts(5) fit]] by (auto simp: sample_facts)
  have count: "getJobCount (mJobWorkerArr p) busy_jobs v = Inr (busy_jobs v)" if "v < 4" for v
    using count_read [OF p(2)] p(4) that by simp
  have jobs: "busy_jobs 0 = 5" "busy_jobs 1 = 3" "busy_jobs (Suc 0) = 3" "busy_jobs 2 = 1" "busy_jobs 3 = 2"
    "busy_jobs (Suc (Suc 0)) = 1" "busy_jobs (Suc (Suc (Suc 0))) = 2"
    by (simp_all add: busy_jobs_def)
  have nine: "one_scan = [Timer_acts busy_jobs, Timer_acts busy_jobs, Timer_acts busy_jobs, Timer_acts busy_jobs, Timer_acts busy_jobs,
      Timer_acts busy_jobs, Timer_acts busy_jobs, Timer_acts busy_jobs, Timer_acts busy_jobs]"
    by (simp add: one_scan_def eval_nat_numeral)
  have "\<exists>s. timed_run sample_add sample_work 2 one_scan (timed_start p []) = Some (Inr s) \<and> phase s = Serving \<and>
    seen_all s = [5, 3, 1, 2] \<and> mJobWorkerWithLeastJob (tpool s) = 2 \<and> tpc s = Scan_core 0 0 1 5 0"
    by (simp add: nine timed_start_def p(3-5) count jobs)
  with p(1) that show ?thesis by blast
qed

lemma one_scan_ok: "list_all (timed_event_ok 2 4) one_scan" "list_all (timed_event_ok 2 4) (one_scan @ [Flag])"
  by (simp_all add: one_scan_def list_all_iff)

lemma sample_fit: "shares_fit (sample_config JOBQUEUE_TYPE_SHARED 2) (core_number sample_env * mWorkersPerCore (sample_config JOBQUEUE_TYPE_SHARED 2))"
  by (simp add: sample_facts shares_fit_def)

section \<open>Properties\<close>

text \<open>
  C6: The timer never counts the jobs of a deleted worker. For a pool that starts (an accepted configuration with a fitting share
  factor, a timer thread that can be made, and the missing \<^verbatim>\<open>return\<close> of \<^verbatim>\<open>checkAndAjustConfig\<close> read as true): whatever jobs are given, whatever the workers do and however the timer's
  single counts come in between, also while the destructor runs, no step of a pool that has started is a fault; when the workers
  and queues are being deleted, the timer's thread has ended.
\<close>

theorem timer_reads_live_workers:
  assumes "acceptable E c" and "shares_fit c (core_number E * mWorkersPerCore c)" and "fell_off E = Inr True" and "timer_rc E = 0"
    and "fresh_memory p0" and "new_pool E c p0 = Inr p"
    and "list_all (timed_event_ok (core_number E) (core_number E * mWorkersPerCore c)) es"
    and "timed_run add work (core_number E) es (timed_start p g) = Some r"
  shows "\<exists>s. r = Inr s \<and> (phase s = Serving \<or> phase s = Flagged \<or> tpc s = Timer_exited) \<and>
    (phase s \<noteq> Released \<longrightarrow> filled (mJobWorkerArr (tpool s)) 0 (core_number E * mWorkersPerCore c)) \<and>
    (tpc s \<noteq> Timer_exited \<longrightarrow> (\<exists>p' pc. timer_act (core_number E) jobs (tpool s) (tpc s) = Inr (p', pc)))"
proof -
  note start = timed_start_ok [OF assms(1-6), of g]
  have inv: "timed_inv (core_number E) (timed_start p g)"
    and same: "mJobWorkerCount (tpool (timed_start p g)) = core_number E * mWorkersPerCore c"
    using start by (simp_all add: timed_start_def)
  from timed_run_ok [OF inv _ assms(8)] assms(7) same obtain s where
    s: "r = Inr s" "timed_inv (core_number E) s" "mJobWorkerCount (tpool s) = core_number E * mWorkersPerCore c" by auto
  moreover have "phase s = Serving \<or> phase s = Flagged \<or> tpc s = Timer_exited"
    using s(2) by (cases "phase s") (simp_all add: timed_inv_def)
  moreover have "filled (mJobWorkerArr (tpool s)) 0 (core_number E * mWorkersPerCore c)" if "phase s \<noteq> Released"
    using s(2,3) that by (auto simp: timed_inv_def pool_ready_def)
  ultimately show ?thesis using timer_act_ok [OF s(2), of jobs] by blast
qed

theorem timer_reads_live_workers_witness:
  "\<exists>p s. new_pool sample_env (sample_config JOBQUEUE_TYPE_SHARED 2) sample_memory = Inr p \<and>
    timed_run sample_add sample_work 2 one_scan (timed_start p []) = Some (Inr s) \<and> tpc s = Scan_core 0 0 1 5 0 \<and>
    (\<exists>p' pc. timer_act 2 busy_jobs (tpool s) (tpc s) = Inr (p', pc))"
proof -
  obtain p s where r: "new_pool sample_env (sample_config JOBQUEUE_TYPE_SHARED 2) sample_memory = Inr p"
    "timed_run sample_add sample_work 2 one_scan (timed_start p []) = Some (Inr s)" "tpc s = Scan_core 0 0 1 5 0"
    using one_scan_run by blast
  from timer_reads_live_workers [OF sample_facts(5) sample_fit sample_facts(2,3,1) r(1), of one_scan sample_add sample_work "[]" "Inr s" busy_jobs]
  show ?thesis using r one_scan_ok(1) by (auto simp: sample_facts)
qed

text \<open>
  C14: The destructor returns, of a pool that starts (as in the property of live workers above, the missing \<^verbatim>\<open>return\<close> read
  as true). From every moment at which \<^verbatim>\<open>mTimerRun\<close> has been set to false, wherever in its scans the timer is, its thread
  leaves after at most \<open>2 * n + cores + 4\<close> of its actions for \<open>n\<close> workers, whatever counts it reads; then it is joined and every worker and
  queue is deleted.
\<close>

theorem stop_returns:
  assumes "acceptable E c" and "shares_fit c (core_number E * mWorkersPerCore c)" and "fell_off E = Inr True" and "timer_rc E = 0"
    and "fresh_memory p0" and "new_pool E c p0 = Inr p" and "n = core_number E * mWorkersPerCore c"
    and "list_all (timed_event_ok (core_number E) n) es"
    and "timed_run add work (core_number E) es (timed_start p g) = Some (Inr s)" and "phase s = Flagged"
  shows "\<exists>k \<le> 2 * n + core_number E + 4. \<forall>js. length js = k \<longrightarrow>
    (\<exists>s'. timed_run add work (core_number E) (map Timer_acts js @ [Join, Release]) s = Some (Inr s') \<and>
      phase s' = Released \<and> (\<forall>i < n. mJobWorkerArr (tpool s') ! i = None) \<and>
      (\<forall>i < mJobQueueCount (tpool s'). mJobQueueArr (tpool s') ! i = None))"
proof -
  let ?cores = "core_number E"
  have inv: "timed_inv ?cores (timed_start p g)" and same: "mJobWorkerCount (tpool (timed_start p g)) = n"
    using timed_start_ok [OF assms(1-6), of g] assms(7) by (simp_all add: timed_start_def)
  from timed_run_ok [OF inv _ assms(9)] assms(8) same have
    s: "timed_inv ?cores s" "mJobWorkerCount (tpool s) = n" by auto
  have "\<exists>s'. timed_run add work ?cores (map Timer_acts js @ [Join, Release]) s = Some (Inr s') \<and>
      phase s' = Released \<and> (\<forall>i < n. mJobWorkerArr (tpool s') ! i = None) \<and>
      (\<forall>i < mJobQueueCount (tpool s'). mJobQueueArr (tpool s') ! i = None)" if js: "length js = acts_left ?cores s" for js
  proof -
    obtain t where t: "timed_run add work ?cores (map Timer_acts js) s = Some (Inr t)" "timed_inv ?cores t" "phase t = Flagged"
      "tpc t = Timer_exited" "mJobWorkerCount (tpool t) = n"
      using timer_runs_out [OF s(1) assms(10) js, of add work] s(2) by auto
    then have "filled (mJobWorkerArr (tpool t)) 0 n" "filled (mJobQueueArr (tpool t)) 0 (mJobQueueCount (tpool t))"
      by (auto simp: timed_inv_def pool_ready_def)
    then obtain ws qs where "delete_all n 0 (mJobWorkerArr (tpool t)) = Inr ws" "\<forall>i < n. ws ! i = None"
      "delete_all (mJobQueueCount (tpool t)) 0 (mJobQueueArr (tpool t)) = Inr qs" "\<forall>i < mJobQueueCount (tpool t). qs ! i = None"
      using delete_all_ok [of "mJobWorkerArr (tpool t)" 0 n] delete_all_ok [of "mJobQueueArr (tpool t)" 0 "mJobQueueCount (tpool t)"]
      by auto
    then show ?thesis using t(3-5) by (simp add: timed_run_append [OF t(1)])
  qed
  moreover have "acts_left ?cores s \<le> 2 * n + ?cores + 4" using acts_left_le [OF s(1)] assms(10) s(2) by simp
  ultimately show ?thesis by blast
qed

theorem stop_returns_witness:
  "\<exists>p s k s'. new_pool sample_env (sample_config JOBQUEUE_TYPE_SHARED 2) sample_memory = Inr p \<and>
    timed_run sample_add sample_work 2 (one_scan @ [Flag]) (timed_start p []) = Some (Inr s) \<and> k \<le> 14 \<and>
    timed_run sample_add sample_work 2 (map Timer_acts (replicate k busy_jobs) @ [Join, Release]) s = Some (Inr s') \<and>
    phase s' = Released \<and> mJobWorkerArr (tpool s') ! 3 = None"
proof -
  obtain p s0 where r: "new_pool sample_env (sample_config JOBQUEUE_TYPE_SHARED 2) sample_memory = Inr p"
    "timed_run sample_add sample_work 2 one_scan (timed_start p []) = Some (Inr s0)" "phase s0 = Serving"
    using one_scan_run by blast
  then obtain s where s: "timed_run sample_add sample_work 2 (one_scan @ [Flag]) (timed_start p []) = Some (Inr s)" "phase s = Flagged"
    by (simp add: timed_run_append [OF r(2)])
  have four: "4 = core_number sample_env * mWorkersPerCore (sample_config JOBQUEUE_TYPE_SHARED 2)" by (simp add: sample_facts)
  from stop_returns [OF sample_facts(5) sample_fit sample_facts(2,3,1) r(1) four, of "one_scan @ [Flag]" sample_add sample_work "[]" s]
  obtain k where k: "k \<le> 14" "\<forall>js. length js = k \<longrightarrow>
      (\<exists>s'. timed_run sample_add sample_work 2 (map Timer_acts js @ [Join, Release]) s = Some (Inr s') \<and> phase s' = Released \<and>
        (\<forall>i < 4. mJobWorkerArr (tpool s') ! i = None) \<and> (\<forall>i < mJobQueueCount (tpool s'). mJobQueueArr (tpool s') ! i = None))"
    using s one_scan_ok(2) by (auto simp: sample_facts)
  from k(2) [rule_format, of "replicate k busy_jobs"] obtain s' where
    k': "timed_run sample_add sample_work 2 (map Timer_acts (replicate k busy_jobs) @ [Join, Release]) s = Some (Inr s')"
    "phase s' = Released" "\<forall>i < 4. mJobWorkerArr (tpool s') ! i = None"
    by auto
  then have "mJobWorkerArr (tpool s') ! 3 = None" by simp
  with k(1) k'(1,2) r(1) s(1) show ?thesis by blast
qed

text \<open>
  C16: The least-jobs policies use complete scans, in a pool that starts (as in the property of live workers above, the missing
  \<^verbatim>\<open>return\<close> read as true). At every moment of its use, also when the timer is in the middle of a scan and jobs
  come and go between its counts, the least-jobs policy picks a worker with the fewest jobs among the counts of the last scan of all
  workers that ended, and the same-core one a worker with the fewest among those of the last scan of the core; before the first scan
  they pick some worker and some worker of the core.
\<close>

theorem least_jobs_last_scan:
  assumes "acceptable E c" and "shares_fit c (core_number E * mWorkersPerCore c)" and "fell_off E = Inr True" and "timer_rc E = 0"
    and "fresh_memory p0" and "new_pool E c p0 = Inr p"
    and "n = core_number E * mWorkersPerCore c" and "wpc = mWorkersPerCore c"
    and "list_all (timed_event_ok (core_number E) n) es"
    and "timed_run add work (core_number E) es (timed_start p g) = Some (Inr s)" and "phase s = Serving"
    and "core < core_number E"
  shows "\<exists>m m'. choose_worker JOB_ASSIGN_LEAST_JOBS core draw (tpool s) = Inr (m, tpool s) \<and> m < n \<and>
      (seen_all s \<noteq> [] \<longrightarrow> least_in (\<lambda>v. seen_all s ! v) 0 n m) \<and>
    choose_worker JOB_ASSIGN_SAME_CORE_LEAST_JOBS core draw (tpool s) = Inr (m', tpool s) \<and> core_entry_ok wpc core m' \<and>
      (seen_core s core \<noteq> [] \<longrightarrow> least_in (\<lambda>v. seen_core s core ! (v - core * wpc)) (core * wpc) wpc m')"
proof -
  have inv: "timed_inv (core_number E) (timed_start p g)" and same: "mJobWorkerCount (tpool (timed_start p g)) = n"
    and conf: "mWorkersPerCore (mConfig (tpool (timed_start p g))) = wpc"
    using timed_start_ok [OF assms(1-6), of g] assms(7,8) by (simp_all add: timed_start_def)
  from timed_run_ok [OF inv _ assms(10)] assms(9) same conf have
    s: "timed_inv (core_number E) s" "mJobWorkerCount (tpool s) = n" "mWorkersPerCore (mConfig (tpool s)) = wpc" by auto
  then have ok: "pool_ok (core_number E) (tpool s)" and stats: "stats_ok (core_number E) s"
    using assms(11) by (simp_all add: timed_inv_def pool_ready_def)
  let ?m = "mJobWorkerWithLeastJob (tpool s)" and ?m' = "mJobWorkerWithLeastJobOnEachCoreArr (tpool s) ! core"
  have "?m < n" "core < length (mJobWorkerWithLeastJobOnEachCoreArr (tpool s))"
    using ok s(2) pool_okD(2) [OF ok assms(12)] by (simp_all add: pool_ok_def)
  moreover have "core_entry_ok wpc core ?m'" using pool_okD(5) [OF ok assms(12)] s(3) by simp
  moreover have "least_in (\<lambda>v. seen_all s ! v) 0 n ?m" if "seen_all s \<noteq> []"
    using stats that s(2) least_of_seen_counts [of "seen_all s" 0 ?m] by (auto simp: stats_ok_def Let_def)
  moreover have "least_in (\<lambda>v. seen_core s core ! (v - core * wpc)) (core * wpc) wpc ?m'" if "seen_core s core \<noteq> []"
    using stats that assms(12) s(3) least_of_seen_counts [of "seen_core s core" "core * wpc" ?m'] by (auto simp: stats_ok_def Let_def)
  ultimately show ?thesis by (simp add: choose_worker_def array_get_def)
qed

theorem least_jobs_last_scan_witness:
  "\<exists>p s. new_pool sample_env (sample_config JOBQUEUE_TYPE_SHARED 2) sample_memory = Inr p \<and>
    timed_run sample_add sample_work 2 one_scan (timed_start p []) = Some (Inr s) \<and>
    choose_worker JOB_ASSIGN_LEAST_JOBS 1 0 (tpool s) = Inr (2, tpool s) \<and> least_in (\<lambda>v. [5, 3, 1, 2] ! v) 0 4 2"
proof -
  obtain p s where r: "new_pool sample_env (sample_config JOBQUEUE_TYPE_SHARED 2) sample_memory = Inr p"
    "timed_run sample_add sample_work 2 one_scan (timed_start p []) = Some (Inr s)" "phase s = Serving"
    "seen_all s = [5, 3, 1, 2]" "mJobWorkerWithLeastJob (tpool s) = 2"
    using one_scan_run by blast
  have four: "4 = core_number sample_env * mWorkersPerCore (sample_config JOBQUEUE_TYPE_SHARED 2)"
    "2 = mWorkersPerCore (sample_config JOBQUEUE_TYPE_SHARED 2)" by (simp_all add: sample_facts)
  from least_jobs_last_scan [OF sample_facts(5) sample_fit sample_facts(2,3,1) r(1) four, of one_scan sample_add sample_work "[]" s 1 0]
  have "\<exists>m. choose_worker JOB_ASSIGN_LEAST_JOBS 1 0 (tpool s) = Inr (m, tpool s) \<and> least_in (\<lambda>v. [5, 3, 1, 2] ! v) 0 4 m"
    using r one_scan_ok(1) by (auto simp: sample_facts)
  then show ?thesis using r by (simp add: choose_worker_def)
qed

end
