(* ===== verification/Dir_Scan.thy ===== *)
theory Dir_Scan
  imports Prelude
begin

text \<open>
  The directory scan of Chapter 3 (\<^verbatim>\<open>dir.c\<close>). The file system is a map of inodes; a name in a directory is
  resolved by the system to an inode, a symbolic link to the one it points to (\<^verbatim>\<open>stat\<close>,
  \<^verbatim>\<open>opendir\<close> and \<^verbatim>\<open>chdir\<close> follow links), so a link to a directory is an entry whose inode has another
  parent. The scan moves the process's working directory, and recurses over directories that
  links may make cyclic: \<open>fuel\<close> bounds the depth of calls.
\<close>

section \<open>File systems\<close>

text \<open>
  A directory has its entries in the order of \<^verbatim>\<open>readdir\<close>, the dot names among them, and may be
  unreadable (\<^verbatim>\<open>opendir\<close> fails) or not searchable (\<^verbatim>\<open>chdir\<close> fails).
\<close>

datatype inode =
    File
  | Directory (entries: "(string \<times> nat) list") (readable: bool) (searchable: bool)

type_synonym file_system = "nat \<Rightarrow> inode option"

definition lookup :: "file_system \<Rightarrow> nat \<Rightarrow> string \<Rightarrow> nat option" where
  "lookup fs d nm =
     (case fs d of
        Some (Directory es r s) \<Rightarrow>
          (case map_of es nm of Some i \<Rightarrow> if fs i = None then None else Some i | None \<Rightarrow> None)
      | _ \<Rightarrow> None)"

text \<open>What the process prints, and where it is.\<close>

datatype line = Entry nat string | Stat_error string | Open_error string

record walk =
  cwd :: nat
  printed :: "line list"

definition print_line :: "line \<Rightarrow> walk \<Rightarrow> walk" where
  "print_line l w = w\<lparr>printed := printed w @ [l]\<rparr>"

definition chdir :: "file_system \<Rightarrow> string \<Rightarrow> walk \<Rightarrow> walk" where
  "chdir fs nm w =
     (case lookup fs (cwd w) nm of
        Some i \<Rightarrow> (case fs i of Some (Directory es r True) \<Rightarrow> w\<lparr>cwd := i\<rparr> | _ \<Rightarrow> w)
      | None \<Rightarrow> w)"

section \<open>printdir\<close>

text \<open>
  \<^verbatim>\<open>printdir\<close> and its loop over the entries of an open directory. \<open>None\<close>: the fuel is used up.
\<close>

fun printdir :: "nat \<Rightarrow> file_system \<Rightarrow> string option \<Rightarrow> nat \<Rightarrow> walk \<Rightarrow> walk option"
  and print_entries :: "nat \<Rightarrow> file_system \<Rightarrow> (string \<times> nat) list \<Rightarrow> nat \<Rightarrow> walk \<Rightarrow> walk option" where
  "printdir 0 fs dirname leadingSpaceNum w = None"
| "printdir (Suc fuel) fs None leadingSpaceNum w = Some w"
| "printdir (Suc fuel) fs (Some dirname) leadingSpaceNum w =
     (if dirname = ''.'' \<or> dirname = ''..'' then Some w
      else
        let w1 = print_line (Entry leadingSpaceNum dirname) w
        in case lookup fs (cwd w1) dirname of
             None \<Rightarrow> Some (print_line (Stat_error dirname) w1)
           | Some i \<Rightarrow>
               (case fs i of
                  Some (Directory es r s) \<Rightarrow>
                    if \<not> r then Some (print_line (Open_error dirname) w1)
                    else (case print_entries fuel fs es (leadingSpaceNum + 2) (chdir fs dirname w1) of
                            None \<Rightarrow> None
                          | Some w2 \<Rightarrow> Some (chdir fs ''..'' w2))
                | _ \<Rightarrow> Some w1))"
| "print_entries fuel fs [] leadingSpaceNum w = Some w"
| "print_entries fuel fs ((d_name, i) # es) leadingSpaceNum w =
     (case printdir fuel fs (Some d_name) leadingSpaceNum w of
        None \<Rightarrow> None
      | Some w1 \<Rightarrow> print_entries fuel fs es leadingSpaceNum w1)"

text \<open>
  \<^verbatim>\<open>main\<close>: the argument is copied into 256 bytes; \<^verbatim>\<open>dirname\<close> and \<^verbatim>\<open>basename\<close> are the C library's, and
  \<open>enter\<close> is what changing to the parent directory does.
\<close>

definition dir_main ::
    "nat \<Rightarrow> file_system \<Rightarrow> (string \<Rightarrow> string) \<Rightarrow> (string \<Rightarrow> string) \<Rightarrow> (string \<Rightarrow> walk \<Rightarrow> walk) \<Rightarrow> string \<Rightarrow> string list \<Rightarrow> walk \<Rightarrow>
     walk option result" where
  "dir_main fuel fs dirname basename enter getcwd argv w =
     (case argv of
        prog # arg # rest \<Rightarrow>
          if length arg < 256 then Inr (printdir fuel fs (Some (basename arg)) 0 (enter (dirname arg) w))
          else Inl Out_of_bounds
      | _ \<Rightarrow> Inr (printdir fuel fs (Some (basename getcwd)) 0 (enter (dirname getcwd) w)))"

section \<open>Trees\<close>

text \<open>A directory tree without links, and the listing it should give.\<close>

datatype tree = Leaf | Node "(string \<times> tree) list"

fun listing :: "nat \<Rightarrow> string \<Rightarrow> tree \<Rightarrow> line list" where
  "listing n nm Leaf = [Entry n nm]"
| "listing n nm (Node ts) = Entry n nm # concat (map (\<lambda>(m, t). listing (n + 2) m t) ts)"

fun height :: "tree \<Rightarrow> nat" where
  "height Leaf = 1"
| "height (Node ts) = Suc (Max (insert 1 (set (map (\<lambda>(m, t). height t) ts))))"

definition dots :: "string set" where "dots = {''.'', ''..''}"

text \<open>
  The inode \<open>i\<close>, found in directory \<open>up\<close>, holds the tree: its entries other than the dot names are the
  tree's, in order, and its \<open>..\<close> is \<open>up\<close>.
\<close>

fun holds :: "file_system \<Rightarrow> nat \<Rightarrow> nat \<Rightarrow> tree \<Rightarrow> bool" where
  "holds fs up i Leaf = (fs i = Some File)"
| "holds fs up i (Node ts) =
     (\<exists>es. fs i = Some (Directory es True True) \<and> distinct (map fst es) \<and> map_of es ''..'' = Some up \<and>
        map fst (filter (\<lambda>e. fst e \<notin> dots) es) = map fst ts \<and>
        (\<forall>(m, t) \<in> set ts. \<exists>j. map_of es m = Some j \<and> holds fs i j t))"

definition is_open_dir :: "file_system \<Rightarrow> nat \<Rightarrow> bool" where
  "is_open_dir fs d \<longleftrightarrow> (\<exists>es r. fs d = Some (Directory es r True))"

lemma holds_exists: "holds fs up i t \<Longrightarrow> fs i \<noteq> None"
  by (cases t) auto

lemma printdir_dot [simp]: "printdir (Suc fuel) fs (Some ''.'') n w = Some w" "printdir (Suc fuel) fs (Some ''..'') n w = Some w"
  by simp_all

text \<open>The loop, given that every entry's call adds its listing and returns to the directory.\<close>

lemma print_entries_listing:
  assumes "\<And>m t w. (m, t) \<in> set ts \<Longrightarrow> cwd w = i \<Longrightarrow>
      printdir (Suc fuel) fs (Some m) n w = Some (w\<lparr>printed := printed w @ listing n m t\<rparr>)"
    and "map fst (filter (\<lambda>e. fst e \<notin> dots) es) = map fst ts" and "cwd w = i"
  shows "print_entries (Suc fuel) fs es n w = Some (w\<lparr>printed := printed w @ concat (map (\<lambda>(m, t). listing n m t) ts)\<rparr>)"
  using assms
proof (induction es arbitrary: ts w)
  case Nil
  then show ?case by simp
next
  case (Cons e es)
  obtain m j where e: "e = (m, j)" by fastforce
  show ?case
  proof (cases "m \<in> dots")
    case True
    with Cons.prems(2) e have "map fst (filter (\<lambda>e. fst e \<notin> dots) es) = map fst ts" by simp
    from Cons.IH [OF Cons.prems(1) this Cons.prems(3)] True e show ?thesis
      by (auto simp: dots_def simp del: printdir.simps)
  next
    case False
    with Cons.prems(2) e obtain t ts' where ts: "ts = (m, t) # ts'" "map fst (filter (\<lambda>e. fst e \<notin> dots) es) = map fst ts'"
      by (cases ts) auto
    have "printdir (Suc fuel) fs (Some m) n w = Some (w\<lparr>printed := printed w @ listing n m t\<rparr>)"
      by (rule Cons.prems(1)) (simp_all add: ts(1) Cons.prems(3))
    moreover have "print_entries (Suc fuel) fs es n (w\<lparr>printed := printed w @ listing n m t\<rparr>) =
        Some (w\<lparr>printed := (printed w @ listing n m t) @ concat (map (\<lambda>(m, t). listing n m t) ts')\<rparr>)"
      using Cons.IH [of ts' "w\<lparr>printed := printed w @ listing n m t\<rparr>"] Cons.prems(1,3) ts by simp
    ultimately show ?thesis by (simp add: e ts(1) del: printdir.simps)
  qed
qed

lemma height_pos: "1 \<le> height t"
  by (cases t) simp_all

lemma height_child: "(m, t) \<in> set ts \<Longrightarrow> Suc (height t) \<le> height (Node ts)"
  by (auto intro!: Max_ge)

lemma entry_not_dot:
  assumes "map fst (filter (\<lambda>e. fst e \<notin> dots) es) = map fst ts" and "(m, t) \<in> set ts"
  shows "m \<notin> dots"
proof -
  have "m \<in> set (map fst ts)" using assms(2) by force
  then have "m \<in> set (map fst (filter (\<lambda>e. fst e \<notin> dots) es))" by (simp only: assms(1))
  then show ?thesis by auto
qed

text \<open>On a tree the scan prints the listing and comes back to where it was.\<close>

lemma printdir_listing:
  "holds fs up i t \<Longrightarrow> is_open_dir fs up \<Longrightarrow> lookup fs up nm = Some i \<Longrightarrow> nm \<notin> dots \<Longrightarrow> cwd w = up \<Longrightarrow>
   height t \<le> fuel \<Longrightarrow> printdir fuel fs (Some nm) n w = Some (w\<lparr>printed := printed w @ listing n nm t\<rparr>)"
proof (induction t arbitrary: up i nm n w fuel)
  case Leaf
  then obtain k where "fuel = Suc k" by (cases fuel) simp_all
  with Leaf show ?case by (simp add: dots_def print_line_def)
next
  case (Node ts)
  from Node.prems(1) obtain es where
    es: "fs i = Some (Directory es True True)" "distinct (map fst es)" "map_of es ''..'' = Some up"
      "map fst (filter (\<lambda>e. fst e \<notin> dots) es) = map fst ts"
    and sub: "\<And>m t. (m, t) \<in> set ts \<Longrightarrow> \<exists>j. map_of es m = Some j \<and> holds fs i j t"
    by fastforce
  have "2 \<le> height (Node ts)" using Max_ge [of "insert 1 (set (map (\<lambda>(m, t). height t) ts))" 1] by simp
  then have "2 \<le> fuel" using Node.prems(6) by (rule le_trans)
  then have "fuel = Suc (Suc (fuel - 2))" by simp
  then obtain k where fuel: "fuel = Suc (Suc k)" by blast
  let ?w1 = "print_line (Entry n nm) w"
  let ?w2 = "?w1\<lparr>cwd := i\<rparr>"
  have enter: "chdir fs nm ?w1 = ?w2"
    using Node.prems(3,5) es(1) by (simp add: chdir_def print_line_def)
  have "print_entries (Suc k) fs es (n + 2) ?w2 =
      Some (?w2\<lparr>printed := printed ?w2 @ concat (map (\<lambda>(m, t). listing (n + 2) m t) ts)\<rparr>)"
  proof (rule print_entries_listing [OF _ es(4)])
    fix m t and w :: walk
    assume t: "(m, t) \<in> set ts" and w: "cwd w = i"
    obtain j where j: "map_of es m = Some j" "holds fs i j t" using sub [OF t] by blast
    have "lookup fs i m = Some j" using j holds_exists es(1) by (auto simp: lookup_def)
    moreover have "is_open_dir fs i" using es(1) by (auto simp: is_open_dir_def)
    moreover have "Suc (height t) \<le> Suc (Suc k)"
      using height_child [OF t] Node.prems(6) unfolding fuel by (rule le_trans)
    then have "height t \<le> Suc k" by (rule Suc_le_mono [THEN iffD1])
    ultimately show "printdir (Suc k) fs (Some m) (n + 2) w = Some (w\<lparr>printed := printed w @ listing (n + 2) m t\<rparr>)"
      by (intro Node.IH [OF t _ j(2) _ _ entry_not_dot [OF es(4) t] w]) simp_all
  qed simp
  moreover have "lookup fs i ''..'' = Some up"
    using es(1,3) Node.prems(2) by (auto simp: lookup_def is_open_dir_def)
  ultimately show ?case
    using Node.prems(2-5) es(1) enter
    by (auto simp: fuel dots_def print_line_def chdir_def is_open_dir_def)
qed

section \<open>Properties\<close>

text \<open>
  C31: on a directory tree without links, all of whose directories can be read and searched, the
  scan ends (calls nest no deeper than the tree is high), prints every file and directory once,
  depth first in the order of \<^verbatim>\<open>readdir\<close>, two spaces deeper per level, and is back in the directory it
  started from.
\<close>

theorem printdir_lists_tree:
  assumes "holds fs (cwd w) i t" and "is_open_dir fs (cwd w)" and "lookup fs (cwd w) nm = Some i" and "nm \<notin> dots"
    and "height t \<le> fuel"
  shows "printdir fuel fs (Some nm) n w = Some (w\<lparr>printed := printed w @ listing n nm t\<rparr>)"
  by (rule printdir_listing [OF assms(1-4) refl assms(5)])

text \<open>
  Directory 0 (in 6) holds \<open>d\<close> (1) and \<open>e\<close> (3); \<open>d\<close> holds the file \<open>a\<close> (2), \<open>l\<close>, which is a link to \<open>e\<close>, and the
  file \<open>z\<close>; \<open>e\<close> holds the file \<open>b\<close>.
\<close>

definition sample_fs :: file_system where
  "sample_fs = [6 \<mapsto> Directory [(''.'', 6), (''..'', 6), (''home'', 0)] True True,
     0 \<mapsto> Directory [(''.'', 0), (''..'', 6), (''d'', 1), (''e'', 3)] True True,
     1 \<mapsto> Directory [(''.'', 1), (''..'', 0), (''a'', 2), (''l'', 3), (''z'', 4)] True True,
     2 \<mapsto> File, 3 \<mapsto> Directory [(''.'', 3), (''..'', 0), (''b'', 5)] True True, 4 \<mapsto> File, 5 \<mapsto> File]"

theorem printdir_lists_tree_witness:
  "printdir 2 sample_fs (Some ''e'') 0 \<lparr>cwd = 0, printed = []\<rparr> =
     Some \<lparr>cwd = 0, printed = [Entry 0 ''e'', Entry 2 ''b'']\<rparr>"
proof -
  have "holds sample_fs 0 3 (Node [(''b'', Leaf)])" by (simp add: sample_fs_def dots_def)
  moreover have "is_open_dir sample_fs 0" "lookup sample_fs 0 ''e'' = Some 3" "''e'' \<notin> dots"
    by (auto simp: is_open_dir_def lookup_def sample_fs_def dots_def)
  ultimately show ?thesis
    using printdir_lists_tree [of sample_fs "\<lparr>cwd = 0, printed = []\<rparr>" 3 "Node [(''b'', Leaf)]" "''e''" 2 0]
    by (simp add: numeral_2_eq_2 del: printdir.simps)
qed

text \<open>
  a link to a directory loses the scan's place. Leaving it with \<^verbatim>\<open>..\<close> goes to the parent of the
  directory the link points to; the entries that follow are looked up there, and the scan does
  not come back to where it was: here the file \<open>z\<close> of \<open>d\<close> is reported as missing, and the scan that
  began in directory 0 ends in directory 6.
\<close>

lemma printdir_lost_after_link:
  "printdir 4 sample_fs (Some ''d'') 0 \<lparr>cwd = 0, printed = []\<rparr> = Some \<lparr>cwd = 6,
     printed = [Entry 0 ''d'', Entry 2 ''a'', Entry 2 ''l'', Entry 4 ''b'', Entry 2 ''z'', Stat_error ''z'']\<rparr>"
  by (simp add: numeral_eq_Suc sample_fs_def lookup_def chdir_def print_line_def)

end
