(* ===== verification/Record_File.thy ===== *)
theory Record_File
  imports Codec
begin

text \<open>
  The program \<^verbatim>\<open>mmap_test.c\<close> of Chapter 3: it writes sixty records to a file, changes each of them through a
  mapping of the file, and reads the file again to check the ids. The file is its bytes; the mapping
  is shared, so a write to it is a write to the file.
\<close>

section \<open>Records\<close>

text \<open>The structure has 44 bytes: the id, the name's 37 and three bytes of padding.\<close>

definition MAX_NAME_LEN :: nat where "MAX_NAME_LEN = 36"

record frec =
  rec_id :: "32 word"
  rec_name :: "byte list"
  rec_pad :: "byte list"

definition wf_frec :: "frec \<Rightarrow> bool" where
  "wf_frec x \<longleftrightarrow> length (rec_name x) = MAX_NAME_LEN + 1 \<and> length (rec_pad x) = 3"

definition REC_SIZE :: nat where "REC_SIZE = 44"

definition frec_bytes :: "frec \<Rightarrow> byte list" where
  "frec_bytes x = le_bytes 4 (unat (rec_id x)) @ rec_name x @ rec_pad x"

definition frec_of_bytes :: "byte list \<Rightarrow> frec" where
  "frec_of_bytes bs =
     \<lparr>rec_id = of_nat (le_value (take 4 bs)), rec_name = take (MAX_NAME_LEN + 1) (drop 4 bs),
      rec_pad = drop (4 + MAX_NAME_LEN + 1) bs\<rparr>"

interpretation frec_codec: fixed_codec frec_bytes frec_of_bytes REC_SIZE wf_frec
proof unfold_locales
  show "0 < REC_SIZE" by (simp add: REC_SIZE_def)
  show "wf_frec x \<Longrightarrow> length (frec_bytes x) = REC_SIZE" for x
    by (simp add: frec_bytes_def wf_frec_def MAX_NAME_LEN_def REC_SIZE_def)
  show "frec_of_bytes (frec_bytes x) = x" if "wf_frec x" for x
  proof -
    have "unat (rec_id x) < 2 ^ LENGTH(32)" by (rule unsigned_less)
    then have "le_value (le_bytes 4 (unat (rec_id x))) = unat (rec_id x)"
      by (intro le_value_bytes) simp
    with that show ?thesis by (simp add: frec_of_bytes_def frec_bytes_def wf_frec_def)
  qed
qed

section \<open>The program\<close>

definition RECORD_COUNT :: nat where "RECORD_COUNT = 60"

definition name_record :: "frec \<Rightarrow> frec result" where
  "name_record x =
     bind_result (sprintf_int (rec_name x) ''Record with id of '' (sint (rec_id x))) (\<lambda>nm. Inr (x\<lparr>rec_name := nm\<rparr>))"

text \<open>The first loop, with \<open>k\<close> records to go from \<open>i\<close> on; \<open>x\<close> is the variable \<^verbatim>\<open>rec\<close>.\<close>

fun write_records :: "nat \<Rightarrow> nat \<Rightarrow> frec \<Rightarrow> byte list \<Rightarrow> (frec \<times> byte list) result" where
  "write_records 0 i x file = Inr (x, file)"
| "write_records (Suc k) i x file =
     bind_result (name_record (x\<lparr>rec_id := of_nat i\<rparr>)) (\<lambda>x1. write_records k (Suc i) x1 (file @ frec_bytes x1))"

text \<open>The loop over the mapped array.\<close>

fun modify_records :: "nat \<Rightarrow> nat \<Rightarrow> byte list \<Rightarrow> byte list result" where
  "modify_records 0 i mem = Inr mem"
| "modify_records (Suc k) i mem =
     bind_result (mem_read mem (int (REC_SIZE * i)) REC_SIZE) (\<lambda>bs.
     let x = frec_of_bytes bs
     in bind_result (name_record (x\<lparr>rec_id := rec_id x + 100\<rparr>)) (\<lambda>x1.
        bind_result (mem_write mem (int (REC_SIZE * i)) (frec_bytes x1)) (modify_records k (Suc i))))"

text \<open>
  The last loop: \<^verbatim>\<open>fread\<close> of what is left of the file into \<^verbatim>\<open>rec\<close> (only what is there, at the end of the file),
  and the assertion.
\<close>

fun verify_records :: "nat \<Rightarrow> nat \<Rightarrow> frec \<Rightarrow> byte list \<Rightarrow> unit result" where
  "verify_records 0 i x left = Inr ()"
| "verify_records (Suc k) i x left =
     (let got = take REC_SIZE left;
          x1 = frec_of_bytes (got @ drop (length got) (frec_bytes x))
      in if rec_id x1 = of_nat (i + 100) then verify_records k (Suc i) x1 (drop REC_SIZE left)
         else Inl Assertion_failed)"

text \<open>
  \<^verbatim>\<open>main\<close>, where the file can be opened and mapped (the source does not check that): the file it leaves.
\<close>

definition mmap_main :: "frec \<Rightarrow> byte list result" where
  "mmap_main junk =
     bind_result (write_records RECORD_COUNT 0 junk []) (\<lambda>(x, file).
     bind_result (modify_records RECORD_COUNT 0 file) (\<lambda>file'.
     bind_result (verify_records RECORD_COUNT 0 x file') (\<lambda>_. Inr file')))"

section \<open>Reading and writing in a stream of objects\<close>

context fixed_codec
begin

lemma length_stream: "\<forall>x \<in> set xs. ok x \<Longrightarrow> length (concat (map enc xs)) = width * length xs"
  by (induction xs) (simp_all add: enc_length)

lemma read_in_stream:
  assumes "\<forall>x \<in> set xs. ok x" and "ok x"
  shows "mem_read (concat (map enc (xs @ x # ys))) (int (width * length xs)) width = Inr (enc x)"
  using length_stream [OF assms(1)] enc_length [OF assms(2)] by (simp add: mem_read_def flip: of_nat_mult of_nat_add)

lemma write_in_stream:
  assumes "\<forall>x \<in> set xs. ok x" and "ok x" and "ok y"
  shows "mem_write (concat (map enc (xs @ x # ys))) (int (width * length xs)) (enc y) =
    Inr (concat (map enc (xs @ y # ys)))"
  using length_stream [OF assms(1)] enc_length [OF assms(2)] enc_length [OF assms(3)]
  by (simp add: mem_write_nat del: of_nat_mult)

end

section \<open>The file after each loop\<close>

definition is_record :: "nat \<Rightarrow> frec \<Rightarrow> bool" where
  "is_record m x \<longleftrightarrow> wf_frec x \<and> rec_id x = of_nat m \<and>
     c_string (rec_name x) = bytes ''Record with id of '' @ numeral_text 10 m"

lemma name_record_ok:
  assumes "wf_frec x" and "rec_id x = of_nat m" and "m < 1000"
  shows "\<exists>x'. name_record x = Inr x' \<and> is_record m x' \<and> rec_pad x' = rec_pad x"
proof -
  have s: "sint (rec_id x) = int m"
    using assms(2,3) by (simp add: signed_of_nat signed_take_bit_int_eq_self)
  have d: "decimal_text (int m) = numeral_text 10 m" by (simp add: decimal_text_def)
  have "length (numeral_text 10 m) \<le> Suc 2" using numeral_text_length_le [of 10 m 2] assms(3) by simp
  then have "length (bytes ''Record with id of '' @ decimal_text (int m) @ [0]) \<le> length (rec_name x)"
    using assms(1) by (simp add: d wf_frec_def MAX_NAME_LEN_def)
  then obtain nm where nm: "sprintf_int (rec_name x) ''Record with id of '' (int m) = Inr nm" "length nm = length (rec_name x)"
    by (auto simp: sprintf_int_def Let_def)
  have "c_string nm = bytes ''Record with id of '' @ decimal_text (int m)"
    by (rule sprintf_int_string [OF nm(1)]) (auto simp: bytes_def)
  with nm s assms(1,2) show ?thesis by (simp add: name_record_def is_record_def wf_frec_def d)
qed

lemma write_records_ok:
  "wf_frec x \<Longrightarrow> i + k \<le> 1000 \<Longrightarrow>
   \<exists>x' xs. write_records k i x dst = Inr (x', dst @ concat (map frec_bytes xs)) \<and> wf_frec x' \<and> list_all2 is_record [i..<i + k] xs"
proof (induction k arbitrary: i x dst)
  case (Suc k)
  have "wf_frec (x\<lparr>rec_id := of_nat i\<rparr>)" using Suc.prems(1) by (simp add: wf_frec_def)
  from name_record_ok [OF this, of i] Suc.prems(2) obtain x1 where
    x1: "name_record (x\<lparr>rec_id := of_nat i\<rparr>) = Inr x1" "is_record i x1" by auto
  then have "wf_frec x1" by (simp add: is_record_def)
  from Suc.IH [OF this, of "Suc i" "dst @ frec_bytes x1"] Suc.prems(2) obtain x' xs where
    "write_records k (Suc i) x1 (dst @ frec_bytes x1) = Inr (x', (dst @ frec_bytes x1) @ concat (map frec_bytes xs))"
    "wf_frec x'" "list_all2 is_record [Suc i..<Suc i + k] xs"
    by fastforce
  with x1 show ?case
    by (intro exI [of _ x'] exI [of _ "x1 # xs"]) (simp add: upt_conv_Cons del: upt_Suc)
qed simp

lemma modify_records_ok:
  "list_all2 is_record [i..<i + k] xs \<Longrightarrow> \<forall>y \<in> set ys. wf_frec y \<Longrightarrow> length ys = i \<Longrightarrow> i + k \<le> 900 \<Longrightarrow>
   \<exists>zs. modify_records k i (concat (map frec_bytes (ys @ xs))) = Inr (concat (map frec_bytes (ys @ zs))) \<and>
     list_all2 is_record [i + 100..<i + k + 100] zs"
proof (induction k arbitrary: i xs ys)
  case (Suc k)
  then obtain x xs' where xs: "xs = x # xs'" "is_record i x" "list_all2 is_record [Suc i..<Suc i + k] xs'"
    by (auto simp: upt_conv_Cons list_all2_Cons1 simp del: upt_Suc)
  then have wf: "wf_frec x" and id: "rec_id x = of_nat i" by (simp_all add: is_record_def)
  have "wf_frec (x\<lparr>rec_id := rec_id x + 100\<rparr>)" using wf by (simp add: wf_frec_def)
  from name_record_ok [OF this, of "i + 100"] id Suc.prems(4) obtain z where
    z: "name_record (x\<lparr>rec_id := rec_id x + 100\<rparr>) = Inr z" "is_record (i + 100) z" by auto
  then have wfz: "wf_frec z" by (simp add: is_record_def)
  have "\<forall>y \<in> set (ys @ [z]). wf_frec y" using Suc.prems(2) wfz by simp
  from Suc.IH [OF xs(3) this] Suc.prems(3,4) obtain zs where
    zs: "modify_records k (Suc i) (concat (map frec_bytes ((ys @ [z]) @ xs'))) = Inr (concat (map frec_bytes ((ys @ [z]) @ zs)))"
    "list_all2 is_record [Suc i + 100..<Suc i + k + 100] zs" by auto
  have "modify_records (Suc k) i (concat (map frec_bytes (ys @ xs))) = Inr (concat (map frec_bytes (ys @ z # zs)))"
    using frec_codec.read_in_stream [OF Suc.prems(2) wf, of xs'] frec_codec.write_in_stream [OF Suc.prems(2) wf wfz, of xs']
      frec_codec.dec_enc [OF wf] z(1) zs(1) Suc.prems(3)
    by (simp add: xs(1) Let_def)
  then show ?case using z(2) zs(2)
    by (intro exI [of _ "z # zs"]) (simp add: upt_conv_Cons del: upt_Suc)
qed simp

lemma verify_records_ok:
  "list_all2 is_record [i + 100..<i + k + 100] zs \<Longrightarrow> wf_frec x \<Longrightarrow> verify_records k i x (concat (map frec_bytes zs)) = Inr ()"
proof (induction k arbitrary: i x zs)
  case (Suc k)
  then obtain z zs' where zs: "zs = z # zs'" "is_record (i + 100) z" "list_all2 is_record [Suc i + 100..<Suc i + k + 100] zs'"
    by (auto simp: upt_conv_Cons list_all2_Cons1 simp del: upt_Suc)
  then have wf: "wf_frec z" and id: "rec_id z = of_nat (i + 100)" by (simp_all add: is_record_def)
  have len: "length (frec_bytes x) = REC_SIZE" "length (frec_bytes z) = REC_SIZE"
    using frec_codec.enc_length Suc.prems(2) wf by blast+
  have "verify_records k (Suc i) z (concat (map frec_bytes zs')) = Inr ()"
    by (rule Suc.IH) (use zs(3) wf in simp_all)
  then show ?case
    using frec_codec.dec_enc [OF wf] id by (simp add: zs(1) len Let_def)
qed simp

section \<open>Properties\<close>

text \<open>
  C39: the program's assertions hold and the file ends as meant. Whatever the variable \<^verbatim>\<open>rec\<close> holds
  at first, no array is overrun, the assertion on every id holds, and the file consists of sixty
  records with the ids 100 to 159, each named after its id.
\<close>

theorem mmap_test_succeeds:
  assumes "wf_frec junk"
  shows "\<exists>bs. mmap_main junk = Inr bs \<and>
    list_all2 is_record [100..<160] (map frec_of_bytes (fst (pieces REC_SIZE bs))) \<and> snd (pieces REC_SIZE bs) = []"
proof -
  obtain x xs where w: "write_records 60 0 junk [] = Inr (x, concat (map frec_bytes xs))" "wf_frec x"
    "list_all2 is_record [0..<60] xs"
    using write_records_ok [OF assms, of 0 60 "[]"] by auto
  then obtain zs where z: "modify_records 60 0 (concat (map frec_bytes xs)) = Inr (concat (map frec_bytes zs))"
    "list_all2 is_record [100..<160] zs"
    using modify_records_ok [of 0 60 xs "[]"] by auto
  have v: "verify_records 60 0 x (concat (map frec_bytes zs)) = Inr ()"
    using verify_records_ok [of 0 60 zs x] z(2) w(2) by simp
  have wf: "\<forall>y \<in> set zs. wf_frec y"
    using z(2) by (auto simp: list_all2_conv_all_nth in_set_conv_nth is_record_def)
  have "map frec_of_bytes (fst (pieces REC_SIZE (concat (map frec_bytes zs)))) = zs"
    using frec_codec.stream_roundtrip [OF wf, of "[]"] by (simp add: REC_SIZE_def)
  moreover have "snd (pieces REC_SIZE (concat (map frec_bytes zs))) = []"
    using frec_codec.pieces_of_stream [OF wf, of "[]"] by (simp add: REC_SIZE_def)
  ultimately show ?thesis
    using w(1) z v by (simp add: mmap_main_def RECORD_COUNT_def)
qed

theorem mmap_test_succeeds_witness:
  "\<exists>bs. mmap_main \<lparr>rec_id = 5, rec_name = replicate 37 65, rec_pad = [1, 2, 3]\<rparr> = Inr bs \<and>
    list_all2 is_record [100..<160] (map frec_of_bytes (fst (pieces REC_SIZE bs)))"
  using mmap_test_succeeds [of "\<lparr>rec_id = 5, rec_name = replicate 37 65, rec_pad = [1, 2, 3]\<rparr>"]
  by (auto simp: wf_frec_def MAX_NAME_LEN_def)

end
