(* ===== verification/Small_Programs.thy ===== *)
theory Small_Programs
  imports Codec
begin

text \<open>
  Two small programs: \<^verbatim>\<open>Chapter04/sysinfo.c\<close>, which logs what the system says of itself and of the
  user, and \<^verbatim>\<open>Chapter03/test.c\<close>, which writes three numbers to a file and reads them back.
\<close>

section \<open>The system information\<close>

record utsname =
  sysname :: string
  nodename :: string
  release :: string
  version :: string
  machine :: string

record passwd =
  pw_name :: string
  pw_gid :: nat
  pw_shell :: string
  pw_dir :: string

record rusage =
  ru_utime :: "int \<times> int"
  ru_stime :: "int \<times> int"

text \<open>What the calls of the program return; \<open>Inl\<close>: the call failed with this \<^verbatim>\<open>errno\<close>.\<close>

record system =
  sys_uname :: "int + utsname"
  sys_now :: string
  sys_uid :: nat
  sys_users :: "nat \<Rightarrow> passwd option"
  sys_groups :: "nat \<Rightarrow> string option"
  sys_rusage :: "int + rusage"
  sys_pid :: int
  sys_priority :: int

datatype log_line =
    Starts
  | Uname_error int
  | Host utsname
  | Run_at string
  | User string string string string
  | Usage_error int
  | Usage int int rusage

text \<open>
  The lines logged, and the exit code or the fault. The results of \<^verbatim>\<open>getpwuid\<close> and
  \<^verbatim>\<open>getgrgid\<close> are used without a check.
\<close>

definition sysinfo_main :: "system \<Rightarrow> log_line list \<times> int result" where
  "sysinfo_main m =
     (case sys_uname m of
        Inl e \<Rightarrow> ([Starts, Uname_error e], Inr 1)
      | Inr hostinfo \<Rightarrow>
          (let log1 = [Starts, Host hostinfo, Run_at (sys_now m)] in
           case sys_users m (sys_uid m) of
             None \<Rightarrow> (log1, Inl Null_dereference)
           | Some puserinfo \<Rightarrow>
               (case sys_groups m (pw_gid puserinfo) of
                  None \<Rightarrow> (log1, Inl Null_dereference)
                | Some gr_name \<Rightarrow>
                    (let log2 = log1 @ [User (pw_name puserinfo) gr_name (pw_shell puserinfo) (pw_dir puserinfo)] in
                     case sys_rusage m of
                       Inl e \<Rightarrow> (log2 @ [Usage_error e], Inr 1)
                     | Inr sysusage \<Rightarrow> (log2 @ [Usage (sys_pid m) (sys_priority m) sysusage], Inr 0)))))"

text \<open>
  Each outcome of the system information program has its cause: it ends with 0 exactly when the host
  and usage calls succeed and the user and its group have entries, with 1 exactly when the host call
  fails, or the usage call does after the entries were found; and without an entry for the
  user or its group it dereferences a null pointer. Then it has logged the host and the time, but
  neither user nor usage.
\<close>

lemma sysinfo_outcome:
  "let (log, out) = sysinfo_main m;
       host = (\<exists>h. sys_uname m = Inr h);
       user = (\<exists>u g. sys_users m (sys_uid m) = Some u \<and> sys_groups m (pw_gid u) = Some g);
       usage = (\<exists>r. sys_rusage m = Inr r)
   in (out = Inr 0 \<longleftrightarrow> host \<and> user \<and> usage) \<and> (out = Inr 1 \<longleftrightarrow> (if host then user \<and> \<not> usage else True)) \<and>
      (out = Inl Null_dereference \<longleftrightarrow> host \<and> \<not> user) \<and>
      length log = (if \<not> host then 2 else if user then 5 else 3) \<and>
      (\<exists>u g s d. User u g s d \<in> set log) = (host \<and> user)"
  by (auto simp: sysinfo_main_def Let_def split: sum.split option.split)

section \<open>Reading back what was written\<close>

record stream =
  content :: "byte list"
  offset :: nat

definition fwrite :: "byte list \<Rightarrow> stream \<Rightarrow> stream" where
  "fwrite bs f =
     f\<lparr>content := take (offset f) (content f) @ bs @ drop (offset f + length bs) (content f),
       offset := offset f + length bs\<rparr>"

text \<open>\<^verbatim>\<open>fread\<close> of one object of \<open>n\<close> bytes into a variable that holds \<open>old\<close>.\<close>

definition fread :: "nat \<Rightarrow> byte list \<Rightarrow> stream \<Rightarrow> byte list \<times> stream" where
  "fread n old f =
     (let got = take n (drop (offset f) (content f))
      in (got @ drop (length got) old, f\<lparr>offset := offset f + length got\<rparr>))"

definition fseek_start :: "stream \<Rightarrow> stream" where
  "fseek_start f = f\<lparr>offset := 0\<rparr>"

text \<open>The \<^verbatim>\<open>float\<close> 4.5 in the processor's single precision.\<close>

definition float_4_5 :: nat where "float_4_5 = 0x40900000"

text \<open>\<^verbatim>\<open>main\<close>: its exit code and the bytes of the numbers it prints; \<^verbatim>\<open>w+\<close> empties the file.\<close>

definition file_test_main :: "bool \<Rightarrow> byte list \<Rightarrow> int \<times> (byte list \<times> byte list \<times> byte list) option \<times> byte list" where
  "file_test_main opens old =
     (if \<not> opens then (1, None, old)
      else
        (let f0 = \<lparr>content = [], offset = 0\<rparr>;
             f1 = fwrite (le_bytes 4 2) f0; f2 = fwrite (le_bytes 4 3) f1; f3 = fwrite (le_bytes 4 float_4_5) f2;
             f4 = fseek_start f3;
             (a, f5) = fread 4 (le_bytes 4 0) f4; (b, f6) = fread 4 (le_bytes 4 0) f5; (c, f7) = fread 4 (le_bytes 4 0) f6
         in (0, Some (a, b, c), content f7)))"

lemma fread_fwritten:
  assumes "content f = pre @ bs @ post" and "offset f = length pre" and "length bs = n" and "length old = n"
  shows "fread n old f = (bs, f\<lparr>offset := length pre + n\<rparr>)"
  using assms by (simp add: fread_def Let_def)

lemma fwrite_end: "offset f = length (content f) \<Longrightarrow> fwrite bs f = f\<lparr>content := content f @ bs, offset := length (content f) + length bs\<rparr>"
  by (simp add: fwrite_def)

lemma file_test_reads_back:
  "file_test_main opens old =
     (if opens then (0, Some (le_bytes 4 2, le_bytes 4 3, le_bytes 4 float_4_5), le_bytes 4 2 @ le_bytes 4 3 @ le_bytes 4 float_4_5)
      else (1, None, old))"
  by (simp add: file_test_main_def Let_def fwrite_end fseek_start_def fread_def del: le_bytes.simps)

end
