(* ===== verification/Spec2Isabelle.thy ===== *)
theory Spec2Isabelle
  imports Queue_Races Queue_Spsc Queue_Workers Producer_Consumer Sched_Object Sim_Life Sim_Threads Shm_Threads Shm_Workers Msg_Queue
    Mq_Life Shm_Child Net_Setup Net_Many Tree_Serial Pool_Locks Pool_Timer Dir_Scan Record_File Small_Programs
begin

text \<open>
  A model of the C++ and C programs of the repository and of what makes them correct.

  \<^bold>\<open>The program.\<close> The repository holds exercises on Linux programming. Its logic is in five parts:
  a bounded queue with producer and consumer threads and a simulator that runs them
  (Chapter 12); the same producers and consumers as processes that share the queue in shared
  memory or talk over a POSIX message queue (Chapter 14); a client that sends checksummed items to
  an epoll server (Chapter 15); random binary trees (Chapter 10); and a thread pool
  (AdaptiveThreadPool), which needs classes that are not in the repository. Chapter 3 has a
  directory scan and a test of mapped files.

  \<^bold>\<open>Conventions\<close> (\<open>Prelude\<close>, \<open>Posix\<close>). Undefined behaviour and failed assertions are values \<open>Inl\<close> of a
  sum type; array accesses and signed 32-bit arithmetic are checked. Unsigned integers are words,
  or naturals with the remainder written out (\<open>Thread_Pool.u32\<close>). \<^verbatim>\<open>rand\<close> is a stream of arbitrary draws. What a
  program reads from the system (the clock, \<^verbatim>\<open>sched_getcpu\<close>, results of system calls, junk in
  memory) is a parameter. Output is modelled only where it reports something (the queue's
  counters, the server's messages, the directory listing).

  \<^bold>\<open>Chapter 12.\<close>
  \<^item> \<open>Bounded_Queue\<close>: \<^verbatim>\<open>Queue/Queue.h\<close>; the ring, its counters and semaphores, \<^verbatim>\<open>push\<close> and \<^verbatim>\<open>pop\<close> split
    into their atomic actions and run alone. They refine a list with a capacity, the interface
    \<open>Fifo_Channel.fifo_channel\<close>.
  \<^item> \<open>Queue_Threads\<close>: any number of threads interleave these actions; no reachable state has a fault
    before 2147483647 pushes, the lock excludes, units are conserved, calls make progress.
  \<^item> \<open>Queue_Spsc\<close>, \<open>Queue_Races\<close>: with one producer and one consumer the queue is linearizable and the
    copies never race; with two of either it is not, because the copy happens after the lock is released.
  \<^item> \<open>Work_Item\<close>, \<open>Producer_Consumer\<close>: \<^verbatim>\<open>Items/WorkItem.h\<close>, \<^verbatim>\<open>Producer.cpp\<close>, \<^verbatim>\<open>Consumer.cpp\<close> over the interface \<open>item_channel\<close>,
    which the queue provides: every item exactly once and in order, bounds, unique ids.
  \<^item> \<open>Queue_Workers\<close>: any number of producers and consumers repeat their \<^verbatim>\<open>work\<close> on one queue while their
    actions interleave; the interfaces \<open>called_queue\<close> and \<open>fifo_queue\<close> state what a thread sees of the queue's calls, and the
    threads of \<open>Queue_Threads\<close> and \<open>Queue_Spsc\<close> provide them: what a producer puts into the queue are its items in order, no worker hangs.
  \<^item> \<open>Sched_Object\<close>: \<^verbatim>\<open>ScheduledObject.cpp\<close>; scheduler settings, and the life of an object and its thread
    as two interleaved machines: the memory outlives the thread, the destructor returns.
  \<^item> \<open>Sim_Main\<close>: the set-up of \<^verbatim>\<open>Sim/ProducerConsumerSim.cpp\<close> with its fixed and allocated arrays.
  \<^item> \<open>Sim_Life\<close>: its \<^verbatim>\<open>main\<close> from the set-up to the last \<^verbatim>\<open>delete\<close>, interleaved with the threads of all objects:
    nothing is used after its release or released twice, \<^verbatim>\<open>main\<close> never hangs. Its one fault is a \<^verbatim>\<open>delete\<close> of an array; the
    end is clean where an implementation takes that for \<^verbatim>\<open>delete[]\<close> (parameter \<open>lax\<close>). The one assumption on time, that the threads'
    first sleep outlasts the constructors, is the hypothesis \<open>in_time_run\<close> (\<open>built_in_time\<close> in \<open>Mq_Life\<close>, \<open>child_in_time\<close> in \<open>Shm_Child\<close>).

  \<^bold>\<open>Chapter 14.\<close>
  \<^item> \<open>C_Text\<close>, \<open>Getopt\<close>, \<open>Sim_Args\<close>: \<^verbatim>\<open>itoa\<close>, \<^verbatim>\<open>atoi\<close>, \<^verbatim>\<open>sprintf\<close> of a number, \<^verbatim>\<open>getopt\<close>; the arguments the parents
    write and the children read.
  \<^item> \<open>Sim_Start\<close>, \<open>Sim_Threads\<close>: the starts of all simulators from the command line on, to the scheduler settings of the
    children's threads; parents and children agree.
  \<^item> \<open>Codec\<close>, \<open>Shm_Queue\<close>: objects as bytes (interface \<open>fixed_codec\<close>); the queue that stores its items in the
    bytes behind itself (\<^verbatim>\<open>SharedMemory/Queue/Queue.h\<close>) refines that of Chapter 12.
  \<^item> \<open>Shm_Threads\<close>: the same queue used by two processes at once, whose copies of an item are single moves of
    bytes in any order: a forward simulation onto \<open>Queue_Spsc\<close> shows that no item is torn.
  \<^item> \<open>Shm_Workers\<close>: \<^verbatim>\<open>Producer.cpp\<close> and \<^verbatim>\<open>Consumer.cpp\<close> of the shared-memory program as two processes at work on that queue,
    another provider of \<open>fifo_queue\<close>: what is consumed is what was made, in order and whole.
  \<^item> \<open>Msg_Queue\<close>: producer and consumer over a message queue. \<open>Mq_Life\<close>: the lives of these objects, which open and close
    their descriptor around the thread's life: a refinement of \<open>Sched_Object\<close>, the number they report at the end,
    and the calls the thread can make on the closed descriptor.
  \<^item> \<open>Sim_Process\<close>: the mains as lists of system calls, run as interleaved processes with \<^verbatim>\<open>fork\<close>, \<^verbatim>\<open>execl\<close>
    and \<^verbatim>\<open>waitpid\<close>. The interface \<open>fork_join_main\<close> states what the two parents have in common; its
    invariant gives both simulations' clean end. \<^verbatim>\<open>execl\<close> is taken to succeed there; any other call may fail, a refused removal of the
    name and a thread that cannot be made included. Runs in which \<^verbatim>\<open>execl\<close> fails, or in which
    a child is late, are shown to go wrong.
  \<^item> \<open>Shm_Child\<close>: a child of the shared-memory simulation with its thread, interleaved; it refines the process of
    \<open>Sim_Process\<close>, whose worker ends with the thread, and the thread uses the queue only while the region is mapped.

  \<^bold>\<open>Chapter 15.\<close>
  \<^item> \<open>Net_Item\<close>: \<^verbatim>\<open>Common/WorkItem.h\<close>; the checksum as a rotated sum, what it detects and what not, the
    item's 544 bytes.
  \<^item> \<open>Net_Client\<close>: \<^verbatim>\<open>Client.h\<close>, \<^verbatim>\<open>Client.cpp\<close>; the items a client sends and the bounds of their names.
  \<^item> \<open>Net_Server\<close>: the event loop of \<^verbatim>\<open>Server.h\<close> on connections whose bytes arrive in any pieces.
  \<^item> \<open>Net_Setup\<close>: \<^verbatim>\<open>Connect\<close>, \<^verbatim>\<open>Disconnect\<close>, the set-up of the server on a map of open sockets, and both \<^verbatim>\<open>main\<close>s.
  \<^item> \<open>Net_Many\<close>: several connections at once; \<open>conversation\<close> says which client each event of the server belongs to, whether
    it finds an item, a part of one, nothing or the end, and the server's reports are the merged answers to the clients.
  \<^item> this theory: clients and server together.

  \<^bold>\<open>The others.\<close>
  \<^item> \<open>Tree_Heap\<close>: \<^verbatim>\<open>Chapter10/test/util\<close>; trees on a heap of addresses: generation, comparison, release.
  \<^item> \<open>Tree_Serial\<close>: \<^verbatim>\<open>Chapter10/serialize\<close> and its test as they stand: stubs, and a loop that is commented out.
  \<^item> \<open>Thread_Pool\<close>: \<^verbatim>\<open>AdaptiveThreadPool\<close>; configuration, start and release of the pool, the timer's
    statistics and the choice of a worker; the two round robin counters are instances of the
    interface \<open>rr_cursor\<close>. The check of the configuration ends without a \<^verbatim>\<open>return\<close> when it accepts: what its caller then reads is
    the parameter \<open>fell_off\<close>, and a pool that starts is one for which that is true.
  \<^item> \<open>Pool_Run\<close>: a pool from its constructor to its destructor under any sequence of jobs, turns of the timer and work;
    it refines its workers, taken alone. What workers and queues do is a parameter, with a state they share.
  \<^item> \<open>Pool_Locks\<close>: callers of \<^verbatim>\<open>addJob\<close> at the same time, with the semaphores of the counters and the single reads and
    writes between them: the choices are those of callers that take turns, and no caller hangs.
  \<^item> \<open>Pool_Timer\<close>: \<^verbatim>\<open>timer_thread_func\<close> count by count, while jobs come and go and while \<^verbatim>\<open>stopWorkers\<close> ends it: it
    never reaches a deleted worker, the destructor returns, the least-jobs policies use whole scans.
  \<^item> \<open>Dir_Scan\<close>, \<open>Record_File\<close>: \<^verbatim>\<open>Chapter03/dir.c\<close> and \<^verbatim>\<open>mmap_test.c\<close>.
  \<^item> \<open>Small_Programs\<close>: \<^verbatim>\<open>Chapter04/sysinfo.c\<close> and \<^verbatim>\<open>Chapter03/test.c\<close>.

  \<^bold>\<open>Bounds and fuel.\<close> \<open>Queue_Threads\<close> and \<open>Queue_Spsc\<close> allow queue sizes up to \<open>MAX_QUEUE_SIZE\<close> and as many pushes
  as an \<^verbatim>\<open>int\<close> counts. \<open>Dir_Scan.printdir\<close> has a fuel for the depth of calls; the height of the tree is enough. The
  loops of the client run over the clock's readings, and end with the first that is late.
  \<open>Tree_Heap\<close> uses \<open>partial_function\<close> where pointers might form cycles; on trees the
  functions are proved to return.

  \<^bold>\<open>Not modelled.\<close> \<^verbatim>\<open>Chapter01\<close>, whose programs only print a line. The classes
  \<^verbatim>\<open>Job\<close>, \<^verbatim>\<open>JobWorker\<close> and \<^verbatim>\<open>JobQueue\<close> of the thread pool, which the repository does not contain. Interrupted system
  calls (EINTR) and failing \<^verbatim>\<open>sem_init\<close>, \<^verbatim>\<open>malloc\<close> and \<^verbatim>\<open>new\<close>; in \<open>Sched_Object\<close>, \<open>Mq_Life\<close> and \<open>Sim_Life\<close> also failing \<^verbatim>\<open>pthread_create\<close>,
  which aborts. The memory model of the processor: actions of threads are taken to be
  seen by all threads in one order, also where the source shares plain variables (\<^verbatim>\<open>m_run\<close>, \<^verbatim>\<open>mTimerRun\<close>, the timer's results).
  The header files of \<^verbatim>\<open>ScheduledObject\<close>, \<^verbatim>\<open>WorkItem\<close>, \<^verbatim>\<open>Producer\<close> and \<^verbatim>\<open>Consumer\<close> in Chapter 14's shared-memory program
  are those of Chapter 12 and share their model.
\<close>

section \<open>Chapter 15 as a whole\<close>

text \<open>
  The bytes that the clients write, cut into whatever pieces the network delivers, become the items that
  the server reports.
\<close>






end
